(* ===== verification/Raft_Prelude.thy ===== *)
theory Raft_Prelude imports Main "HOL-Library.AList" begin

text \<open>
  Shared vocabulary of the development: the collections of rewrite rules that the component
  theories fill, and generic facts on lists, association lists and integers that several
  components use.

  \<^item> \<open>node_frame\<close>: which fields of the node's record an operation leaves alone;
  \<^item> \<open>db_simps\<close>: what the queries of the durable store return after an update;
  \<^item> \<open>sm_simps\<close>: what the state machine's queries return after an update.
\<close>

named_theorems node_frame
named_theorems db_simps
named_theorems sm_simps

text \<open>
  A JavaScript \<open>Map\<close> is an association list in insertion order: \<open>set\<close> on a key that is
  present keeps its position, and appends otherwise, which is \<open>AList.update\<close>.
\<close>

type_synonym ('k, 'v) jsmap = "('k \<times> 'v) list"

abbreviation map_get :: "('k, 'v) jsmap \<Rightarrow> 'k \<Rightarrow> 'v option" where
  "map_get m k \<equiv> map_of m k"

abbreviation map_set :: "'k \<Rightarrow> 'v \<Rightarrow> ('k, 'v) jsmap \<Rightarrow> ('k, 'v) jsmap" where
  "map_set \<equiv> AList.update"

abbreviation map_del :: "'k \<Rightarrow> ('k, 'v) jsmap \<Rightarrow> ('k, 'v) jsmap" where
  "map_del \<equiv> AList.delete"

abbreviation map_keys :: "('k, 'v) jsmap \<Rightarrow> 'k list" where
  "map_keys m \<equiv> map fst m"

text \<open>\<open>new Map(entries)\<close> sets the entries in turn.\<close>

definition map_from_entries :: "('k \<times> 'v) list \<Rightarrow> ('k, 'v) jsmap" where
  "map_from_entries kvs = fold (\<lambda>(k, v). map_set k v) kvs []"

lemma update_append_fresh: "k \<notin> fst ` set m \<Longrightarrow> map_set k v m = m @ [(k, v)]"
  by (induction m) auto

lemma fold_update_distinct:
  "distinct (map_keys (m @ kvs)) \<Longrightarrow> fold (\<lambda>(k, v). map_set k v) kvs m = m @ kvs"
proof (induction kvs arbitrary: m)
  case (Cons kv kvs)
  obtain k v where kv: "kv = (k, v)" by (cases kv)
  with Cons.prems have "k \<notin> fst ` set m" by auto
  with Cons kv show ?case by (simp add: update_append_fresh)
qed simp

lemma map_from_entries_distinct: "distinct (map_keys kvs) \<Longrightarrow> map_from_entries kvs = kvs"
  using fold_update_distinct[of "[]" kvs] by (simp add: map_from_entries_def)

lemma length_delete_distinct:
  "distinct (map_keys m) \<Longrightarrow>
   length (map_del k m) = (if k \<in> fst ` set m then length m - 1 else length m)"
proof (induction m)
  case (Cons kv m)
  obtain k' v where kv: "kv = (k', v)" by (cases kv)
  show ?case
  proof (cases "k = k'")
    case True
    with Cons kv show ?thesis by (auto simp: delete_id)
  next
    case False
    with Cons kv have "k \<in> fst ` set m \<Longrightarrow> m \<noteq> []" by auto
    with Cons kv False show ?thesis by (cases m) auto
  qed
qed simp

lemma find_Some_iff_mem:
  assumes "distinct (map f xs)"
  shows "find (\<lambda>x. f x = i) xs = Some x \<longleftrightarrow> x \<in> set xs \<and> f x = i"
  using assms by (induction xs) (auto split: if_splits)

lemma find_rev_distinct:
  assumes "distinct (map f xs)"
  shows "find (\<lambda>x. f x = i) (rev xs) = find (\<lambda>x. f x = i) xs"
proof (cases "find (\<lambda>x. f x = i) xs")
  case None
  then have "find (\<lambda>x. f x = i) (rev xs) = None" by (simp add: find_None_iff)
  with None show ?thesis by simp
next
  case (Some x)
  with assms have "x \<in> set (rev xs) \<and> f x = i" by (simp add: find_Some_iff_mem)
  moreover have "distinct (map f (rev xs))" using assms by (simp flip: rev_map)
  ultimately show ?thesis using Some by (simp add: find_Some_iff_mem)
qed

lemma find_filter_key:
  "find (\<lambda>x. f x = i) (filter (\<lambda>x. P (f x)) xs) = (if P i then find (\<lambda>x. f x = i) xs else None)"
  by (induction xs) auto

lemma sorted_wrt_last_max:
  assumes "sorted_wrt (<) (map (f :: 'a \<Rightarrow> int) xs)" "x \<in> set xs"
  shows "f x \<le> f (last xs)"
  using assms by (induction xs) (auto simp: order.order_iff_strict)

lemma sorted_wrt_hd_min:
  assumes "sorted_wrt (<) (map (f :: 'a \<Rightarrow> int) xs)" "x \<in> set xs"
  shows "f (hd xs) \<le> f x"
  using assms by (cases xs) auto

lemma sorted_wrt_filter_key:
  "sorted_wrt (<) (map (f :: 'a \<Rightarrow> int) xs) \<Longrightarrow> sorted_wrt (<) (map f (filter P xs))"
  by (induction xs) auto

lemma sorted_wrt_less_distinct:
  "sorted_wrt (<) (map (f :: 'a \<Rightarrow> int) xs) \<Longrightarrow> distinct (map f xs)"
  by (induction xs) auto

text \<open>The first element of a list and its position, as the early exit of a search loop gives it.\<close>

lemma find_split:
  "find P xs = Some x \<longleftrightarrow>
   (\<exists>ys zs. xs = ys @ x # zs \<and> P x \<and> (\<forall>y \<in> set ys. \<not> P y))"
proof (induction xs)
  case (Cons y xs)
  show ?case
  proof (cases "P y")
    case True
    then show ?thesis by (auto simp: Cons_eq_append_conv)
  next
    case False
    with Cons show ?thesis
      by (auto simp: Cons_eq_append_conv) (metis set_ConsD)+
  qed
qed simp


text \<open>The results of a broadcast that are answers (the others failed).\<close>

fun answers :: "'a option list \<Rightarrow> 'a list" where
  "answers [] = []"
| "answers (None # rs) = answers rs"
| "answers (Some b # rs) = b # answers rs"

lemma set_answers [simp]: "b \<in> set (answers rs) \<longleftrightarrow> Some b \<in> set rs"
  by (induction rs rule: answers.induct) auto

end
