(* ===== verification/Raft_Types.thy ===== *)
theory Raft_Types imports Raft_Prelude Complex_Main begin

text \<open>
  The values that travel through the system: JSON values and objects (client payloads are JSON
  objects), the roles and entry types of \<open>replicas/raft/types.js\<close>, and log entries.

  A payload keeps its two identity fields apart (\<open>clientId\<close>, \<open>seq\<close>; \<open>None\<close> is
  \<open>null\<close> or \<open>undefined\<close>) and the rest of its properties as the object that
  \<open>{clientId, seq, ...canvasFields}\<close> leaves.  A sequence number is an integer, as the
  canvas's counter makes it.  JSON numbers that are integral are \<open>JInt\<close>, the others
  \<open>JFlt\<close>.
\<close>

datatype jval =
    JNull
  | JBool bool
  | JInt int
  | JFlt rat
  | JStr string
  | JArr "jval list"
  | JObj "(string \<times> jval) list"

type_synonym jobj = "(string, jval) jsmap"

text \<open>\<open>{ ...o, ...p }\<close>: the properties of \<open>p\<close> are set, in order, on a copy of \<open>o\<close>.\<close>

definition obj_spread :: "jobj \<Rightarrow> jobj \<Rightarrow> jobj" where
  "obj_spread base p = fold (\<lambda>(k, v). map_set k v) p base"

text \<open>
  \<open>v >= n\<close> for a property value against a number: \<open>undefined\<close> and non-numeric operands
  convert to \<open>NaN\<close>, for which every comparison is false; \<open>null\<close> and booleans convert to
  0 and 1.  Strings, arrays and objects are taken as non-numeric.
\<close>

fun js_ge :: "jval option \<Rightarrow> int \<Rightarrow> bool" where
  "js_ge (Some (JInt i)) n = (i \<ge> n)"
| "js_ge (Some (JFlt r)) n = (r \<ge> of_int n)"
| "js_ge (Some JNull) n = (0 \<ge> n)"
| "js_ge (Some (JBool b)) n = ((if b then 1 else 0) \<ge> n)"
| "js_ge _ n = False"

fun js_le :: "jval option \<Rightarrow> int \<Rightarrow> bool" where
  "js_le (Some (JInt i)) n = (i \<le> n)"
| "js_le (Some (JFlt r)) n = (r \<le> of_int n)"
| "js_le (Some JNull) n = (0 \<le> n)"
| "js_le (Some (JBool b)) n = ((if b then 1 else 0) \<le> n)"
| "js_le _ n = False"

datatype role = FOLLOWER | CANDIDATE | LEADER

datatype entry_type = STROKE | NOOP

record payload =
  p_clientId :: "string option"
  p_seq :: "int option"
  p_fields :: jobj

record entry =
  e_index :: int
  e_term :: int
  e_type :: entry_type
  e_payload :: "payload option"

lemma map_get_spread:
  "map_get (obj_spread o1 o2) k = (case map_get (rev o2) k of Some v \<Rightarrow> Some v | None \<Rightarrow> map_get o1 k)"
proof (induction o2 arbitrary: o1)
  case (Cons kv o2)
  obtain k' v where kv: "kv = (k', v)" by (cases kv)
  have "obj_spread o1 (kv # o2) = obj_spread (map_set k' v o1) o2"
    by (simp add: obj_spread_def kv)
  with Cons kv show ?case
    by (auto simp: update_conv' map_add_def split: option.splits)
qed (simp add: obj_spread_def)

lemma map_get_spread_fresh:
  "k \<notin> fst ` set o2 \<Longrightarrow> map_get (obj_spread o1 o2) k = map_get o1 k"
  by (simp add: map_get_spread map_of_eq_None_iff[THEN iffD2])

end
