(* ===== verification/State_Machine.thy ===== *)
theory State_Machine imports Raft_Types begin

text \<open>
  The replicated canvas (\<open>replicas/raft/StateMachine.js\<close>): committed strokes, the index of
  the last applied entry, and the table that drops retried strokes by \<open>(clientId, seq)\<close>,
  kept in least-recently-used order and bounded by \<open>dedupeMaxClients\<close>.
\<close>

subsection \<open>An interface: keyed tables in insertion order\<close>

text \<open>
  What the deduplication relies on: a table with lookup, insertion, deletion and an ordered
  list of keys.  \<open>touch\<close> moves a key to the end and evicts the first key when the table grows
  past a bound; its laws are proved here once, from the interface alone.
\<close>

locale ordered_table =
  fixes get :: "'t \<Rightarrow> 'k \<Rightarrow> 'v option"
    and put :: "'k \<Rightarrow> 'v \<Rightarrow> 't \<Rightarrow> 't"
    and del :: "'k \<Rightarrow> 't \<Rightarrow> 't"
    and keys :: "'t \<Rightarrow> 'k list"
  assumes get_put: "get (put k v t) = (get t)(k \<mapsto> v)"
    and get_del: "get (del k t) = (get t)(k := None)"
    and keys_put_fresh: "get t k = None \<Longrightarrow> keys (put k v t) = keys t @ [k]"
    and keys_del: "keys (del k t) = filter (\<lambda>j. j \<noteq> k) (keys t)"
begin

definition touch :: "int \<Rightarrow> 'k \<Rightarrow> 'v \<Rightarrow> 't \<Rightarrow> 't" where
  "touch mx k v t =
     (let t' = put k v (del k t)
      in if int (length (keys t')) > mx then del (hd (keys t')) t' else t')"

lemma keys_moved: "keys (put k v (del k t)) = filter (\<lambda>j. j \<noteq> k) (keys t) @ [k]"
  by (simp add: keys_put_fresh get_del keys_del)

lemma get_moved: "get (put k v (del k t)) = (get t)(k \<mapsto> v)"
  by (simp add: get_put get_del)

lemma touch_keys:
  assumes "distinct (keys t)"
  shows "keys (touch mx k v t) =
    (let ks = filter (\<lambda>j. j \<noteq> k) (keys t) @ [k]
     in if int (length ks) > mx then tl ks else ks)"
proof -
  let ?ks = "filter (\<lambda>j. j \<noteq> k) (keys t) @ [k]"
  obtain x xs where ks: "?ks = x # xs" by (cases ?ks) auto
  have "distinct ?ks" using assms by simp
  then have "filter (\<lambda>j. j \<noteq> x) (x # xs) = xs"
    unfolding ks by (auto simp: filter_id_conv)
  then show ?thesis
    by (simp add: touch_def Let_def keys_moved keys_del ks del: filter.simps filter_append)
qed

lemma touch_distinct: "distinct (keys t) \<Longrightarrow> distinct (keys (touch mx k v t))"
  by (simp add: touch_keys Let_def distinct_tl)

lemma touch_bound:
  assumes "distinct (keys t)" "int (length (keys t)) \<le> mx"
  shows "int (length (keys (touch mx k v t))) \<le> mx"
proof -
  have "length (filter (\<lambda>j. j \<noteq> k) (keys t)) \<le> length (keys t)" by simp
  with assms(2) have "int (length (filter (\<lambda>j. j \<noteq> k) (keys t))) \<le> mx" by linarith
  with assms(1) show ?thesis by (simp add: touch_keys Let_def)
qed

lemma touch_get_same:
  assumes "1 \<le> mx" shows "get (touch mx k v t) k = Some v"
proof -
  let ?ks = "filter (\<lambda>j. j \<noteq> k) (keys t)"
  have "hd (?ks @ [k]) \<noteq> k" if "int (length (?ks @ [k])) > mx"
  proof (cases ?ks)
    case Nil with that assms show ?thesis by simp
  next
    case (Cons x xs)
    then have "x \<in> set ?ks" by (metis list.set_intros(1))
    then have "x \<noteq> k" by simp
    with Cons show ?thesis by simp
  qed
  then show ?thesis
    by (auto simp: touch_def Let_def get_del get_moved keys_moved)
qed

lemma touch_get_room:
  assumes "int (length (filter (\<lambda>j. j \<noteq> k) (keys t))) < mx"
  shows "get (touch mx k v t) = (get t)(k \<mapsto> v)"
  using assms by (simp add: touch_def Let_def get_moved keys_moved)

lemma touch_get_other:
  "j \<noteq> k \<Longrightarrow> get (touch mx k v t) j = get t j \<or> get (touch mx k v t) j = None"
  by (auto simp: touch_def Let_def get_del get_moved)

end

interpretation js_table: ordered_table map_get map_set map_del map_keys
proof
  show "map_get (map_set k v t) = (map_get t)(k \<mapsto> v)" for k :: 'a and v :: 'b and t
    by (rule update_conv')
  show "map_get (map_del k t) = (map_get t)(k := None)" for k :: 'a and t :: "('a \<times> 'b) list"
    by (rule delete_conv')
  show "map_keys (map_set k v t) = map_keys t @ [k]" if "map_get t k = None"
    for k :: 'a and v :: 'b and t
    using that by (simp add: update_append_fresh map_of_eq_None_iff)
  show "map_keys (map_del k t) = filter (\<lambda>j. j \<noteq> k) (map_keys t)"
    for k :: 'a and t :: "('a \<times> 'b) list"
    by (induction t) auto
qed

subsection \<open>The state machine\<close>

record dedupe_rec =
  d_seq :: int
  d_index :: int

record snapshot_blob =
  sn_strokes :: "jobj list option"
  sn_dedupe :: "(string, dedupe_rec) jsmap option"

record state_machine =
  strokes :: "jobj list"
  lastApplied :: int
  dedupe :: "(string, dedupe_rec) jsmap"
  dedupeMaxClients :: int

definition new_state_machine :: "int \<Rightarrow> state_machine" where
  "new_state_machine mx = \<lparr>strokes = [], lastApplied = -1, dedupe = [], dedupeMaxClients = mx\<rparr>"

definition getDedupeIndex :: "state_machine \<Rightarrow> string \<Rightarrow> int \<Rightarrow> int option" where
  "getDedupeIndex s cid sq =
     (case map_get (dedupe s) cid of
        None \<Rightarrow> None
      | Some d \<Rightarrow> if d_seq d \<ge> sq then Some (d_index d) else None)"

definition touchDedupe :: "string \<Rightarrow> int \<Rightarrow> int \<Rightarrow> state_machine \<Rightarrow> state_machine" where
  "touchDedupe cid sq idx s =
     (let d1 = map_del cid (dedupe s);
          d2 = map_set cid \<lparr>d_seq = sq, d_index = idx\<rparr> d1
      in if int (length d2) > dedupeMaxClients s
         then s\<lparr>dedupe := map_del (hd (map_keys d2)) d2\<rparr>
         else s\<lparr>dedupe := d2\<rparr>)"

definition empty_payload :: payload where
  "empty_payload = \<lparr>p_clientId = None, p_seq = None, p_fields = []\<rparr>"

definition payload_of :: "entry \<Rightarrow> payload" where
  "payload_of e = (case e_payload e of Some p \<Rightarrow> p | None \<Rightarrow> empty_payload)"

text \<open>The object pushed for a stroke, \<open>{ index: entry.index, ...canvasFields }\<close>.\<close>

definition stroke_of :: "entry \<Rightarrow> jobj" where
  "stroke_of e = obj_spread [(''index'', JInt (e_index e))] (p_fields (payload_of e))"

definition push_stroke :: "entry \<Rightarrow> state_machine \<Rightarrow> state_machine" where
  "push_stroke e s = s\<lparr>strokes := strokes s @ [stroke_of e]\<rparr>"

definition apply_entry :: "entry \<Rightarrow> state_machine \<Rightarrow> state_machine" where
  "apply_entry e s =
     (if e_index e \<le> lastApplied s then s
      else if e_type e = STROKE then
        (case (p_clientId (payload_of e), p_seq (payload_of e)) of
           (Some cid, Some sq) \<Rightarrow>
             (case map_get (dedupe s) cid of
                Some prev \<Rightarrow>
                  if d_seq prev \<ge> sq then s\<lparr>lastApplied := e_index e\<rparr>
                  else (push_stroke e (touchDedupe cid sq (e_index e) s))\<lparr>lastApplied := e_index e\<rparr>
              | None \<Rightarrow>
                  (push_stroke e (touchDedupe cid sq (e_index e) s))\<lparr>lastApplied := e_index e\<rparr>)
         | _ \<Rightarrow> (push_stroke e s)\<lparr>lastApplied := e_index e\<rparr>)
      else s\<lparr>lastApplied := e_index e\<rparr>)"

definition stroke_index :: "jobj \<Rightarrow> jval option" where
  "stroke_index st = map_get st ''index''"

definition getStrokesFrom :: "state_machine \<Rightarrow> int \<Rightarrow> jobj list" where
  "getStrokesFrom s from =
     (if from \<le> 0 then strokes s
      else filter (\<lambda>st. js_ge (stroke_index st) from) (strokes s))"

definition getSnapshot :: "state_machine \<Rightarrow> snapshot_blob" where
  "getSnapshot s = \<lparr>sn_strokes = Some (strokes s), sn_dedupe = Some (dedupe s)\<rparr>"

definition restoreSnapshot :: "snapshot_blob \<Rightarrow> int \<Rightarrow> state_machine \<Rightarrow> state_machine" where
  "restoreSnapshot snap lastIncluded s =
     s\<lparr>strokes := (case sn_strokes snap of Some xs \<Rightarrow> xs | None \<Rightarrow> []),
       dedupe := map_from_entries (case sn_dedupe snap of Some d \<Rightarrow> d | None \<Rightarrow> []),
       lastApplied := lastIncluded\<rparr>"

definition apply_log :: "entry list \<Rightarrow> state_machine \<Rightarrow> state_machine" where
  "apply_log es s = fold apply_entry es s"

subsection \<open>Frame facts\<close>

lemma touchDedupe_touch:
  "touchDedupe cid sq idx s =
     s\<lparr>dedupe := js_table.touch (dedupeMaxClients s) cid \<lparr>d_seq = sq, d_index = idx\<rparr> (dedupe s)\<rparr>"
  by (simp add: touchDedupe_def js_table.touch_def Let_def)

lemma touchDedupe_frame [sm_simps]:
  "strokes (touchDedupe cid sq idx s) = strokes s"
  "lastApplied (touchDedupe cid sq idx s) = lastApplied s"
  "dedupeMaxClients (touchDedupe cid sq idx s) = dedupeMaxClients s"
  by (simp_all add: touchDedupe_touch)

lemma push_stroke_frame [sm_simps]:
  "dedupe (push_stroke e s) = dedupe s"
  "strokes (push_stroke e s) = strokes s @ [stroke_of e]"
  "lastApplied (push_stroke e s) = lastApplied s"
  "dedupeMaxClients (push_stroke e s) = dedupeMaxClients s"
  by (simp_all add: push_stroke_def)

lemma lastApplied_apply_entry [sm_simps]:
  "lastApplied (apply_entry e s) = max (lastApplied s) (e_index e)"
  by (auto simp: apply_entry_def sm_simps split: option.splits)

lemma dedupeMaxClients_apply_entry [sm_simps]:
  "dedupeMaxClients (apply_entry e s) = dedupeMaxClients s"
  by (auto simp: apply_entry_def sm_simps split: option.splits)

lemma apply_entry_old: "e_index e \<le> lastApplied s \<Longrightarrow> apply_entry e s = s"
  by (simp add: apply_entry_def)

lemma apply_log_simps [simp]:
  "apply_log [] s = s"
  "apply_log (e # es) s = apply_log es (apply_entry e s)"
  "apply_log (es @ fs) s = apply_log fs (apply_log es s)"
  by (simp_all add: apply_log_def)

lemma lastApplied_apply_log_mono: "lastApplied s \<le> lastApplied (apply_log es s)"
proof (induction es arbitrary: s)
  case (Cons e es)
  from Cons[of "apply_entry e s"] show ?case by (simp add: sm_simps)
qed simp

lemma lastApplied_apply_log:
  "e \<in> set es \<Longrightarrow> e_index e \<le> lastApplied (apply_log es s)"
proof (induction es arbitrary: s)
  case (Cons a es)
  show ?case
  proof (cases "e = a")
    case True
    have "e_index a \<le> lastApplied (apply_entry a s)" by (simp add: sm_simps)
    also have "\<dots> \<le> lastApplied (apply_log es (apply_entry a s))"
      by (rule lastApplied_apply_log_mono)
    finally show ?thesis using True by simp
  next
    case False
    with Cons show ?thesis by simp
  qed
qed simp

lemma apply_log_old: "\<forall>e \<in> set es. e_index e \<le> lastApplied s \<Longrightarrow> apply_log es s = s"
  by (induction es) (auto simp: apply_entry_old)

subsection \<open>Well-formed states: distinct clients, bounded table\<close>

definition sm_ok :: "state_machine \<Rightarrow> bool" where
  "sm_ok s \<longleftrightarrow> distinct (map_keys (dedupe s)) \<and> int (length (dedupe s)) \<le> dedupeMaxClients s"

lemma sm_ok_touch: "sm_ok s \<Longrightarrow> sm_ok (touchDedupe cid sq idx s)"
  using js_table.touch_bound[of "dedupe s" "dedupeMaxClients s"]
  by (simp add: sm_ok_def touchDedupe_touch js_table.touch_distinct)

lemma sm_ok_cong:
  "dedupe s' = dedupe s \<Longrightarrow> dedupeMaxClients s' = dedupeMaxClients s \<Longrightarrow> sm_ok s' = sm_ok s"
  by (simp add: sm_ok_def)

lemma sm_ok_apply_entry: "sm_ok s \<Longrightarrow> sm_ok (apply_entry e s)"
  using sm_ok_touch[of s]
  by (auto simp: apply_entry_def sm_ok_def push_stroke_def split: option.splits)

lemma sm_ok_apply_log: "sm_ok s \<Longrightarrow> sm_ok (apply_log es s)"
  by (induction es arbitrary: s) (auto simp: sm_ok_apply_entry)

lemma sm_ok_new: "0 \<le> mx \<Longrightarrow> sm_ok (new_state_machine mx)"
  by (simp add: sm_ok_def new_state_machine_def)

lemma restore_getSnapshot:
  "sm_ok s \<Longrightarrow> dedupeMaxClients s0 = dedupeMaxClients s \<Longrightarrow>
   restoreSnapshot (getSnapshot s) (lastApplied s) s0 = s"
  by (simp add: restoreSnapshot_def getSnapshot_def sm_ok_def map_from_entries_distinct)

subsection \<open>The specification of deduplication\<close>

text \<open>
  \<open>ident e\<close> is the idempotency key of an entry.  \<open>fresh prior e\<close>: after the entries
  \<open>prior\<close>, the stroke \<open>e\<close> is new, that is it carries no key or its sequence number is
  larger than every one its client has used.  \<open>accepted\<close> keeps the fresh strokes of a log:
  what a table of unbounded size would let through.
\<close>

definition ident :: "entry \<Rightarrow> (string \<times> int) option" where
  "ident e =
     (if e_type e = STROKE then
        (case (p_clientId (payload_of e), p_seq (payload_of e)) of
           (Some cid, Some sq) \<Rightarrow> Some (cid, sq)
         | _ \<Rightarrow> None)
      else None)"

definition fresh :: "entry list \<Rightarrow> entry \<Rightarrow> bool" where
  "fresh prior e \<longleftrightarrow> e_type e = STROKE \<and>
     (case ident e of
        None \<Rightarrow> True
      | Some (cid, sq) \<Rightarrow>
          list_all (\<lambda>e'. case ident e' of None \<Rightarrow> True | Some (c, q) \<Rightarrow> c = cid \<longrightarrow> q < sq) prior)"

fun accepted :: "entry list \<Rightarrow> entry list \<Rightarrow> entry list" where
  "accepted prior [] = []"
| "accepted prior (e # es) =
     (if fresh prior e then e # accepted (prior @ [e]) es else accepted (prior @ [e]) es)"

definition clients :: "entry list \<Rightarrow> string set" where
  "clients es =
     set (concat (map (\<lambda>e. case ident e of None \<Rightarrow> [] | Some k \<Rightarrow> [fst k]) es))"

lemma accepted_snoc:
  "accepted prior (es @ [e]) =
   accepted prior es @ (if fresh (prior @ es) e then [e] else [])"
  by (induction es arbitrary: prior) auto

lemma mem_clients: "cid \<in> clients es \<longleftrightarrow> (\<exists>e \<in> set es. \<exists>q. ident e = Some (cid, q))"
proof -
  have "cid \<in> set (case ident e of None \<Rightarrow> [] | Some k \<Rightarrow> [fst k]) \<longleftrightarrow>
    (\<exists>q. ident e = Some (cid, q))" for e
    by (cases "ident e") auto
  then show ?thesis by (simp add: clients_def)
qed

lemma finite_clients [simp]: "finite (clients es)"
  unfolding clients_def by (rule finite_set)

lemma clients_append [simp]: "clients (es @ fs) = clients es \<union> clients fs"
  by (simp add: clients_def)

text \<open>The table after a log: each client with its largest sequence number and where it was used.\<close>

definition table_of :: "entry list \<Rightarrow> (string, dedupe_rec) jsmap \<Rightarrow> bool" where
  "table_of es m \<longleftrightarrow> distinct (map_keys m) \<and>
     (\<forall>cid. case map_get m cid of
        None \<Rightarrow> cid \<notin> clients es
      | Some d \<Rightarrow>
          (\<exists>e \<in> set es. ident e = Some (cid, d_seq d) \<and> e_index e = d_index d) \<and>
          (\<forall>e \<in> set es. \<forall>q. ident e = Some (cid, q) \<longrightarrow> q \<le> d_seq d))"

lemma table_of_None: "table_of es m \<Longrightarrow> map_get m cid = None \<Longrightarrow> cid \<notin> clients es"
  by (auto simp: table_of_def dest!: spec[of _ cid])

lemma table_of_Some:
  assumes "table_of es m" "map_get m cid = Some d"
  shows "\<exists>e \<in> set es. ident e = Some (cid, d_seq d) \<and> e_index e = d_index d"
    and "\<And>e q. e \<in> set es \<Longrightarrow> ident e = Some (cid, q) \<Longrightarrow> q \<le> d_seq d"
  using assms by (auto simp: table_of_def dest!: spec[of _ cid])

lemma table_of_keys: "table_of es m \<Longrightarrow> set (map_keys m) = clients es"
proof -
  assume t: "table_of es m"
  have "cid \<in> set (map_keys m) \<longleftrightarrow> cid \<in> clients es" for cid
  proof (cases "map_get m cid")
    case None
    with table_of_None[OF t None] show ?thesis by (simp add: map_of_eq_None_iff)
  next
    case (Some d)
    then have "cid \<in> fst ` set m" by (force dest: map_of_SomeD)
    with table_of_Some(1)[OF t Some] show ?thesis
      by (auto simp: mem_clients)
  qed
  then show ?thesis by blast
qed

lemma table_of_length: "table_of es m \<Longrightarrow> length m = card (clients es)"
  using table_of_keys[of es m] distinct_card[of "map_keys m"] by (simp add: table_of_def)

lemma table_of_touch:
  assumes t: "table_of es m" and id: "ident e = Some (cid, sq)"
    and new: "\<And>d. map_get m cid = Some d \<Longrightarrow> d_seq d < sq"
    and room: "int (card (clients (es @ [e]))) \<le> mx"
  shows "table_of (es @ [e]) (js_table.touch mx cid \<lparr>d_seq = sq, d_index = e_index e\<rparr> m)"
proof -
  let ?m = "js_table.touch mx cid \<lparr>d_seq = sq, d_index = e_index e\<rparr> m"
  have dist: "distinct (map_keys m)" using t by (simp add: table_of_def)
  have "length (filter (\<lambda>j. j \<noteq> cid) (map_keys m)) = card (clients es - {cid})"
    using distinct_card[of "filter (\<lambda>j. j \<noteq> cid) (map_keys m)"] dist table_of_keys[OF t]
    by (simp add: set_diff_eq)
  moreover have "clients (es @ [e]) = insert cid (clients es - {cid})"
    using id by (auto simp: clients_def)
  ultimately have "int (length (filter (\<lambda>j. j \<noteq> cid) (map_keys m))) < mx"
    using room by (simp add: card.insert_remove del: clients_append)
  then have get: "map_get ?m = (map_get m)(cid \<mapsto> \<lparr>d_seq = sq, d_index = e_index e\<rparr>)"
    by (rule js_table.touch_get_room)
  have old: "q \<le> sq" if "e' \<in> set es" "ident e' = Some (cid, q)" for e' q
    using table_of_None[OF t, of cid] table_of_Some(2)[OF t _ that] new that
    by (cases "map_get m cid") (fastforce simp: mem_clients)+
  have "case map_get ?m c of
        None \<Rightarrow> c \<notin> clients (es @ [e])
      | Some d \<Rightarrow>
          (\<exists>e' \<in> set (es @ [e]). ident e' = Some (c, d_seq d) \<and> e_index e' = d_index d) \<and>
          (\<forall>e' \<in> set (es @ [e]). \<forall>q. ident e' = Some (c, q) \<longrightarrow> q \<le> d_seq d)" for c
  proof (cases "c = cid")
    case True
    with get id old show ?thesis by auto
  next
    case False
    with id have "ident e \<noteq> Some (c, q)" for q by simp
    with False show ?thesis
      using get table_of_None[OF t, of c] table_of_Some[OF t, of c]
      by (auto simp: mem_clients split: option.splits)
  qed
  with dist show ?thesis by (simp add: table_of_def js_table.touch_distinct)
qed

lemma table_of_skip:
  assumes t: "table_of es m"
    and old: "\<And>cid sq. ident e = Some (cid, sq) \<Longrightarrow> \<exists>d. map_get m cid = Some d \<and> sq \<le> d_seq d"
  shows "table_of (es @ [e]) m"
proof -
  have "case map_get m c of
        None \<Rightarrow> c \<notin> clients (es @ [e])
      | Some d \<Rightarrow>
          (\<exists>e' \<in> set (es @ [e]). ident e' = Some (c, d_seq d) \<and> e_index e' = d_index d) \<and>
          (\<forall>e' \<in> set (es @ [e]). \<forall>q. ident e' = Some (c, q) \<longrightarrow> q \<le> d_seq d)" for c
    using table_of_None[OF t, of c] table_of_Some[OF t, of c] old[of c]
    by (auto simp: mem_clients split: option.splits)
  with t show ?thesis by (simp add: table_of_def)
qed

subsection \<open>Applying a log\<close>

lemma apply_entry_skip:
  assumes "lastApplied s < e_index e" "\<not> fresh es e" "table_of es (dedupe s)"
  shows "apply_entry e s = s\<lparr>lastApplied := e_index e\<rparr>"
    and "\<And>cid sq. ident e = Some (cid, sq) \<Longrightarrow> \<exists>d. map_get (dedupe s) cid = Some d \<and> sq \<le> d_seq d"
proof -
  have *: "\<exists>d. map_get (dedupe s) cid = Some d \<and> sq \<le> d_seq d"
    if id: "ident e = Some (cid, sq)" for cid sq
  proof -
    from id have "e_type e = STROKE" by (auto simp: ident_def split: if_splits)
    with assms(2) id obtain e' q where e': "e' \<in> set es" "ident e' = Some (cid, q)" "sq \<le> q"
      by (fastforce simp: fresh_def list_all_iff split: option.splits)
    then obtain d where d: "map_get (dedupe s) cid = Some d"
      using table_of_None[OF assms(3), of cid] by (auto simp: mem_clients)
    with table_of_Some(2)[OF assms(3) d e'(1,2)] e'(3) show ?thesis by force
  qed
  then show "\<And>cid sq. ident e = Some (cid, sq) \<Longrightarrow> \<exists>d. map_get (dedupe s) cid = Some d \<and> sq \<le> d_seq d" .
  show "apply_entry e s = s\<lparr>lastApplied := e_index e\<rparr>"
  proof (cases "e_type e = STROKE")
    case True
    with assms(2) obtain cid sq where id: "ident e = Some (cid, sq)"
      by (auto simp: fresh_def split: option.splits)
    with True have "p_clientId (payload_of e) = Some cid" "p_seq (payload_of e) = Some sq"
      by (auto simp: ident_def split: option.splits)
    with *[OF id] True assms(1) show ?thesis by (auto simp: apply_entry_def)
  next
    case False
    with assms(1) show ?thesis by (simp add: apply_entry_def)
  qed
qed

lemma apply_entry_fresh:
  assumes "lastApplied s < e_index e" "fresh es e" "table_of es (dedupe s)"
  shows "strokes (apply_entry e s) = strokes s @ [stroke_of e]"
    and "dedupe (apply_entry e s) = (case ident e of None \<Rightarrow> dedupe s
      | Some (cid, sq) \<Rightarrow> js_table.touch (dedupeMaxClients s) cid
          \<lparr>d_seq = sq, d_index = e_index e\<rparr> (dedupe s))"
    and "\<And>cid sq d. ident e = Some (cid, sq) \<Longrightarrow> map_get (dedupe s) cid = Some d \<Longrightarrow> d_seq d < sq"
proof -
  have ty: "e_type e = STROKE" using assms(2) by (simp add: fresh_def)
  have new: "d_seq d < sq" if id: "ident e = Some (cid, sq)" and d: "map_get (dedupe s) cid = Some d"
    for cid sq d
  proof -
    from table_of_Some(1)[OF assms(3) d] obtain e' where
      "e' \<in> set es" "ident e' = Some (cid, d_seq d)" by blast
    with assms(2) id show ?thesis by (fastforce simp: fresh_def list_all_iff)
  qed
  then show "\<And>cid sq d. ident e = Some (cid, sq) \<Longrightarrow> map_get (dedupe s) cid = Some d \<Longrightarrow> d_seq d < sq" .
  show "strokes (apply_entry e s) = strokes s @ [stroke_of e]"
    using ty assms(1) new
    by (fastforce simp: apply_entry_def sm_simps ident_def split: option.splits)
  show "dedupe (apply_entry e s) = (case ident e of None \<Rightarrow> dedupe s
      | Some (cid, sq) \<Rightarrow> js_table.touch (dedupeMaxClients s) cid
          \<lparr>d_seq = sq, d_index = e_index e\<rparr> (dedupe s))"
    using ty assms(1) new
    by (fastforce simp: apply_entry_def sm_simps ident_def touchDedupe_touch split: option.splits)
qed

lemma apply_log_dedupe:
  assumes "sorted_wrt (<) (map e_index es)" "\<forall>e \<in> set es. 0 \<le> e_index e"
    and "int (card (clients es)) \<le> mx"
  shows "strokes (apply_log es (new_state_machine mx)) = map stroke_of (accepted [] es)
       \<and> table_of es (dedupe (apply_log es (new_state_machine mx)))
       \<and> dedupeMaxClients (apply_log es (new_state_machine mx)) = mx
       \<and> lastApplied (apply_log es (new_state_machine mx)) = (if es = [] then -1 else e_index (last es))"
  using assms
proof (induction es rule: rev_induct)
  case Nil
  then show ?case by (simp add: new_state_machine_def table_of_def mem_clients)
next
  case (snoc e es)
  let ?s = "apply_log es (new_state_machine mx)"
  have "int (card (clients es)) \<le> int (card (clients (es @ [e])))"
    by (simp add: card_mono)
  with snoc.prems(3) have "int (card (clients es)) \<le> mx" by linarith
  with snoc have IH: "strokes ?s = map stroke_of (accepted [] es)" "table_of es (dedupe ?s)"
      "dedupeMaxClients ?s = mx" "lastApplied ?s = (if es = [] then -1 else e_index (last es))"
    by (simp_all add: sorted_wrt_append)
  have la: "lastApplied ?s < e_index e"
    using snoc.prems(1,2) IH(4) by (simp add: sorted_wrt_append)
  show ?case
  proof (cases "fresh es e")
    case False
    note sk = apply_entry_skip[OF la False IH(2)]
    with IH show ?thesis by (simp add: accepted_snoc False table_of_skip)
  next
    case True
    note fr = apply_entry_fresh[OF la True IH(2)]
    have "table_of (es @ [e]) (dedupe (apply_entry e ?s))"
    proof (cases "ident e")
      case None
      with fr(2) table_of_skip[OF IH(2), of e] show ?thesis by simp
    next
      case (Some k)
      then obtain cid sq where id: "ident e = Some (cid, sq)" by (cases k) auto
      with fr(2) table_of_touch[OF IH(2) id fr(3)[OF id] snoc.prems(3)] IH(3)
      show ?thesis by simp
    qed
    with IH fr(1) la show ?thesis by (simp add: accepted_snoc True sm_simps)
  qed
qed

text \<open>No key is accepted twice, and every accepted entry is one of the log.\<close>

lemma accepted_subset: "set (accepted prior es) \<subseteq> set es"
  by (induction prior es rule: accepted.induct) auto

lemma accepted_fresh: "e \<in> set (accepted prior es) \<Longrightarrow> fresh prior e"
proof (induction prior es rule: accepted.induct)
  case (2 prior a es)
  have "fresh (prior @ [a]) e \<Longrightarrow> fresh prior e" by (auto simp: fresh_def split: option.splits)
  with 2 show ?case by (auto split: if_splits)
qed simp

lemma accepted_once:
  "distinct (map ident (filter (\<lambda>e. ident e \<noteq> None) (accepted prior es)))"
proof (induction prior es rule: accepted.induct)
  case (2 prior a es)
  have "ident e \<noteq> ident a" if "e \<in> set (accepted (prior @ [a]) es)" "ident e \<noteq> None" for e
    using accepted_fresh[OF that(1)] that(2) by (auto simp: fresh_def)
  with 2 show ?case by (fastforce split: if_splits)
qed simp

lemma filter_dropped:
  assumes "ident e' = Some (cid, sq')" "map_get (dedupe s) cid = Some d" "sq' \<le> d_seq d"
    and "lastApplied s < e_index e'"
  shows "apply_entry e' s = s\<lparr>lastApplied := e_index e'\<rparr>"
  using assms by (auto simp: apply_entry_def ident_def split: if_splits option.splits)

lemma dedupe_after_apply:
  assumes "1 \<le> dedupeMaxClients s" "lastApplied s < e_index e" "ident e = Some (cid, sq)"
  shows "\<exists>d. map_get (dedupe (apply_entry e s)) cid = Some d \<and> sq \<le> d_seq d"
proof -
  have same: "map_get (dedupe (touchDedupe cid sq (e_index e) s)) cid =
      Some \<lparr>d_seq = sq, d_index = e_index e\<rparr>"
    using js_table.touch_get_same[OF assms(1), where k = cid] by (simp add: touchDedupe_touch)
  have e: "e_type e = STROKE" "p_clientId (payload_of e) = Some cid" "p_seq (payload_of e) = Some sq"
    using assms(3) by (auto simp: ident_def split: if_splits option.splits)
  show ?thesis
  proof (cases "map_get (dedupe s) cid")
    case None
    with e assms(2) same show ?thesis by (simp add: apply_entry_def sm_simps)
  next
    case (Some d)
    with e assms(2) same show ?thesis by (simp add: apply_entry_def sm_simps)
  qed
qed

text \<open>Small logs that the witnesses apply.\<close>

definition stroke_entry :: "int \<Rightarrow> int \<Rightarrow> string \<Rightarrow> int \<Rightarrow> jobj \<Rightarrow> entry" where
  "stroke_entry i t cid sq fs =
     \<lparr>e_index = i, e_term = t, e_type = STROKE,
      e_payload = Some \<lparr>p_clientId = Some cid, p_seq = Some sq, p_fields = fs\<rparr>\<rparr>"

lemma stroke_entry_simps [simp]:
  "e_index (stroke_entry i t c q fs) = i"
  "e_term (stroke_entry i t c q fs) = t"
  "e_type (stroke_entry i t c q fs) = STROKE"
  "ident (stroke_entry i t c q fs) = Some (c, q)"
  "stroke_of (stroke_entry i t c q fs) = obj_spread [(''index'', JInt i)] fs"
  by (simp_all add: stroke_entry_def ident_def payload_of_def stroke_of_def)

definition demo_log :: "entry list" where
  "demo_log = [stroke_entry 0 1 ''a'' 1 [], stroke_entry 1 1 ''b'' 1 [],
     stroke_entry 2 1 ''a'' 1 [], stroke_entry 3 2 ''a'' 2 []]"

lemma demo_log_facts:
  "sorted_wrt (<) (map e_index demo_log)"
  "\<forall>e \<in> set demo_log. 0 \<le> e_index e"
  "clients demo_log = {''a'', ''b''}"
  by (auto simp: demo_log_def clients_def)

subsection \<open>Properties\<close>

text \<open>
  C14: exactly-once application.  As long as the log has at most \<open>dedupeMaxClients\<close> clients,
  the strokes on the canvas after applying it are, in order, those of the entries that are fresh
  in the log (new key or no key), and no key occurs twice among them: a retried stroke that was
  appended again, by any leader, is drawn once.
\<close>

theorem dedupe_exactly_once:
  assumes "sorted_wrt (<) (map e_index es)" "\<forall>e \<in> set es. 0 \<le> e_index e"
    and "int (card (clients es)) \<le> mx"
  shows "strokes (apply_log es (new_state_machine mx)) = map stroke_of (accepted [] es)
       \<and> distinct (map ident (filter (\<lambda>e. ident e \<noteq> None) (accepted [] es)))"
  using apply_log_dedupe[OF assms] accepted_once by blast

theorem dedupe_exactly_once_witness:
  "strokes (apply_log demo_log (new_state_machine 2)) =
     [[(''index'', JInt 0)], [(''index'', JInt 1)], [(''index'', JInt 3)]]"
proof -
  have "int (card (clients demo_log)) \<le> 2" by (simp add: demo_log_facts(3))
  from dedupe_exactly_once[OF demo_log_facts(1,2) this] show ?thesis
    by (simp add: demo_log_def fresh_def obj_spread_def)
qed

text \<open>
  The leader's fast path is right about retries.  With at most \<open>dedupeMaxClients\<close> clients,
  \<open>getDedupeIndex\<close> answers for \<open>(clientId, seq)\<close> exactly when the applied log has an entry
  of that client with a sequence number at least \<open>seq\<close>, and its answer is the index of such
  an entry.
\<close>

theorem getDedupeIndex_correct:
  assumes "sorted_wrt (<) (map e_index es)" "\<forall>e \<in> set es. 0 \<le> e_index e"
    and "int (card (clients es)) \<le> mx"
  shows "(case getDedupeIndex (apply_log es (new_state_machine mx)) cid sq of
            None \<Rightarrow> \<not> (\<exists>e q. e \<in> set es \<and> ident e = Some (cid, q) \<and> sq \<le> q)
          | Some i \<Rightarrow> \<exists>e q. e \<in> set es \<and> ident e = Some (cid, q) \<and> sq \<le> q \<and> e_index e = i)"
proof -
  let ?s = "apply_log es (new_state_machine mx)"
  from apply_log_dedupe[OF assms] have t: "table_of es (dedupe ?s)" by blast
  show ?thesis
  proof (cases "map_get (dedupe ?s) cid")
    case None
    with table_of_None[OF t None] show ?thesis
      by (auto simp: getDedupeIndex_def mem_clients)
  next
    case (Some d)
    with table_of_Some[OF t Some] show ?thesis
      by (fastforce simp: getDedupeIndex_def)
  qed
qed

theorem getDedupeIndex_correct_witness:
  "(case getDedupeIndex (apply_log demo_log (new_state_machine 2)) ''a'' 1 of
      None \<Rightarrow> \<not> (\<exists>e q. e \<in> set demo_log \<and> ident e = Some (''a'', q) \<and> 1 \<le> q)
    | Some i \<Rightarrow> \<exists>e q. e \<in> set demo_log \<and> ident e = Some (''a'', q) \<and> 1 \<le> q \<and> e_index e = i)"
  by (rule getDedupeIndex_correct[OF demo_log_facts(1,2)]) (simp add: demo_log_facts(3))

text \<open>
  An applied key stays applied.  After an entry with key \<open>(clientId, seq)\<close> has been
  processed, a later entry of the same client with the same or a smaller sequence number changes
  nothing but \<open>lastApplied\<close>, and the leader's fast path reports it as committed.  This covers
  the retry, and also a stroke of the client that was never applied and whose smaller number
  arrived late: it is dropped and still reported as committed.
\<close>

theorem retry_changes_nothing:
  assumes "1 \<le> dedupeMaxClients s" "lastApplied s < e_index e" "ident e = Some (cid, sq)"
    and "e_index e < e_index e'" "ident e' = Some (cid, sq')" "sq' \<le> sq"
  shows "apply_entry e' (apply_entry e s) = (apply_entry e s)\<lparr>lastApplied := e_index e'\<rparr>
       \<and> getDedupeIndex (apply_entry e s) cid sq' \<noteq> None"
proof -
  obtain d where d: "map_get (dedupe (apply_entry e s)) cid = Some d" "sq \<le> d_seq d"
    using dedupe_after_apply[OF assms(1-3)] by blast
  with filter_dropped[OF assms(5) d(1)] assms(2,4,6) show ?thesis
    by (auto simp: sm_simps getDedupeIndex_def)
qed

theorem retry_changes_nothing_witness:
  "strokes (apply_entry (stroke_entry 1 1 ''a'' 1 [(''x1'', JInt 7)])
      (apply_entry (stroke_entry 0 1 ''a'' 2 []) (new_state_machine 10))) =
     [[(''index'', JInt 0)]] \<and>
   getDedupeIndex (apply_entry (stroke_entry 0 1 ''a'' 2 []) (new_state_machine 10)) ''a'' 1 \<noteq> None"
proof -
  have "apply_entry (stroke_entry 1 1 ''a'' 1 [(''x1'', JInt 7)])
          (apply_entry (stroke_entry 0 1 ''a'' 2 []) (new_state_machine 10)) =
        (apply_entry (stroke_entry 0 1 ''a'' 2 []) (new_state_machine 10))\<lparr>lastApplied := 1\<rparr>
      \<and> getDedupeIndex (apply_entry (stroke_entry 0 1 ''a'' 2 []) (new_state_machine 10)) ''a'' 1 \<noteq> None"
    using retry_changes_nothing[of "new_state_machine 10" "stroke_entry 0 1 ''a'' 2 []" "''a''" 2
      "stroke_entry 1 1 ''a'' 1 [(''x1'', JInt 7)]" 1]
    by (simp add: new_state_machine_def)
  then show ?thesis
    by (simp add: apply_entry_def new_state_machine_def stroke_entry_def payload_of_def
        push_stroke_def stroke_of_def obj_spread_def touchDedupe_def Let_def)
qed

text \<open>
  Replay is harmless.  Applying a log again from any earlier point of it, as recovery does,
  gives the state that applying it once gives.
\<close>

theorem apply_log_replay: "apply_log es (apply_log (take k es) s) = apply_log es s"
proof -
  have "apply_log (take k es) (apply_log (take k es) s) = apply_log (take k es) s"
    by (rule apply_log_old) (auto simp: lastApplied_apply_log)
  then show ?thesis by (metis apply_log_simps(3) append_take_drop_id)
qed

text \<open>
  C22: snapshots lose nothing.  A replica that restores the snapshot taken after a prefix of the
  log and applies the rest ends in the same state, strokes and deduplication table included, as one
  that applied the whole log.
\<close>

theorem snapshot_then_suffix:
  assumes "0 \<le> mx"
  shows "apply_log suf (restoreSnapshot (getSnapshot (apply_log pre (new_state_machine mx)))
           (lastApplied (apply_log pre (new_state_machine mx))) (new_state_machine mx))
       = apply_log (pre @ suf) (new_state_machine mx)"
proof -
  have "dedupeMaxClients (apply_log pre s) = dedupeMaxClients s" for s
    by (induction pre arbitrary: s) (simp_all add: sm_simps)
  then have "restoreSnapshot (getSnapshot (apply_log pre (new_state_machine mx)))
      (lastApplied (apply_log pre (new_state_machine mx))) (new_state_machine mx) =
      apply_log pre (new_state_machine mx)"
    by (intro restore_getSnapshot sm_ok_apply_log sm_ok_new assms) simp
  then show ?thesis by simp
qed

theorem snapshot_then_suffix_witness:
  "apply_log [stroke_entry 2 1 ''a'' 1 []]
     (restoreSnapshot (getSnapshot (apply_log (take 2 demo_log) (new_state_machine 5)))
        (lastApplied (apply_log (take 2 demo_log) (new_state_machine 5))) (new_state_machine 5))
   = apply_log (take 2 demo_log @ [stroke_entry 2 1 ''a'' 1 []]) (new_state_machine 5)"
  by (rule snapshot_then_suffix) simp

text \<open>
  The deduplication table is bounded: whatever is applied, it keeps one record per client
  and never more than \<open>dedupeMaxClients\<close> of them.
\<close>

theorem dedupe_table_bounded:
  assumes "0 \<le> mx"
  shows "distinct (map_keys (dedupe (apply_log es (new_state_machine mx))))
       \<and> int (length (dedupe (apply_log es (new_state_machine mx)))) \<le> mx"
proof -
  have "dedupeMaxClients (apply_log es s) = dedupeMaxClients s" for s
    by (induction es arbitrary: s) (simp_all add: sm_simps)
  with sm_ok_apply_log[OF sm_ok_new[OF assms], of es] show ?thesis
    by (simp add: sm_ok_def new_state_machine_def)
qed

theorem dedupe_table_bounded_witness:
  "int (length (dedupe (apply_log demo_log (new_state_machine 1)))) \<le> 1"
  using dedupe_table_bounded[of 1 demo_log] by simp

text \<open>
  The index of a stroke can be overwritten by its sender.  A stroke is stored as
  \<open>{ index: entry.index, ...canvasFields }\<close>, so a payload with a property named \<open>index\<close>
  decides the index under which history queries see the stroke; without one, it is the log index.
\<close>

theorem stroke_index_of_payload:
  "stroke_index (stroke_of e) =
     (case map_get (rev (p_fields (payload_of e))) ''index'' of
        Some v \<Rightarrow> Some v
      | None \<Rightarrow> Some (JInt (e_index e)))"
  by (simp add: stroke_index_def stroke_of_def map_get_spread split: option.splits)

end
