(* ===== verification/Persistence.thy ===== *)
theory Persistence imports State_Machine begin

text \<open>
  The durable store (\<open>replicas/raft/Persistence.js\<close>): one \<open>raft_meta\<close> row, the
  \<open>log_entries\<close> table and the \<open>snapshots\<close> table of a SQLite database.  A table is the list
  of its rows in primary-key order, so the \<open>ORDER BY\<close> queries read off its ends.  A payload or
  state column holds the JSON text of a value; the model keeps the value.  \<open>Date.now()\<close> is the
  argument \<open>now\<close> of \<open>saveSnapshot\<close>; \<open>AUTOINCREMENT\<close> ids come from the counter
  \<open>snap_autoinc\<close>.
\<close>

record snapshot_row =
  s_id :: int
  s_index :: int
  s_term :: int
  s_blob :: snapshot_blob
  s_created :: int

record db =
  current_term :: int
  voted_for :: "string option"
  last_snapshot_index :: int
  last_snapshot_term :: int
  log_entries :: "entry list"
  snapshots :: "snapshot_row list"
  snap_autoinc :: int

text \<open>A fresh file: the schema's defaults and the row that the constructor inserts.\<close>

definition fresh_db :: db where
  "fresh_db = \<lparr>current_term = 0, voted_for = None, last_snapshot_index = -1,
     last_snapshot_term = -1, log_entries = [], snapshots = [], snap_autoinc = 0\<rparr>"

definition open_db :: "db option \<Rightarrow> db" where
  "open_db file = (case file of None \<Rightarrow> fresh_db | Some d \<Rightarrow> d)"

record meta =
  m_currentTerm :: int
  m_votedFor :: "string option"
  m_lastSnapshotIndex :: int
  m_lastSnapshotTerm :: int

definition loadMeta :: "db \<Rightarrow> meta" where
  "loadMeta d = \<lparr>m_currentTerm = current_term d, m_votedFor = voted_for d,
     m_lastSnapshotIndex = last_snapshot_index d, m_lastSnapshotTerm = last_snapshot_term d\<rparr>"

definition saveTermAndVote :: "int \<Rightarrow> string option \<Rightarrow> db \<Rightarrow> db" where
  "saveTermAndVote t v d = d\<lparr>current_term := t, voted_for := v\<rparr>"

definition saveSnapshotMeta :: "int \<Rightarrow> int \<Rightarrow> db \<Rightarrow> db" where
  "saveSnapshotMeta i t d = d\<lparr>last_snapshot_index := i, last_snapshot_term := t\<rparr>"

definition lastIndex :: "db \<Rightarrow> int" where
  "lastIndex d = (if log_entries d \<noteq> [] then e_index (last (log_entries d))
                  else last_snapshot_index d)"

definition lastTerm :: "db \<Rightarrow> int" where
  "lastTerm d = (if log_entries d \<noteq> [] then e_term (last (log_entries d))
                 else last_snapshot_term d)"

definition firstIndex :: "db \<Rightarrow> int" where
  "firstIndex d = (if log_entries d \<noteq> [] then e_index (hd (log_entries d))
                   else last_snapshot_index d + 1)"

definition count_entries :: "db \<Rightarrow> int" where
  "count_entries d = int (length (log_entries d))"

definition getEntry :: "db \<Rightarrow> int \<Rightarrow> entry option" where
  "getEntry d i = find (\<lambda>e. e_index e = i) (log_entries d)"

definition getRange :: "db \<Rightarrow> int \<Rightarrow> int \<Rightarrow> entry list" where
  "getRange d a b =
     (if a > b then [] else filter (\<lambda>e. a \<le> e_index e \<and> e_index e \<le> b) (log_entries d))"

text \<open>\<open>INSERT OR REPLACE\<close> into the table kept in key order.\<close>

fun replace_row :: "entry \<Rightarrow> entry list \<Rightarrow> entry list" where
  "replace_row e [] = [e]"
| "replace_row e (r # rs) =
     (if e_index e < e_index r then e # r # rs
      else if e_index e = e_index r then e # rs
      else r # replace_row e rs)"

definition appendEntries :: "entry list \<Rightarrow> db \<Rightarrow> db" where
  "appendEntries es d =
     (if es = [] then d else d\<lparr>log_entries := fold replace_row es (log_entries d)\<rparr>)"

definition truncateFrom :: "int \<Rightarrow> db \<Rightarrow> db" where
  "truncateFrom i d = d\<lparr>log_entries := filter (\<lambda>e. \<not> e_index e \<ge> i) (log_entries d)\<rparr>"

definition truncateUpTo :: "int \<Rightarrow> db \<Rightarrow> db" where
  "truncateUpTo i d = d\<lparr>log_entries := filter (\<lambda>e. \<not> e_index e \<le> i) (log_entries d)\<rparr>"

definition truncateAll :: "db \<Rightarrow> db" where
  "truncateAll d = d\<lparr>log_entries := []\<rparr>"

definition saveSnapshot :: "int \<Rightarrow> int \<Rightarrow> snapshot_blob \<Rightarrow> int \<Rightarrow> db \<Rightarrow> db" where
  "saveSnapshot i t blob now d =
     (let rid = snap_autoinc d + 1;
          rows = snapshots d @ [\<lparr>s_id = rid, s_index = i, s_term = t, s_blob = blob, s_created = now\<rparr>];
          d1 = d\<lparr>snapshots := rows, snap_autoinc := rid\<rparr>;
          d2 = saveSnapshotMeta i t d1
      in d2\<lparr>snapshots := filter (\<lambda>r. \<not> s_id r < rid) (snapshots d2)\<rparr>)"

definition loadLatestSnapshot :: "db \<Rightarrow> snapshot_row option" where
  "loadLatestSnapshot d = (if snapshots d = [] then None else Some (last (snapshots d)))"

subsection \<open>An interface: a log addressed by index\<close>

text \<open>
  What the consensus core relies on: reading an entry by index, writing a batch, and cutting the
  log above or below an index.  \<open>merge\<close> is the follower's update: find the first entry of the
  batch that the log does not hold with the same term, cut the log there and write the rest.
\<close>

locale indexed_log =
  fixes get :: "'s \<Rightarrow> int \<Rightarrow> entry option"
    and put_all :: "entry list \<Rightarrow> 's \<Rightarrow> 's"
    and cut_from :: "int \<Rightarrow> 's \<Rightarrow> 's"
    and cut_upto :: "int \<Rightarrow> 's \<Rightarrow> 's"
  assumes get_index: "get s i = Some e \<Longrightarrow> e_index e = i"
    and get_put_all: "get (put_all es s) i =
      (case find (\<lambda>e. e_index e = i) (rev es) of Some e \<Rightarrow> Some e | None \<Rightarrow> get s i)"
    and get_cut_from: "get (cut_from n s) i = (if i < n then get s i else None)"
    and get_cut_upto: "get (cut_upto n s) i = (if n < i then get s i else None)"
begin

definition holds :: "'s \<Rightarrow> entry \<Rightarrow> bool" where
  "holds s e \<longleftrightarrow> (\<exists>x. get s (e_index e) = Some x \<and> e_term x = e_term e)"

definition merge :: "entry list \<Rightarrow> 's \<Rightarrow> 's" where
  "merge es s =
     (case find (\<lambda>e. \<not> holds s e) es of
        None \<Rightarrow> s
      | Some e0 \<Rightarrow> put_all (filter (\<lambda>e. e_index e \<ge> e_index e0) es) (cut_from (e_index e0) s))"

lemma merge_keep: "\<forall>e \<in> set es. holds s e \<Longrightarrow> merge es s = s"
  by (simp add: merge_def find_None_iff[THEN iffD2])

lemma merge_split:
  assumes asc: "sorted_wrt (<) (map e_index es)" and f: "find (\<lambda>e. \<not> holds s e) es = Some e0"
  obtains ys zs where "es = ys @ e0 # zs" "\<forall>y \<in> set ys. holds s y \<and> e_index y < e_index e0"
    "\<forall>z \<in> set zs. e_index e0 < e_index z"
    "filter (\<lambda>e. e_index e \<ge> e_index e0) es = e0 # zs"
proof -
  from f obtain ys zs where es: "es = ys @ e0 # zs" "\<forall>y \<in> set ys. holds s y"
    by (auto simp: find_split)
  with asc have lt: "\<forall>y \<in> set ys. e_index y < e_index e0" "\<forall>z \<in> set zs. e_index e0 < e_index z"
    by (auto simp: sorted_wrt_append)
  then have "filter (\<lambda>e. e_index e \<ge> e_index e0) ys = []"
    by (auto simp: filter_empty_conv)
  moreover have "filter (\<lambda>e. e_index e \<ge> e_index e0) zs = zs"
    using lt(2) by (auto simp: filter_id_conv)
  ultimately have "filter (\<lambda>e. e_index e \<ge> e_index e0) es = e0 # zs" using es by simp
  with es lt that show ?thesis by blast
qed

lemma get_merge:
  assumes asc: "sorted_wrt (<) (map e_index es)" and f: "find (\<lambda>e. \<not> holds s e) es = Some e0"
  shows "get (merge es s) i =
    (if i < e_index e0 then get s i else find (\<lambda>e. e_index e = i) es)"
proof -
  obtain ys zs where es: "es = ys @ e0 # zs" "\<forall>y \<in> set ys. holds s y \<and> e_index y < e_index e0"
    "\<forall>z \<in> set zs. e_index e0 < e_index z"
    and flt: "filter (\<lambda>e. e_index e \<ge> e_index e0) es = e0 # zs"
    by (rule merge_split[OF asc f])
  have dist: "distinct (map e_index (e0 # zs))"
    using asc es(1) sorted_wrt_less_distinct by (fastforce simp: sorted_wrt_append)
  have r: "find (\<lambda>e. e_index e = i) (rev (e0 # zs)) = find (\<lambda>e. e_index e = i) (e0 # zs)"
    using dist by (rule find_rev_distinct)
  have m: "get (merge es s) i =
      (case find (\<lambda>e. e_index e = i) (e0 # zs) of Some e \<Rightarrow> Some e
       | None \<Rightarrow> if i < e_index e0 then get s i else None)"
    unfolding merge_def f flt option.case get_put_all r get_cut_from ..
  show ?thesis
  proof (cases "i < e_index e0")
    case True
    with es(3) have "find (\<lambda>e. e_index e = i) (e0 # zs) = None"
      by (auto simp: find_None_iff)
    with True m show ?thesis by simp
  next
    case False
    with es(2) have "find (\<lambda>e. e_index e = i) ys = None" by (auto simp: find_None_iff)
    then have "find (\<lambda>e. e_index e = i) es = find (\<lambda>e. e_index e = i) (e0 # zs)"
      unfolding es(1) by (induction ys) (auto split: if_splits)
    with False m show ?thesis by (simp split: option.splits)
  qed
qed

lemma merge_below:
  assumes "sorted_wrt (<) (map e_index es)" "\<forall>e \<in> set es. i < e_index e"
  shows "get (merge es s) i = get s i"
proof (cases "find (\<lambda>e. \<not> holds s e) es")
  case None
  then show ?thesis by (simp add: merge_def)
next
  case (Some e0)
  then have "e0 \<in> set es" by (auto simp: find_split)
  with assms(2) get_merge[OF assms(1) Some, of i] show ?thesis by simp
qed

lemma merge_holds:
  assumes asc: "sorted_wrt (<) (map e_index es)" and e: "e \<in> set es"
  shows "holds (merge es s) e"
proof (cases "find (\<lambda>e. \<not> holds s e) es")
  case None
  with e have "holds s e" by (auto simp: find_None_iff)
  with None show ?thesis by (simp add: merge_def)
next
  case (Some e0)
  show ?thesis
  proof (cases "e_index e < e_index e0")
    case True
    obtain ys zs where "es = ys @ e0 # zs" "\<forall>y \<in> set ys. holds s y \<and> e_index y < e_index e0"
      "\<forall>z \<in> set zs. e_index e0 < e_index z"
      by (rule merge_split[OF asc Some])
    with True e have "holds s e" by auto
    with True get_merge[OF asc Some] show ?thesis by (simp add: holds_def)
  next
    case False
    have "find (\<lambda>x. e_index x = e_index e) es = Some e"
      using e asc by (simp add: find_Some_iff_mem sorted_wrt_less_distinct)
    with False get_merge[OF asc Some] show ?thesis by (simp add: holds_def)
  qed
qed

lemma merge_idem:
  "sorted_wrt (<) (map e_index es) \<Longrightarrow> merge es (merge es s) = merge es s"
  by (rule merge_keep) (simp add: merge_holds)

text \<open>Every entry of the merged log was in the old log or in the batch.\<close>

lemma merge_source:
  assumes "sorted_wrt (<) (map e_index es)" "get (merge es s) i = Some e"
  shows "get s i = Some e \<or> e \<in> set es"
proof (cases "find (\<lambda>e. \<not> holds s e) es")
  case None
  with assms(2) show ?thesis by (simp add: merge_def)
next
  case (Some e0)
  from assms(2) show ?thesis
    unfolding get_merge[OF assms(1) Some]
    by (auto simp: find_split split: if_splits)
qed

end

lemma find_replace_row:
  "find (\<lambda>x. e_index x = i) (replace_row e rs) =
     (if e_index e = i then Some e else find (\<lambda>x. e_index x = i) rs)"
  by (induction e rs rule: replace_row.induct) auto

lemma find_fold_replace_row:
  "find (\<lambda>x. e_index x = i) (fold replace_row es rs) =
     (case find (\<lambda>e. e_index e = i) (rev es) of
        Some e \<Rightarrow> Some e | None \<Rightarrow> find (\<lambda>x. e_index x = i) rs)"
proof (induction es rule: rev_induct)
  case (snoc e es)
  then show ?case by (simp add: find_replace_row)
qed simp

interpretation plog: indexed_log getEntry appendEntries truncateFrom truncateUpTo
proof
  show "e_index e = i" if "getEntry s i = Some e" for s i e
    using that by (auto simp: getEntry_def find_split)
  show "getEntry (appendEntries es s) i =
      (case find (\<lambda>e. e_index e = i) (rev es) of Some e \<Rightarrow> Some e | None \<Rightarrow> getEntry s i)"
    for es s i
    by (cases "es = []")
      (simp_all add: getEntry_def appendEntries_def find_fold_replace_row split: option.splits)
  show "getEntry (truncateFrom n s) i = (if i < n then getEntry s i else None)" for n s i
    by (simp add: getEntry_def truncateFrom_def find_filter_key[where P = "\<lambda>j. \<not> n \<le> j"])
  show "getEntry (truncateUpTo n s) i = (if n < i then getEntry s i else None)" for n s i
    by (simp add: getEntry_def truncateUpTo_def find_filter_key[where P = "\<lambda>j. \<not> j \<le> n"])
qed

subsection \<open>Well-formed files\<close>

text \<open>
  Log rows are in strictly ascending index order (the primary key); snapshot ids ascend and stay
  below the counter; the meta row's snapshot position is that of the latest snapshot row.
\<close>

definition log_sorted :: "db \<Rightarrow> bool" where
  "log_sorted d \<longleftrightarrow> sorted_wrt (<) (map e_index (log_entries d))"

definition snap_ok :: "db \<Rightarrow> bool" where
  "snap_ok d \<longleftrightarrow> (\<forall>r \<in> set (snapshots d). s_id r \<le> snap_autoinc d) \<and>
     (if snapshots d = [] then last_snapshot_index d = -1 \<and> last_snapshot_term d = -1
      else s_index (last (snapshots d)) = last_snapshot_index d
         \<and> s_term (last (snapshots d)) = last_snapshot_term d)"

definition db_ok :: "db \<Rightarrow> bool" where
  "db_ok d \<longleftrightarrow> log_sorted d \<and> snap_ok d"

lemma set_replace_row:
  "set (replace_row e rs) \<subseteq> insert e (set rs)" "e \<in> set (replace_row e rs)"
  by (induction e rs rule: replace_row.induct) auto

lemma sorted_replace_row:
  "sorted_wrt (<) (map e_index rs) \<Longrightarrow> sorted_wrt (<) (map e_index (replace_row e rs))"
proof (induction e rs rule: replace_row.induct)
  case (2 e r rs)
  then show ?case using set_replace_row(1)[of e rs] by (auto split: if_splits)
qed simp

lemma sorted_fold_replace_row:
  "sorted_wrt (<) (map e_index rs) \<Longrightarrow> sorted_wrt (<) (map e_index (fold replace_row es rs))"
  by (induction es arbitrary: rs) (auto simp: sorted_replace_row)

lemma log_sorted_ops [intro]:
  "log_sorted d \<Longrightarrow> log_sorted (appendEntries es d)"
  "log_sorted d \<Longrightarrow> log_sorted (truncateFrom i d)"
  "log_sorted d \<Longrightarrow> log_sorted (truncateUpTo i d)"
  "log_sorted (truncateAll d)"
  "log_sorted d \<Longrightarrow> log_sorted (saveTermAndVote t v d)"
  "log_sorted d \<Longrightarrow> log_sorted (saveSnapshot i t b now d)"
  by (simp_all add: log_sorted_def appendEntries_def sorted_fold_replace_row truncateFrom_def
      truncateUpTo_def truncateAll_def saveTermAndVote_def saveSnapshot_def saveSnapshotMeta_def
      sorted_wrt_filter_key Let_def)

lemma snap_ok_ops [intro]:
  "snap_ok d \<Longrightarrow> snap_ok (appendEntries es d)"
  "snap_ok d \<Longrightarrow> snap_ok (truncateFrom i d)"
  "snap_ok d \<Longrightarrow> snap_ok (truncateUpTo i d)"
  "snap_ok d \<Longrightarrow> snap_ok (truncateAll d)"
  "snap_ok d \<Longrightarrow> snap_ok (saveTermAndVote t v d)"
  "snap_ok (saveSnapshot i t b now d)" if "snap_ok d"
  using that
  by (auto simp: snap_ok_def appendEntries_def truncateFrom_def truncateUpTo_def truncateAll_def
      saveTermAndVote_def saveSnapshot_def saveSnapshotMeta_def Let_def)

lemma db_ok_ops [intro]:
  "db_ok d \<Longrightarrow> db_ok (appendEntries es d)"
  "db_ok d \<Longrightarrow> db_ok (truncateFrom i d)"
  "db_ok d \<Longrightarrow> db_ok (truncateUpTo i d)"
  "db_ok d \<Longrightarrow> db_ok (truncateAll d)"
  "db_ok d \<Longrightarrow> db_ok (saveTermAndVote t v d)"
  "db_ok d \<Longrightarrow> db_ok (saveSnapshot i t b now d)"
  by (auto simp: db_ok_def)

lemma db_ok_fresh: "db_ok fresh_db"
  by (simp add: db_ok_def log_sorted_def snap_ok_def fresh_db_def)

lemma filter_old_ids:
  "\<forall>r \<in> set rows. s_id r \<le> n \<Longrightarrow> filter (\<lambda>r. \<not> s_id r < n + 1) rows = []"
  by (auto simp: filter_empty_conv)

lemma saveSnapshot_single:
  "snap_ok d \<Longrightarrow> snapshots (saveSnapshot i t b now d) =
     [\<lparr>s_id = snap_autoinc d + 1, s_index = i, s_term = t, s_blob = b, s_created = now\<rparr>]"
  by (simp add: snap_ok_def saveSnapshot_def saveSnapshotMeta_def Let_def filter_old_ids)

lemma saveSnapshot_latest:
  "loadLatestSnapshot (saveSnapshot i t b now d) =
     Some \<lparr>s_id = snap_autoinc d + 1, s_index = i, s_term = t, s_blob = b, s_created = now\<rparr>"
  by (simp add: loadLatestSnapshot_def saveSnapshot_def saveSnapshotMeta_def Let_def)

lemma db_frame [db_simps]:
  "current_term (appendEntries es d) = current_term d"
  "voted_for (appendEntries es d) = voted_for d"
  "last_snapshot_index (appendEntries es d) = last_snapshot_index d"
  "last_snapshot_term (appendEntries es d) = last_snapshot_term d"
  "snapshots (appendEntries es d) = snapshots d"
  "current_term (truncateFrom i d) = current_term d"
  "voted_for (truncateFrom i d) = voted_for d"
  "last_snapshot_index (truncateFrom i d) = last_snapshot_index d"
  "last_snapshot_term (truncateFrom i d) = last_snapshot_term d"
  "snapshots (truncateFrom i d) = snapshots d"
  "current_term (truncateUpTo i d) = current_term d"
  "voted_for (truncateUpTo i d) = voted_for d"
  "last_snapshot_index (truncateUpTo i d) = last_snapshot_index d"
  "last_snapshot_term (truncateUpTo i d) = last_snapshot_term d"
  "snapshots (truncateUpTo i d) = snapshots d"
  "current_term (truncateAll d) = current_term d"
  "voted_for (truncateAll d) = voted_for d"
  "last_snapshot_index (truncateAll d) = last_snapshot_index d"
  "last_snapshot_term (truncateAll d) = last_snapshot_term d"
  "log_entries (truncateAll d) = []"
  "current_term (saveTermAndVote t v d) = t"
  "voted_for (saveTermAndVote t v d) = v"
  "last_snapshot_index (saveTermAndVote t v d) = last_snapshot_index d"
  "last_snapshot_term (saveTermAndVote t v d) = last_snapshot_term d"
  "snapshots (saveTermAndVote t v d) = snapshots d"
  "log_entries (saveTermAndVote t v d) = log_entries d"
  "current_term (saveSnapshot i t2 b now d) = current_term d"
  "voted_for (saveSnapshot i t2 b now d) = voted_for d"
  "last_snapshot_index (saveSnapshot i t2 b now d) = i"
  "last_snapshot_term (saveSnapshot i t2 b now d) = t2"
  "log_entries (saveSnapshot i t2 b now d) = log_entries d"
  by (simp_all add: appendEntries_def truncateFrom_def truncateUpTo_def truncateAll_def
      saveTermAndVote_def saveSnapshot_def saveSnapshotMeta_def Let_def)

lemma getEntry_frame [db_simps]:
  "getEntry (saveTermAndVote t v d) i = getEntry d i"
  "getEntry (saveSnapshot j t2 b now d) i = getEntry d i"
  "getEntry (truncateAll d) i = None"
  by (simp_all add: getEntry_def db_simps)

lemma position_frame [db_simps]:
  "lastIndex (saveTermAndVote t v d) = lastIndex d"
  "lastTerm (saveTermAndVote t v d) = lastTerm d"
  "firstIndex (saveTermAndVote t v d) = firstIndex d"
  by (simp_all add: lastIndex_def lastTerm_def firstIndex_def db_simps)

lemma getEntry_iff:
  "log_sorted d \<Longrightarrow> getEntry d i = Some e \<longleftrightarrow> e \<in> set (log_entries d) \<and> e_index e = i"
  by (simp add: getEntry_def log_sorted_def find_Some_iff_mem sorted_wrt_less_distinct)

lemma getEntry_mem: "getEntry d i = Some e \<Longrightarrow> e \<in> set (log_entries d) \<and> e_index e = i"
  by (auto simp: getEntry_def find_split)

lemma getEntry_None: "getEntry d i = None \<longleftrightarrow> (\<forall>e \<in> set (log_entries d). e_index e \<noteq> i)"
  by (auto simp: getEntry_def find_None_iff)

lemma entry_bounds:
  assumes "log_sorted d" "e \<in> set (log_entries d)"
  shows "firstIndex d \<le> e_index e" "e_index e \<le> lastIndex d"
  using assms sorted_wrt_last_max[of e_index "log_entries d" e]
    sorted_wrt_hd_min[of e_index "log_entries d" e]
  by (auto simp: log_sorted_def lastIndex_def firstIndex_def)

lemma log_entries_append_last:
  assumes "log_sorted d" "lastIndex d < e_index e"
  shows "log_entries (appendEntries [e] d) = log_entries d @ [e]"
proof -
  have "replace_row e rs = rs @ [e]" if "\<forall>r \<in> set rs. e_index r < e_index e" for rs
    using that by (induction rs) auto
  moreover have "\<forall>r \<in> set (log_entries d). e_index r < e_index e"
    using entry_bounds(2)[OF assms(1)] assms(2) by fastforce
  ultimately show ?thesis by (simp add: appendEntries_def)
qed

lemma sorted_mem_eqI:
  assumes "sorted_wrt (<) (map (f :: 'a \<Rightarrow> int) xs)" "sorted_wrt (<) (map f ys)" "set xs = set ys"
  shows "xs = ys"
proof -
  have "map f xs = map f ys"
    by (rule strict_sorted_equal) (use assms in auto)
  moreover have "inj_on f (set xs \<union> set ys)"
    using sorted_wrt_less_distinct[OF assms(1)] assms(3) by (simp add: distinct_map)
  ultimately show ?thesis using map_inj_on by blast
qed

lemma getRange_Cons:
  assumes "log_sorted d" "getEntry d a = Some e" "a \<le> b"
  shows "getRange d a b = e # getRange d (a + 1) b"
proof (rule sorted_mem_eqI[where f = e_index])
  have e: "e \<in> set (log_entries d)" "e_index e = a" using assms(2) by (auto dest: getEntry_mem)
  have uniq: "x = e" if "x \<in> set (log_entries d)" "e_index x = a" for x
  proof -
    from that assms(1) have "getEntry d a = Some x" by (simp add: getEntry_iff)
    with assms(2) show ?thesis by simp
  qed
  show "sorted_wrt (<) (map e_index (getRange d a b))"
    using assms(1) by (auto simp: getRange_def log_sorted_def sorted_wrt_filter_key)
  show "sorted_wrt (<) (map e_index (e # getRange d (a + 1) b))"
    using assms(1) e by (auto simp: getRange_def log_sorted_def sorted_wrt_filter_key)
  show "set (getRange d a b) = set (e # getRange d (a + 1) b)"
  proof (rule set_eqI)
    fix x
    show "x \<in> set (getRange d a b) \<longleftrightarrow> x \<in> set (e # getRange d (a + 1) b)"
      using e assms(3) uniq[of x] by (cases "e_index x = a") (auto simp: getRange_def)
  qed
qed

lemma getRange_empty: "b < a \<Longrightarrow> getRange d a b = []"
  by (simp add: getRange_def)

text \<open>Compaction at an index the log holds: what \<open>_maybeSnapshot\<close> does to the store.\<close>

lemma compact_log:
  "log_entries (truncateUpTo i (saveSnapshot i t b now d)) =
     filter (\<lambda>e. i < e_index e) (log_entries d)"
  by (simp add: truncateUpTo_def db_simps not_le)

lemma last_filter_greater:
  assumes "sorted_wrt (<) (map (f :: 'a \<Rightarrow> int) xs)" "filter (\<lambda>x. i < f x) xs \<noteq> []"
  shows "last (filter (\<lambda>x. i < f x) xs) = last xs"
proof (cases xs rule: rev_cases)
  case (snoc ys y)
  obtain x where "x \<in> set xs" "i < f x"
    using assms(2) by (auto simp: filter_empty_conv)
  with sorted_wrt_last_max[OF assms(1)] snoc have "i < f y" by fastforce
  with snoc show ?thesis by simp
qed (use assms in simp)

lemma compact_positions:
  assumes "log_sorted d" "getEntry d i = Some e" "t = e_term e"
  shows "lastIndex (truncateUpTo i (saveSnapshot i t b now d)) = lastIndex d"
    and "lastTerm (truncateUpTo i (saveSnapshot i t b now d)) = lastTerm d"
    and "firstIndex (truncateUpTo i (saveSnapshot i t b now d)) > i"
proof -
  let ?d = "truncateUpTo i (saveSnapshot i t b now d)"
  from assms(2) have e: "e \<in> set (log_entries d)" "e_index e = i" by (auto dest: getEntry_mem)
  have srt: "sorted_wrt (<) (map e_index (log_entries d))" using assms(1) by (simp add: log_sorted_def)
  have "lastIndex ?d = lastIndex d \<and> lastTerm ?d = lastTerm d"
  proof (cases "log_entries ?d = []")
    case False
    then have "last (log_entries ?d) = last (log_entries d)"
      unfolding compact_log by (rule last_filter_greater[OF srt])
    with False e(1) show ?thesis by (auto simp: lastIndex_def lastTerm_def)
  next
    case True
    then have "\<forall>x \<in> set (log_entries d). e_index x \<le> i"
      unfolding compact_log by (simp add: filter_empty_conv not_less)
    moreover have "last (log_entries d) \<in> set (log_entries d)" using e(1) by (cases "log_entries d") auto
    ultimately have "e_index (last (log_entries d)) = i"
      using sorted_wrt_last_max[OF srt e(1)] e(2) by (simp add: order_antisym)
    with \<open>last (log_entries d) \<in> set (log_entries d)\<close> e srt have "last (log_entries d) = e"
      using sorted_wrt_less_distinct[OF srt] by (metis distinct_map inj_onD)
    with True e assms(3) show ?thesis
      by (auto simp: lastIndex_def lastTerm_def db_simps)
  qed
  then show "lastIndex ?d = lastIndex d" "lastTerm ?d = lastTerm d" by simp_all
  show "firstIndex ?d > i"
  proof (cases "log_entries ?d = []")
    case False
    then have "hd (log_entries ?d) \<in> set (log_entries ?d)" by simp
    with False show ?thesis by (simp add: firstIndex_def compact_log)
  qed (simp add: firstIndex_def db_simps)
qed

subsection \<open>Sequences of operations\<close>

datatype db_op =
    SaveTermAndVote int "string option"
  | AppendEntriesOp "entry list"
  | TruncateFrom int
  | TruncateUpTo int
  | TruncateAll
  | SaveSnapshotMeta int int
  | SaveSnapshot int int snapshot_blob int
  | Reopen

fun db_step :: "db \<Rightarrow> db_op \<Rightarrow> db" where
  "db_step d (SaveTermAndVote t v) = saveTermAndVote t v d"
| "db_step d (AppendEntriesOp es) = appendEntries es d"
| "db_step d (TruncateFrom i) = truncateFrom i d"
| "db_step d (TruncateUpTo i) = truncateUpTo i d"
| "db_step d TruncateAll = truncateAll d"
| "db_step d (SaveSnapshotMeta i t) = saveSnapshotMeta i t d"
| "db_step d (SaveSnapshot i t b now) = saveSnapshot i t b now d"
| "db_step d Reopen = open_db (Some d)"

lemma db_ok_step: "db_ok d \<Longrightarrow> (\<forall>i t. op \<noteq> SaveSnapshotMeta i t) \<Longrightarrow> db_ok (db_step d op)"
  by (cases op) (auto simp: open_db_def)

lemma db_ok_run: "db_ok d \<Longrightarrow> (\<forall>i t. SaveSnapshotMeta i t \<notin> set ops) \<Longrightarrow> db_ok (foldl db_step d ops)"
proof (induction ops arbitrary: d)
  case (Cons op ops)
  then have "db_ok (db_step d op)" by (intro db_ok_step) auto
  with Cons show ?case by simp
qed simp

text \<open>What every operation keeps, whatever the meta row says.\<close>

definition rows_ok :: "db \<Rightarrow> bool" where
  "rows_ok d \<longleftrightarrow> log_sorted d \<and> (\<forall>r \<in> set (snapshots d). s_id r \<le> snap_autoinc d) \<and> length (snapshots d) \<le> 1"

lemma rows_ok_step:
  assumes "rows_ok d"
  shows "rows_ok (db_step d op)"
proof -
  have "log_sorted (db_step d op)"
    using assms by (cases op) (auto simp: rows_ok_def open_db_def, simp add: log_sorted_def saveSnapshotMeta_def)
  moreover have "(\<forall>r \<in> set (snapshots (db_step d op)). s_id r \<le> snap_autoinc (db_step d op)) \<and> length (snapshots (db_step d op)) \<le> 1"
    using assms by (cases op) (auto simp: rows_ok_def open_db_def appendEntries_def truncateFrom_def truncateUpTo_def
      truncateAll_def saveTermAndVote_def saveSnapshot_def saveSnapshotMeta_def Let_def filter_old_ids)
  ultimately show ?thesis by (simp add: rows_ok_def)
qed

lemma rows_ok_run: "rows_ok d \<Longrightarrow> rows_ok (foldl db_step d ops)"
  by (induction ops arbitrary: d) (simp_all add: rows_ok_step)

subsection \<open>Properties\<close>

text \<open>
  C19: the log table is a map from indices to entries.  Writing a batch overrides the map with
  the batch (a later element of the batch wins) and removes nothing, truncation restricts the map
  below, respectively above, the given index.
\<close>

theorem log_table_refines_map:
  "getEntry (appendEntries es d) = getEntry d ++ map_of (rev (map (\<lambda>e. (e_index e, e)) es))
 \<and> getEntry (truncateFrom n d) = getEntry d |` {..<n}
 \<and> getEntry (truncateUpTo n d) = getEntry d |` {n<..}"
proof (intro conjI ext)
  fix i
  have m: "map_of (map (\<lambda>e. (e_index e, e)) xs) i = find (\<lambda>e. e_index e = i) xs" for xs
    by (induction xs) auto
  show "getEntry (appendEntries es d) i =
      (getEntry d ++ map_of (rev (map (\<lambda>e. (e_index e, e)) es))) i"
    by (simp add: plog.get_put_all map_add_def rev_map m)
  show "getEntry (truncateFrom n d) i = (getEntry d |` {..<n}) i"
    by (simp add: plog.get_cut_from restrict_map_def)
  show "getEntry (truncateUpTo n d) i = (getEntry d |` {n<..}) i"
    by (simp add: plog.get_cut_upto restrict_map_def)
qed

text \<open>
  C23: a file stays well formed. After any sequence of the store's operations and reopenings, the log rows
  have strictly ascending indices, at most one snapshot is kept, and every entry lies between
  \<open>firstIndex\<close> and \<open>lastIndex\<close>. As long as the meta row is written through
  \<open>saveSnapshot\<close> only, which is all the program does (\<open>saveSnapshotMeta\<close> has no caller of its own), it
  names the index and the term of the snapshot that is loaded, and \<open>-1\<close> twice when there is none.
\<close>

theorem store_well_formed:
  defines "run ops \<equiv> foldl db_step fresh_db ops"
  shows "sorted_wrt (<) (map e_index (log_entries (run ops))) \<and> length (snapshots (run ops)) \<le> 1 \<and>
    e_index ` set (log_entries (run ops)) \<subseteq> {firstIndex (run ops) .. lastIndex (run ops)} \<and>
    ((\<forall>i t. SaveSnapshotMeta i t \<notin> set ops) \<longrightarrow>
       (last_snapshot_index (run ops), last_snapshot_term (run ops)) =
         (case loadLatestSnapshot (run ops) of Some r \<Rightarrow> (s_index r, s_term r) | None \<Rightarrow> (-1, -1)))"
proof (intro conjI impI)
  have rows: "rows_ok (run ops)"
    unfolding run_def by (rule rows_ok_run) (simp add: rows_ok_def log_sorted_def fresh_db_def)
  then have log: "log_sorted (run ops)" by (simp add: rows_ok_def)
  then show "sorted_wrt (<) (map e_index (log_entries (run ops)))" by (simp add: log_sorted_def)
  show "length (snapshots (run ops)) \<le> 1" using rows by (simp add: rows_ok_def)
  show "e_index ` set (log_entries (run ops)) \<subseteq> {firstIndex (run ops) .. lastIndex (run ops)}"
    using entry_bounds[OF log] by auto
  assume "\<forall>i t. SaveSnapshotMeta i t \<notin> set ops"
  then have "snap_ok (run ops)" using db_ok_run[OF db_ok_fresh] by (simp add: db_ok_def run_def)
  then show "(last_snapshot_index (run ops), last_snapshot_term (run ops)) =
      (case loadLatestSnapshot (run ops) of Some r \<Rightarrow> (s_index r, s_term r) | None \<Rightarrow> (-1, -1))"
    by (auto simp: snap_ok_def loadLatestSnapshot_def split: if_splits)
qed

theorem store_well_formed_witness:
  "let d = foldl db_step fresh_db [AppendEntriesOp demo_log, SaveSnapshot 1 1 (getSnapshot (new_state_machine 5)) 7, TruncateUpTo 1] in
     (last_snapshot_index d, last_snapshot_term d) = (1, 1) \<and> map_option s_index (loadLatestSnapshot d) = Some 1"
proof -
  let ?ops = "[AppendEntriesOp demo_log, SaveSnapshot 1 1 (getSnapshot (new_state_machine 5)) 7, TruncateUpTo 1]"
  have s: "map_option (\<lambda>r. (s_index r, s_term r)) (loadLatestSnapshot (foldl db_step fresh_db ?ops)) = Some (1, 1)"
    by (simp add: loadLatestSnapshot_def saveSnapshot_def saveSnapshotMeta_def truncateUpTo_def Let_def appendEntries_def
        demo_log_def fresh_db_def)
  have "(last_snapshot_index (foldl db_step fresh_db ?ops), last_snapshot_term (foldl db_step fresh_db ?ops)) =
      (case loadLatestSnapshot (foldl db_step fresh_db ?ops) of Some r \<Rightarrow> (s_index r, s_term r) | None \<Rightarrow> (-1, -1))"
    using store_well_formed[of ?ops] by simp
  with s show ?thesis by (auto simp: Let_def split: option.splits)
qed

text \<open>
  Compaction keeps the log's position.  Saving a snapshot at an entry the log holds and
  deleting the entries up to it leaves \<open>lastIndex\<close>, \<open>lastTerm\<close> and every later entry as they
  were, moves \<open>firstIndex\<close> past the snapshot, and makes the snapshot the one that is loaded.
\<close>

theorem compaction_keeps_position:
  assumes "log_sorted d" "getEntry d i = Some e"
  shows "let d' = truncateUpTo i (saveSnapshot i (e_term e) blob now d) in
     lastIndex d' = lastIndex d \<and> lastTerm d' = lastTerm d \<and> i < firstIndex d' \<and>
     getEntry d' = getEntry d |` {i<..} \<and>
     map_option (\<lambda>r. (s_index r, s_term r, s_blob r)) (loadLatestSnapshot d') = Some (i, e_term e, blob)"
proof -
  have "loadLatestSnapshot (truncateUpTo i x) = loadLatestSnapshot x" for x
    by (simp add: loadLatestSnapshot_def db_simps)
  then show ?thesis
    using compact_positions[OF assms refl]
    by (auto simp: Let_def saveSnapshot_latest fun_eq_iff plog.get_cut_upto db_simps restrict_map_def)
qed

definition demo_db :: db where
  "demo_db = appendEntries demo_log fresh_db"

theorem compaction_keeps_position_witness:
  "lastIndex (truncateUpTo 2 (saveSnapshot 2 1 (getSnapshot (new_state_machine 3)) 0 demo_db)) = 3"
proof -
  have s: "log_sorted demo_db"
    unfolding demo_db_def by (rule log_sorted_ops(1)) (simp add: log_sorted_def fresh_db_def)
  have e: "getEntry demo_db 2 = Some (stroke_entry 2 1 ''a'' 1 [])" and l: "lastIndex demo_db = 3"
    by (simp_all add: demo_db_def demo_log_def fresh_db_def appendEntries_def getEntry_def lastIndex_def)
  show ?thesis
    using compaction_keeps_position[OF s e, of "getSnapshot (new_state_machine 3)" 0] l
    by (simp add: Let_def)
qed

text \<open>
  \<open>getRange\<close> returns exactly the entries held between the two indices, inclusive, in
  ascending order.
\<close>

theorem getRange_correct:
  assumes "log_sorted d"
  shows "sorted_wrt (<) (map e_index (getRange d a b))
       \<and> set (getRange d a b) = {e. \<exists>i. a \<le> i \<and> i \<le> b \<and> getEntry d i = Some e}"
  using assms
  by (auto simp: getRange_def getEntry_iff log_sorted_def sorted_wrt_filter_key)

theorem getRange_correct_witness:
  "set (getRange demo_db 1 2) = {e. \<exists>i. 1 \<le> i \<and> i \<le> 2 \<and> getEntry demo_db i = Some e}"
proof -
  have "log_sorted demo_db"
    unfolding demo_db_def by (rule log_sorted_ops(1)) (simp add: log_sorted_def fresh_db_def)
  from getRange_correct[OF this] show ?thesis by blast
qed

end
