(* ===== verification/Raft_State.thy ===== *)
theory Raft_State imports Persistence begin

text \<open>
  The state of a Raft node (\<open>replicas/raft/RaftNode.js\<close>) and the operations that every
  other part of it is built from: start and stop, role transitions, timers, the local append, the
  application of committed entries and the taking of snapshots.

  Beside the fields of the class the record holds what the handlers read from and hand to their
  surroundings: \<open>now\<close> is \<open>Date.now()\<close>, \<open>rnd\<close> is \<open>Math.random()\<close> in units of
  \<open>2^-53\<close>, \<open>emitted\<close> collects the \<open>emit\<close> calls and \<open>outbox\<close> the calls made to
  the transport, both in order.  A timer is \<open>Some\<close> of its delay while armed.  Log lines are left
  out.
\<close>

record config =
  heartbeatMs :: int
  electionMinMs :: int
  electionMaxMs :: int
  rpcTimeoutMs :: int
  readIndexTimeoutMs :: int
  snapshotThreshold :: int
  installSnapshotTimeoutMs :: int

definition default_config :: config where
  "default_config = \<lparr>heartbeatMs = 150, electionMinMs = 500, electionMaxMs = 800,
     rpcTimeoutMs = 300, readIndexTimeoutMs = 500, snapshotThreshold = 100,
     installSnapshotTimeoutMs = 2000\<rparr>"

subsection \<open>Calls between nodes\<close>

record request_vote =
  rv_term :: int
  rv_candidateId :: string
  rv_lastLogIndex :: int
  rv_lastLogTerm :: int

record vote_reply =
  vr_term :: int
  vr_granted :: bool

record append_entries =
  ae_term :: int
  ae_leaderId :: string
  ae_prevLogIndex :: int
  ae_prevLogTerm :: int
  ae_entries :: "entry list"
  ae_leaderCommit :: int

record append_reply =
  ar_term :: int
  ar_success :: bool
  ar_logLength :: "int option"

record install_snapshot =
  is_term :: int
  is_leaderId :: string
  is_lastIncludedIndex :: int
  is_lastIncludedTerm :: int
  is_data :: snapshot_blob

text \<open>
  A call by its purpose: an election, the replication of the log, a snapshot transfer, or the
  leadership check of a read, which uses the replication endpoint with an answer handled apart.
\<close>

datatype call =
    VoteCall request_vote
  | AppendCall append_entries
  | SnapshotCall install_snapshot
  | ReadCall append_entries

datatype node_event =
    RoleEv role
  | CommitEv int
  | AppliedEv entry

record node =
  replicaId :: string
  peers :: "string list"
  config :: config
  db :: db
  sm :: state_machine
  role :: role
  leaderId :: "string option"
  commitIndex :: int
  currentTerm :: int
  votedFor :: "string option"
  nextIndex :: "(string, int) jsmap"
  matchIndex :: "(string, int) jsmap"
  electionTimer :: "int option"
  heartbeatTimer :: "int option"
  stopped :: bool
  restartCount :: int
  startedAt :: int
  snapshotCount :: int
  now :: int
  rnd :: int
  emitted :: "node_event list"
  outbox :: "(string \<times> call) list"

definition new_node ::
  "string \<Rightarrow> string list \<Rightarrow> config \<Rightarrow> db \<Rightarrow> state_machine \<Rightarrow> int \<Rightarrow> int \<Rightarrow> node" where
  "new_node rid ps cfg d s t r =
     \<lparr>replicaId = rid, peers = ps, config = cfg, db = d, sm = s,
      role = FOLLOWER, leaderId = None, commitIndex = -1, currentTerm = 0, votedFor = None,
      nextIndex = [], matchIndex = [], electionTimer = None, heartbeatTimer = None,
      stopped = False, restartCount = 0, startedAt = t, snapshotCount = 0,
      now = t, rnd = r, emitted = [], outbox = []\<rparr>"

definition emit :: "node_event \<Rightarrow> node \<Rightarrow> node" where
  "emit ev n = n\<lparr>emitted := emitted n @ [ev]\<rparr>"

definition send :: "string \<Rightarrow> call \<Rightarrow> node \<Rightarrow> node" where
  "send p c n = n\<lparr>outbox := outbox n @ [(p, c)]\<rparr>"

definition broadcast :: "call \<Rightarrow> node \<Rightarrow> node" where
  "broadcast c n = fold (\<lambda>p. send p c) (peers n) n"

definition majority :: "node \<Rightarrow> int" where
  "majority n = (int (length (peers n)) + 1) div 2 + 1"

subsection \<open>Timers\<close>

definition clearElectionTimer :: "node \<Rightarrow> node" where
  "clearElectionTimer n = n\<lparr>electionTimer := None\<rparr>"

definition clearHeartbeatTimer :: "node \<Rightarrow> node" where
  "clearHeartbeatTimer n = n\<lparr>heartbeatTimer := None\<rparr>"

definition election_delay :: "config \<Rightarrow> int \<Rightarrow> int" where
  "election_delay cfg r =
     electionMinMs cfg + r * (electionMaxMs cfg - electionMinMs cfg) div 2 ^ 53"

definition resetElectionTimer :: "node \<Rightarrow> node" where
  "resetElectionTimer n =
     (clearElectionTimer n)\<lparr>electionTimer := Some (election_delay (config n) (rnd n))\<rparr>"

subsection \<open>Lifecycle and role transitions\<close>

definition becomeFollower :: "int \<Rightarrow> string option \<Rightarrow> node \<Rightarrow> node" where
  "becomeFollower t leader n =
     (let n1 = (clearHeartbeatTimer n)\<lparr>role := FOLLOWER\<rparr>;
          n2 = (if t > currentTerm n1
                then n1\<lparr>currentTerm := t, votedFor := None, db := saveTermAndVote t None (db n1)\<rparr>
                else n1);
          n3 = (case leader of
                  Some l \<Rightarrow> if l \<noteq> [] then n2\<lparr>leaderId := Some l\<rparr> else n2
                | None \<Rightarrow> n2)
      in emit (RoleEv FOLLOWER) (resetElectionTimer n3))"

definition becomeCandidate :: "node \<Rightarrow> node" where
  "becomeCandidate n =
     (let t = currentTerm n + 1;
          n1 = n\<lparr>role := CANDIDATE, currentTerm := t, votedFor := Some (replicaId n),
                 db := saveTermAndVote t (Some (replicaId n)) (db n), leaderId := None\<rparr>
      in emit (RoleEv CANDIDATE) n1)"

definition start :: "node \<Rightarrow> node" where
  "start n =
     (let m = loadMeta (db n);
          n1 = n\<lparr>currentTerm := m_currentTerm m, votedFor := m_votedFor m\<rparr>;
          n2 = (case loadLatestSnapshot (db n1) of
                  Some r \<Rightarrow> n1\<lparr>sm := restoreSnapshot (s_blob r) (s_index r) (sm n1),
                              commitIndex := s_index r\<rparr>
                | None \<Rightarrow> n1);
          n3 = n2\<lparr>restartCount := restartCount n2 + 1\<rparr>
      in becomeFollower (currentTerm n3) None n3)"

definition stop :: "node \<Rightarrow> node" where
  "stop n = clearHeartbeatTimer (clearElectionTimer (n\<lparr>stopped := True\<rparr>))"

definition appendLocal :: "entry_type \<Rightarrow> payload option \<Rightarrow> node \<Rightarrow> node \<times> entry" where
  "appendLocal ty p n =
     (let e = \<lparr>e_index = lastIndex (db n) + 1, e_term = currentTerm n, e_type = ty, e_payload = p\<rparr>
      in (n\<lparr>db := appendEntries [e] (db n)\<rparr>, e))"

subsection \<open>Applying committed entries\<close>

definition maybeSnapshot :: "node \<Rightarrow> node" where
  "maybeSnapshot n =
     (let m = loadMeta (db n);
          sinceSnap = lastApplied (sm n) - m_lastSnapshotIndex m
      in if sinceSnap < snapshotThreshold (config n) then n
         else if lastApplied (sm n) < 0 then n
         else (case getEntry (db n) (lastApplied (sm n)) of
                 None \<Rightarrow> n
               | Some e \<Rightarrow>
                   n\<lparr>db := truncateUpTo (lastApplied (sm n))
                             (saveSnapshot (lastApplied (sm n)) (e_term e) (getSnapshot (sm n))
                                (now n) (db n)),
                     snapshotCount := snapshotCount n + 1\<rparr>))"

text \<open>The \<open>while\<close> loop of \<open>_applyCommitted\<close>; it ends since each round raises \<open>lastApplied\<close>.\<close>

function apply_loop :: "node \<Rightarrow> node" where
  "apply_loop n =
     (if lastApplied (sm n) < commitIndex n then
        (case getEntry (db n) (lastApplied (sm n) + 1) of
           None \<Rightarrow> n
         | Some e \<Rightarrow> apply_loop (emit (AppliedEv e) (n\<lparr>sm := apply_entry e (sm n)\<rparr>)))
      else n)"
  by pat_completeness auto
termination
proof (relation "measure (\<lambda>n. nat (commitIndex n - lastApplied (sm n)))")
  fix n :: node and e
  assume "lastApplied (sm n) < commitIndex n" "getEntry (db n) (lastApplied (sm n) + 1) = Some e"
  moreover from this(2) have "e_index e = lastApplied (sm n) + 1" by (rule plog.get_index)
  ultimately show "(emit (AppliedEv e) (n\<lparr>sm := apply_entry e (sm n)\<rparr>), n)
      \<in> measure (\<lambda>n. nat (commitIndex n - lastApplied (sm n)))"
    by (simp add: emit_def sm_simps)
qed simp

declare apply_loop.simps [simp del]

definition applyCommitted :: "node \<Rightarrow> node" where
  "applyCommitted n = maybeSnapshot (apply_loop n)"

subsection \<open>Frame facts\<close>

lemma frame_emit [node_frame]:
  "replicaId (emit ev n) = replicaId n"
  "peers (emit ev n) = peers n"
  "config (emit ev n) = config n"
  "db (emit ev n) = db n"
  "sm (emit ev n) = sm n"
  "role (emit ev n) = role n"
  "leaderId (emit ev n) = leaderId n"
  "commitIndex (emit ev n) = commitIndex n"
  "currentTerm (emit ev n) = currentTerm n"
  "votedFor (emit ev n) = votedFor n"
  "nextIndex (emit ev n) = nextIndex n"
  "matchIndex (emit ev n) = matchIndex n"
  "electionTimer (emit ev n) = electionTimer n"
  "heartbeatTimer (emit ev n) = heartbeatTimer n"
  "stopped (emit ev n) = stopped n"
  "restartCount (emit ev n) = restartCount n"
  "startedAt (emit ev n) = startedAt n"
  "snapshotCount (emit ev n) = snapshotCount n"
  "now (emit ev n) = now n"
  "rnd (emit ev n) = rnd n"
  "outbox (emit ev n) = outbox n"
  by (simp_all add: emit_def)

lemma frame_send [node_frame]:
  "replicaId (send p c n) = replicaId n"
  "peers (send p c n) = peers n"
  "config (send p c n) = config n"
  "db (send p c n) = db n"
  "sm (send p c n) = sm n"
  "role (send p c n) = role n"
  "leaderId (send p c n) = leaderId n"
  "commitIndex (send p c n) = commitIndex n"
  "currentTerm (send p c n) = currentTerm n"
  "votedFor (send p c n) = votedFor n"
  "nextIndex (send p c n) = nextIndex n"
  "matchIndex (send p c n) = matchIndex n"
  "electionTimer (send p c n) = electionTimer n"
  "heartbeatTimer (send p c n) = heartbeatTimer n"
  "stopped (send p c n) = stopped n"
  "restartCount (send p c n) = restartCount n"
  "startedAt (send p c n) = startedAt n"
  "snapshotCount (send p c n) = snapshotCount n"
  "now (send p c n) = now n"
  "rnd (send p c n) = rnd n"
  "emitted (send p c n) = emitted n"
  by (simp_all add: send_def)

lemma broadcast_eq:
  "broadcast c n = n\<lparr>outbox := outbox n @ map (\<lambda>p. (p, c)) (peers n)\<rparr>"
proof -
  have "fold (\<lambda>p. send p c) ps m = m\<lparr>outbox := outbox m @ map (\<lambda>p. (p, c)) ps\<rparr>" for ps m
    by (induction ps arbitrary: m) (simp_all add: send_def)
  then show ?thesis by (simp add: broadcast_def)
qed

lemma frame_broadcast [node_frame]:
  "replicaId (broadcast c n) = replicaId n"
  "peers (broadcast c n) = peers n"
  "config (broadcast c n) = config n"
  "db (broadcast c n) = db n"
  "sm (broadcast c n) = sm n"
  "role (broadcast c n) = role n"
  "leaderId (broadcast c n) = leaderId n"
  "commitIndex (broadcast c n) = commitIndex n"
  "currentTerm (broadcast c n) = currentTerm n"
  "votedFor (broadcast c n) = votedFor n"
  "nextIndex (broadcast c n) = nextIndex n"
  "matchIndex (broadcast c n) = matchIndex n"
  "electionTimer (broadcast c n) = electionTimer n"
  "heartbeatTimer (broadcast c n) = heartbeatTimer n"
  "stopped (broadcast c n) = stopped n"
  "restartCount (broadcast c n) = restartCount n"
  "startedAt (broadcast c n) = startedAt n"
  "snapshotCount (broadcast c n) = snapshotCount n"
  "now (broadcast c n) = now n"
  "rnd (broadcast c n) = rnd n"
  "emitted (broadcast c n) = emitted n"
  by (simp_all add: broadcast_eq)

lemma frame_resetElectionTimer [node_frame]:
  "replicaId (resetElectionTimer n) = replicaId n"
  "peers (resetElectionTimer n) = peers n"
  "config (resetElectionTimer n) = config n"
  "db (resetElectionTimer n) = db n"
  "sm (resetElectionTimer n) = sm n"
  "role (resetElectionTimer n) = role n"
  "leaderId (resetElectionTimer n) = leaderId n"
  "commitIndex (resetElectionTimer n) = commitIndex n"
  "currentTerm (resetElectionTimer n) = currentTerm n"
  "votedFor (resetElectionTimer n) = votedFor n"
  "nextIndex (resetElectionTimer n) = nextIndex n"
  "matchIndex (resetElectionTimer n) = matchIndex n"
  "heartbeatTimer (resetElectionTimer n) = heartbeatTimer n"
  "stopped (resetElectionTimer n) = stopped n"
  "restartCount (resetElectionTimer n) = restartCount n"
  "startedAt (resetElectionTimer n) = startedAt n"
  "snapshotCount (resetElectionTimer n) = snapshotCount n"
  "now (resetElectionTimer n) = now n"
  "rnd (resetElectionTimer n) = rnd n"
  "emitted (resetElectionTimer n) = emitted n"
  "outbox (resetElectionTimer n) = outbox n"
  by (simp_all add: resetElectionTimer_def clearElectionTimer_def)

lemma frame_clearElectionTimer [node_frame]:
  "replicaId (clearElectionTimer n) = replicaId n"
  "peers (clearElectionTimer n) = peers n"
  "config (clearElectionTimer n) = config n"
  "db (clearElectionTimer n) = db n"
  "sm (clearElectionTimer n) = sm n"
  "role (clearElectionTimer n) = role n"
  "leaderId (clearElectionTimer n) = leaderId n"
  "commitIndex (clearElectionTimer n) = commitIndex n"
  "currentTerm (clearElectionTimer n) = currentTerm n"
  "votedFor (clearElectionTimer n) = votedFor n"
  "nextIndex (clearElectionTimer n) = nextIndex n"
  "matchIndex (clearElectionTimer n) = matchIndex n"
  "heartbeatTimer (clearElectionTimer n) = heartbeatTimer n"
  "stopped (clearElectionTimer n) = stopped n"
  "restartCount (clearElectionTimer n) = restartCount n"
  "startedAt (clearElectionTimer n) = startedAt n"
  "snapshotCount (clearElectionTimer n) = snapshotCount n"
  "now (clearElectionTimer n) = now n"
  "rnd (clearElectionTimer n) = rnd n"
  "emitted (clearElectionTimer n) = emitted n"
  "outbox (clearElectionTimer n) = outbox n"
  by (simp_all add: clearElectionTimer_def)

lemma frame_clearHeartbeatTimer [node_frame]:
  "replicaId (clearHeartbeatTimer n) = replicaId n"
  "peers (clearHeartbeatTimer n) = peers n"
  "config (clearHeartbeatTimer n) = config n"
  "db (clearHeartbeatTimer n) = db n"
  "sm (clearHeartbeatTimer n) = sm n"
  "role (clearHeartbeatTimer n) = role n"
  "leaderId (clearHeartbeatTimer n) = leaderId n"
  "commitIndex (clearHeartbeatTimer n) = commitIndex n"
  "currentTerm (clearHeartbeatTimer n) = currentTerm n"
  "votedFor (clearHeartbeatTimer n) = votedFor n"
  "nextIndex (clearHeartbeatTimer n) = nextIndex n"
  "matchIndex (clearHeartbeatTimer n) = matchIndex n"
  "electionTimer (clearHeartbeatTimer n) = electionTimer n"
  "stopped (clearHeartbeatTimer n) = stopped n"
  "restartCount (clearHeartbeatTimer n) = restartCount n"
  "startedAt (clearHeartbeatTimer n) = startedAt n"
  "snapshotCount (clearHeartbeatTimer n) = snapshotCount n"
  "now (clearHeartbeatTimer n) = now n"
  "rnd (clearHeartbeatTimer n) = rnd n"
  "emitted (clearHeartbeatTimer n) = emitted n"
  "outbox (clearHeartbeatTimer n) = outbox n"
  by (simp_all add: clearHeartbeatTimer_def)

lemma frame_becomeFollower [node_frame]:
  "replicaId (becomeFollower t l n) = replicaId n"
  "peers (becomeFollower t l n) = peers n"
  "config (becomeFollower t l n) = config n"
  "sm (becomeFollower t l n) = sm n"
  "commitIndex (becomeFollower t l n) = commitIndex n"
  "nextIndex (becomeFollower t l n) = nextIndex n"
  "matchIndex (becomeFollower t l n) = matchIndex n"
  "stopped (becomeFollower t l n) = stopped n"
  "restartCount (becomeFollower t l n) = restartCount n"
  "startedAt (becomeFollower t l n) = startedAt n"
  "snapshotCount (becomeFollower t l n) = snapshotCount n"
  "now (becomeFollower t l n) = now n"
  "rnd (becomeFollower t l n) = rnd n"
  "outbox (becomeFollower t l n) = outbox n"
  by (simp_all add: becomeFollower_def Let_def node_frame split: option.splits)

lemma becomeFollower_facts [node_frame]:
  "role (becomeFollower t l n) = FOLLOWER"
  "currentTerm (becomeFollower t l n) = max (currentTerm n) t"
  "votedFor (becomeFollower t l n) = (if t > currentTerm n then None else votedFor n)"
  "db (becomeFollower t l n) = (if t > currentTerm n then saveTermAndVote t None (db n) else db n)"
  "heartbeatTimer (becomeFollower t l n) = None"
  by (simp_all add: becomeFollower_def clearHeartbeatTimer_def Let_def node_frame split: option.splits)

lemma becomeFollower_leaderId:
  "l \<noteq> [] \<Longrightarrow> leaderId (becomeFollower t (Some l) n) = Some l"
  "leaderId (becomeFollower t None n) = leaderId n"
  by (simp_all add: becomeFollower_def Let_def node_frame)

lemma frame_becomeCandidate [node_frame]:
  "replicaId (becomeCandidate n) = replicaId n"
  "peers (becomeCandidate n) = peers n"
  "config (becomeCandidate n) = config n"
  "sm (becomeCandidate n) = sm n"
  "commitIndex (becomeCandidate n) = commitIndex n"
  "nextIndex (becomeCandidate n) = nextIndex n"
  "matchIndex (becomeCandidate n) = matchIndex n"
  "electionTimer (becomeCandidate n) = electionTimer n"
  "heartbeatTimer (becomeCandidate n) = heartbeatTimer n"
  "stopped (becomeCandidate n) = stopped n"
  "restartCount (becomeCandidate n) = restartCount n"
  "startedAt (becomeCandidate n) = startedAt n"
  "snapshotCount (becomeCandidate n) = snapshotCount n"
  "now (becomeCandidate n) = now n"
  "rnd (becomeCandidate n) = rnd n"
  "outbox (becomeCandidate n) = outbox n"
  by (simp_all add: becomeCandidate_def Let_def node_frame)

lemma becomeCandidate_facts [node_frame]:
  "role (becomeCandidate n) = CANDIDATE"
  "currentTerm (becomeCandidate n) = currentTerm n + 1"
  "votedFor (becomeCandidate n) = Some (replicaId n)"
  "db (becomeCandidate n) = saveTermAndVote (currentTerm n + 1) (Some (replicaId n)) (db n)"
  by (simp_all add: becomeCandidate_def Let_def node_frame)

lemma frame_maybeSnapshot [node_frame]:
  "replicaId (maybeSnapshot n) = replicaId n"
  "peers (maybeSnapshot n) = peers n"
  "config (maybeSnapshot n) = config n"
  "sm (maybeSnapshot n) = sm n"
  "role (maybeSnapshot n) = role n"
  "leaderId (maybeSnapshot n) = leaderId n"
  "commitIndex (maybeSnapshot n) = commitIndex n"
  "currentTerm (maybeSnapshot n) = currentTerm n"
  "votedFor (maybeSnapshot n) = votedFor n"
  "nextIndex (maybeSnapshot n) = nextIndex n"
  "matchIndex (maybeSnapshot n) = matchIndex n"
  "electionTimer (maybeSnapshot n) = electionTimer n"
  "heartbeatTimer (maybeSnapshot n) = heartbeatTimer n"
  "stopped (maybeSnapshot n) = stopped n"
  "restartCount (maybeSnapshot n) = restartCount n"
  "startedAt (maybeSnapshot n) = startedAt n"
  "now (maybeSnapshot n) = now n"
  "rnd (maybeSnapshot n) = rnd n"
  "emitted (maybeSnapshot n) = emitted n"
  "outbox (maybeSnapshot n) = outbox n"
  by (simp_all add: maybeSnapshot_def Let_def split: option.splits)

lemma frame_apply_loop [node_frame]:
  "replicaId (apply_loop n) = replicaId n"
  "peers (apply_loop n) = peers n"
  "config (apply_loop n) = config n"
  "db (apply_loop n) = db n"
  "role (apply_loop n) = role n"
  "leaderId (apply_loop n) = leaderId n"
  "commitIndex (apply_loop n) = commitIndex n"
  "currentTerm (apply_loop n) = currentTerm n"
  "votedFor (apply_loop n) = votedFor n"
  "nextIndex (apply_loop n) = nextIndex n"
  "matchIndex (apply_loop n) = matchIndex n"
  "electionTimer (apply_loop n) = electionTimer n"
  "heartbeatTimer (apply_loop n) = heartbeatTimer n"
  "stopped (apply_loop n) = stopped n"
  "restartCount (apply_loop n) = restartCount n"
  "startedAt (apply_loop n) = startedAt n"
  "snapshotCount (apply_loop n) = snapshotCount n"
  "now (apply_loop n) = now n"
  "rnd (apply_loop n) = rnd n"
  "outbox (apply_loop n) = outbox n"
proof -
  have "replicaId (apply_loop n) = replicaId n \<and>
    peers (apply_loop n) = peers n \<and>
    config (apply_loop n) = config n \<and>
    db (apply_loop n) = db n \<and>
    role (apply_loop n) = role n \<and>
    leaderId (apply_loop n) = leaderId n \<and>
    commitIndex (apply_loop n) = commitIndex n \<and>
    currentTerm (apply_loop n) = currentTerm n \<and>
    votedFor (apply_loop n) = votedFor n \<and>
    nextIndex (apply_loop n) = nextIndex n \<and>
    matchIndex (apply_loop n) = matchIndex n \<and>
    electionTimer (apply_loop n) = electionTimer n \<and>
    heartbeatTimer (apply_loop n) = heartbeatTimer n \<and>
    stopped (apply_loop n) = stopped n \<and>
    restartCount (apply_loop n) = restartCount n \<and>
    startedAt (apply_loop n) = startedAt n \<and>
    snapshotCount (apply_loop n) = snapshotCount n \<and>
    now (apply_loop n) = now n \<and>
    rnd (apply_loop n) = rnd n \<and>
    outbox (apply_loop n) = outbox n"
  proof (induction n rule: apply_loop.induct)
    case (1 n)
    then show ?case
      by (subst (1 2 3 4 5 6 7 8 9 10 11 12 13 14 15 16 17 18 19 20) apply_loop.simps)
        (simp add: node_frame split: option.splits)
  qed
  then show "replicaId (apply_loop n) = replicaId n"
    "peers (apply_loop n) = peers n"
    "config (apply_loop n) = config n"
    "db (apply_loop n) = db n"
    "role (apply_loop n) = role n"
    "leaderId (apply_loop n) = leaderId n"
    "commitIndex (apply_loop n) = commitIndex n"
    "currentTerm (apply_loop n) = currentTerm n"
    "votedFor (apply_loop n) = votedFor n"
    "nextIndex (apply_loop n) = nextIndex n"
    "matchIndex (apply_loop n) = matchIndex n"
    "electionTimer (apply_loop n) = electionTimer n"
    "heartbeatTimer (apply_loop n) = heartbeatTimer n"
    "stopped (apply_loop n) = stopped n"
    "restartCount (apply_loop n) = restartCount n"
    "startedAt (apply_loop n) = startedAt n"
    "snapshotCount (apply_loop n) = snapshotCount n"
    "now (apply_loop n) = now n"
    "rnd (apply_loop n) = rnd n"
    "outbox (apply_loop n) = outbox n"
    by simp_all
qed

lemma frame_applyCommitted [node_frame]:
  "replicaId (applyCommitted n) = replicaId n"
  "peers (applyCommitted n) = peers n"
  "config (applyCommitted n) = config n"
  "role (applyCommitted n) = role n"
  "leaderId (applyCommitted n) = leaderId n"
  "commitIndex (applyCommitted n) = commitIndex n"
  "currentTerm (applyCommitted n) = currentTerm n"
  "votedFor (applyCommitted n) = votedFor n"
  "nextIndex (applyCommitted n) = nextIndex n"
  "matchIndex (applyCommitted n) = matchIndex n"
  "electionTimer (applyCommitted n) = electionTimer n"
  "heartbeatTimer (applyCommitted n) = heartbeatTimer n"
  "stopped (applyCommitted n) = stopped n"
  "restartCount (applyCommitted n) = restartCount n"
  "startedAt (applyCommitted n) = startedAt n"
  "now (applyCommitted n) = now n"
  "rnd (applyCommitted n) = rnd n"
  "outbox (applyCommitted n) = outbox n"
  by (simp_all add: applyCommitted_def node_frame)

subsection \<open>What the application loop does\<close>

lemma apply_loop_spec:
  assumes "log_sorted (db n)"
  shows "lastApplied (sm n) \<le> lastApplied (sm (apply_loop n))
       \<and> lastApplied (sm (apply_loop n)) \<le> max (lastApplied (sm n)) (commitIndex n)
       \<and> (commitIndex n \<le> lastApplied (sm (apply_loop n)) \<or>
          getEntry (db n) (lastApplied (sm (apply_loop n)) + 1) = None)
       \<and> sm (apply_loop n) =
           apply_log (getRange (db n) (lastApplied (sm n) + 1) (lastApplied (sm (apply_loop n)))) (sm n)
       \<and> emitted (apply_loop n) = emitted n @ map AppliedEv
           (getRange (db n) (lastApplied (sm n) + 1) (lastApplied (sm (apply_loop n))))"
  using assms
proof (induction n rule: apply_loop.induct)
  case (1 n)
  show ?case
  proof (cases "lastApplied (sm n) < commitIndex n \<and> getEntry (db n) (lastApplied (sm n) + 1) \<noteq> None")
    case False
    then have "apply_loop n = n" by (subst apply_loop.simps) (auto split: option.splits)
    with False show ?thesis by (auto simp: getRange_empty)
  next
    case True
    then obtain e where e: "getEntry (db n) (lastApplied (sm n) + 1) = Some e" by auto
    then have ix: "e_index e = lastApplied (sm n) + 1" by (rule plog.get_index)
    let ?n = "emit (AppliedEv e) (n\<lparr>sm := apply_entry e (sm n)\<rparr>)"
    have step: "apply_loop n = apply_loop ?n"
      using True e by (subst apply_loop.simps) simp
    have sm: "sm ?n = apply_entry e (sm n)" and la: "lastApplied (sm ?n) = lastApplied (sm n) + 1"
      and la': "lastApplied (apply_entry e (sm n)) = lastApplied (sm n) + 1"
      and same: "db ?n = db n" "commitIndex ?n = commitIndex n"
      and em: "emitted ?n = emitted n @ [AppliedEv e]"
      using ix by (simp_all add: node_frame sm_simps emit_def)
    have IH: "lastApplied (sm ?n) \<le> lastApplied (sm (apply_loop ?n))
       \<and> lastApplied (sm (apply_loop ?n)) \<le> max (lastApplied (sm ?n)) (commitIndex ?n)
       \<and> (commitIndex ?n \<le> lastApplied (sm (apply_loop ?n)) \<or>
          getEntry (db ?n) (lastApplied (sm (apply_loop ?n)) + 1) = None)
       \<and> sm (apply_loop ?n) =
           apply_log (getRange (db ?n) (lastApplied (sm ?n) + 1) (lastApplied (sm (apply_loop ?n)))) (sm ?n)
       \<and> emitted (apply_loop ?n) = emitted ?n @ map AppliedEv
           (getRange (db ?n) (lastApplied (sm ?n) + 1) (lastApplied (sm (apply_loop ?n))))"
      using True e "1.prems" by (intro "1.IH") (simp_all add: same)
    let ?k = "lastApplied (sm (apply_loop ?n))"
    have k: "lastApplied (sm n) + 1 \<le> ?k" using IH la by simp
    have "getRange (db n) (lastApplied (sm n) + 1) ?k = e # getRange (db n) (lastApplied (sm n) + 1 + 1) ?k"
      using "1.prems" e k by (rule getRange_Cons)
    with IH k True show ?thesis
      unfolding step same em sm la' by (auto simp: add.commute)
  qed
qed

lemmas apply_loop_bounds =
  apply_loop_spec[THEN conjunct1]
  apply_loop_spec[THEN conjunct2, THEN conjunct1]

lemma maybeSnapshot_cases:
  obtains "maybeSnapshot n = n"
  | e where "getEntry (db n) (lastApplied (sm n)) = Some e" "0 \<le> lastApplied (sm n)"
      "snapshotThreshold (config n) \<le> lastApplied (sm n) - last_snapshot_index (db n)"
      "db (maybeSnapshot n) = truncateUpTo (lastApplied (sm n))
         (saveSnapshot (lastApplied (sm n)) (e_term e) (getSnapshot (sm n)) (now n) (db n))"
proof (cases "maybeSnapshot n = n")
  case False
  then obtain e where "getEntry (db n) (lastApplied (sm n)) = Some e"
    by (cases "getEntry (db n) (lastApplied (sm n))") (auto simp: maybeSnapshot_def Let_def)
  with False that(2) show ?thesis
    by (auto simp: maybeSnapshot_def loadMeta_def Let_def not_less split: if_splits)
qed

lemma maybeSnapshot_durable [node_frame]:
  "current_term (db (maybeSnapshot n)) = current_term (db n)"
  "voted_for (db (maybeSnapshot n)) = voted_for (db n)"
  by (cases n rule: maybeSnapshot_cases; simp add: db_simps)+

lemma db_ok_maybeSnapshot: "db_ok (db n) \<Longrightarrow> db_ok (db (maybeSnapshot n))"
  by (cases n rule: maybeSnapshot_cases) auto

lemma log_sorted_maybeSnapshot: "log_sorted (db n) \<Longrightarrow> log_sorted (db (maybeSnapshot n))"
  by (cases n rule: maybeSnapshot_cases) auto

lemma maybeSnapshot_position:
  assumes "log_sorted (db n)"
  shows "lastIndex (db (maybeSnapshot n)) = lastIndex (db n)"
    and "lastTerm (db (maybeSnapshot n)) = lastTerm (db n)"
  using assms by (cases n rule: maybeSnapshot_cases; simp add: compact_positions)+

lemma maybeSnapshot_log_subset: "set (log_entries (db (maybeSnapshot n))) \<subseteq> set (log_entries (db n))"
  by (cases n rule: maybeSnapshot_cases) (auto simp: compact_log)

lemma applyCommitted_durable [node_frame]:
  "current_term (db (applyCommitted n)) = current_term (db n)"
  "voted_for (db (applyCommitted n)) = voted_for (db n)"
  by (simp_all add: applyCommitted_def node_frame)

lemma applyCommitted_db:
  "db_ok (db n) \<Longrightarrow> db_ok (db (applyCommitted n))"
  "log_sorted (db n) \<Longrightarrow> log_sorted (db (applyCommitted n))"
  "log_sorted (db n) \<Longrightarrow> lastIndex (db (applyCommitted n)) = lastIndex (db n)"
  "log_sorted (db n) \<Longrightarrow> lastTerm (db (applyCommitted n)) = lastTerm (db n)"
  "set (log_entries (db (applyCommitted n))) \<subseteq> set (log_entries (db n))"
  using maybeSnapshot_log_subset[of "apply_loop n"]
  by (simp_all add: applyCommitted_def node_frame db_ok_maybeSnapshot log_sorted_maybeSnapshot
      maybeSnapshot_position)

lemma sm_applyCommitted: "sm (applyCommitted n) = sm (apply_loop n)"
  by (simp add: applyCommitted_def node_frame)

end
