(* ===== verification/Raft_Follower.thy ===== *)
theory Raft_Follower imports Raft_State begin

text \<open>
  The three RPC handlers of \<open>RaftNode.js\<close> that a node runs as a receiver:
  \<open>handleRequestVote\<close>, \<open>handleAppendEntries\<close> and \<open>handleInstallSnapshot\<close>, with
  what each guarantees on every branch.
\<close>

definition handleRequestVote :: "request_vote \<Rightarrow> node \<Rightarrow> node \<times> vote_reply" where
  "handleRequestVote r n =
     (let n1 = (if rv_term r > currentTerm n then becomeFollower (rv_term r) None n else n);
          deny = (n1, \<lparr>vr_term = currentTerm n1, vr_granted = False\<rparr>)
      in if rv_term r < currentTerm n1 then deny
         else if votedFor n1 \<noteq> None \<and> votedFor n1 \<noteq> Some (rv_candidateId r) then deny
         else
           (let myLastIdx = lastIndex (db n1);
                myLastTerm = lastTerm (db n1);
                upToDate = (rv_lastLogTerm r > myLastTerm \<or>
                  (rv_lastLogTerm r = myLastTerm \<and> rv_lastLogIndex r \<ge> myLastIdx))
            in if \<not> upToDate then deny
               else
                 (let n2 = n1\<lparr>votedFor := Some (rv_candidateId r),
                              db := saveTermAndVote (currentTerm n1) (Some (rv_candidateId r)) (db n1)\<rparr>;
                      n3 = resetElectionTimer n2
                  in (n3, \<lparr>vr_term = currentTerm n3, vr_granted = True\<rparr>))))"

text \<open>The consistency check on the entry before the batch, for \<open>prevLogIndex >= 0\<close>.\<close>

definition prev_matches :: "db \<Rightarrow> int \<Rightarrow> int \<Rightarrow> bool" where
  "prev_matches d prevIdx prevTerm =
     (let m = loadMeta d
      in if prevIdx = m_lastSnapshotIndex m then prevTerm = m_lastSnapshotTerm m
         else if prevIdx < m_lastSnapshotIndex m then True
         else (case getEntry d prevIdx of None \<Rightarrow> False | Some p \<Rightarrow> e_term p = prevTerm))"

fun find_write_start :: "db \<Rightarrow> entry list \<Rightarrow> int" where
  "find_write_start d [] = -1"
| "find_write_start d (e # es) =
     (case getEntry d (e_index e) of
        Some x \<Rightarrow> if e_term x = e_term e then find_write_start d es else e_index e
      | None \<Rightarrow> e_index e)"

definition store_entries :: "entry list \<Rightarrow> db \<Rightarrow> db" where
  "store_entries es d =
     (if es \<noteq> [] then
        (let writeStart = find_write_start d es
         in if writeStart \<ge> 0
            then appendEntries (filter (\<lambda>e. e_index e \<ge> writeStart) es) (truncateFrom writeStart d)
            else d)
      else d)"

text \<open>
  The opening of \<open>handleAppendEntries\<close> and \<open>handleInstallSnapshot\<close> once the caller's
  term is not stale: step down for a newer term or from another role, else note the leader.
\<close>

definition accept_leader :: "int \<Rightarrow> string \<Rightarrow> node \<Rightarrow> node" where
  "accept_leader t l n =
     (if t > currentTerm n \<or> role n \<noteq> FOLLOWER then becomeFollower t (Some l) n
      else resetElectionTimer (n\<lparr>leaderId := Some l\<rparr>))"

definition handleAppendEntries :: "append_entries \<Rightarrow> node \<Rightarrow> node \<times> append_reply" where
  "handleAppendEntries r n =
     (if ae_term r < currentTerm n
      then (n, \<lparr>ar_term = currentTerm n, ar_success = False, ar_logLength = None\<rparr>)
      else
        (let n1 = accept_leader (ae_term r) (ae_leaderId r) n
         in if ae_prevLogIndex r \<ge> 0 \<and> \<not> prev_matches (db n1) (ae_prevLogIndex r) (ae_prevLogTerm r)
            then (n1, \<lparr>ar_term = currentTerm n1, ar_success = False,
                       ar_logLength = Some (lastIndex (db n1) + 1)\<rparr>)
            else
              (let n2 = n1\<lparr>db := store_entries (ae_entries r) (db n1)\<rparr>;
                   n3 = (if ae_leaderCommit r > commitIndex n2
                         then applyCommitted
                                (n2\<lparr>commitIndex := min (ae_leaderCommit r) (lastIndex (db n2))\<rparr>)
                         else n2)
               in (n3, \<lparr>ar_term = currentTerm n3, ar_success = True, ar_logLength = None\<rparr>))))"

definition handleInstallSnapshot :: "install_snapshot \<Rightarrow> node \<Rightarrow> node \<times> int" where
  "handleInstallSnapshot r n =
     (if is_term r < currentTerm n then (n, currentTerm n)
      else
        (let n1 = accept_leader (is_term r) (is_leaderId r) n;
             m = loadMeta (db n1)
         in if is_lastIncludedIndex r \<le> m_lastSnapshotIndex m then (n1, currentTerm n1)
            else
              (let existing = getEntry (db n1) (is_lastIncludedIndex r);
                   keep = (case existing of None \<Rightarrow> False
                           | Some e \<Rightarrow> e_term e = is_lastIncludedTerm r);
                   d1 = (if keep then truncateUpTo (is_lastIncludedIndex r) (db n1)
                         else truncateAll (db n1));
                   d2 = saveSnapshot (is_lastIncludedIndex r) (is_lastIncludedTerm r) (is_data r)
                          (now n1) d1;
                   n2 = n1\<lparr>db := d2,
                          sm := restoreSnapshot (is_data r) (is_lastIncludedIndex r) (sm n1),
                          commitIndex := max (commitIndex n1) (is_lastIncludedIndex r)\<rparr>
               in (n2, currentTerm n2))))"

subsection \<open>Terms and votes\<close>

text \<open>
  \<open>vote_le n n'\<close>: from \<open>n\<close> to \<open>n'\<close> the term did not go back and, within a term, a vote
  that was cast stands.  \<open>durable\<close>: what the node holds in memory of the term and the vote is
  what its file holds.
\<close>

definition vote_le :: "node \<Rightarrow> node \<Rightarrow> bool" where
  "vote_le n n' \<longleftrightarrow> replicaId n' = replicaId n \<and> peers n' = peers n \<and>
     currentTerm n \<le> currentTerm n' \<and>
     (currentTerm n' = currentTerm n \<longrightarrow> votedFor n = None \<or> votedFor n' = votedFor n)"

definition durable :: "node \<Rightarrow> bool" where
  "durable n \<longleftrightarrow> current_term (db n) = currentTerm n \<and> voted_for (db n) = votedFor n"

lemma vote_le_refl [intro, simp]: "vote_le n n"
  by (simp add: vote_le_def)

lemma vote_le_trans [trans]: "vote_le a b \<Longrightarrow> vote_le b c \<Longrightarrow> vote_le a c"
  by (auto simp: vote_le_def)

lemma vote_le_same:
  "replicaId n' = replicaId n \<Longrightarrow> peers n' = peers n \<Longrightarrow> currentTerm n' = currentTerm n \<Longrightarrow>
   votedFor n' = votedFor n \<Longrightarrow> vote_le n n'"
  by (simp add: vote_le_def)

lemma vote_le_becomeFollower [intro]: "vote_le n (becomeFollower t l n)"
  by (auto simp: vote_le_def node_frame)

lemma vote_le_becomeCandidate [intro]: "vote_le n (becomeCandidate n)"
  by (simp add: vote_le_def node_frame)

lemma durable_same:
  "current_term (db n') = current_term (db n) \<Longrightarrow> voted_for (db n') = voted_for (db n) \<Longrightarrow>
   currentTerm n' = currentTerm n \<Longrightarrow> votedFor n' = votedFor n \<Longrightarrow> durable n \<Longrightarrow> durable n'"
  by (simp add: durable_def)

lemma durable_becomeFollower [intro]: "durable n \<Longrightarrow> durable (becomeFollower t l n)"
  by (simp add: durable_def node_frame db_simps)

lemma durable_becomeCandidate [intro]: "durable (becomeCandidate n)"
  by (simp add: durable_def node_frame db_simps)

lemma store_entries_durable [db_simps]:
  "current_term (store_entries es d) = current_term d"
  "voted_for (store_entries es d) = voted_for d"
  "last_snapshot_index (store_entries es d) = last_snapshot_index d"
  "last_snapshot_term (store_entries es d) = last_snapshot_term d"
  by (simp_all add: store_entries_def db_simps Let_def)

subsubsection \<open>RequestVote\<close>

lemma handleRequestVote_vote_le: "vote_le n (fst (handleRequestVote r n))"
  by (auto simp: handleRequestVote_def vote_le_def node_frame Let_def)

lemma handleRequestVote_durable: "durable n \<Longrightarrow> durable (fst (handleRequestVote r n))"
  by (auto simp: handleRequestVote_def durable_def node_frame db_simps Let_def)

lemma handleRequestVote_db:
  "log_entries (db (fst (handleRequestVote r n))) = log_entries (db n)"
  "lastIndex (db (fst (handleRequestVote r n))) = lastIndex (db n)"
  "db_ok (db n) \<Longrightarrow> db_ok (db (fst (handleRequestVote r n)))"
  by (auto simp: handleRequestVote_def node_frame db_simps Let_def)

lemma handleRequestVote_granted:
  "vr_granted (snd (handleRequestVote r n)) \<Longrightarrow>
   currentTerm (fst (handleRequestVote r n)) = rv_term r \<and>
   votedFor (fst (handleRequestVote r n)) = Some (rv_candidateId r) \<and>
   vr_term (snd (handleRequestVote r n)) = rv_term r"
  by (auto simp: handleRequestVote_def node_frame Let_def split: if_splits)

lemma handleRequestVote_role:
  "role (fst (handleRequestVote r n)) = (if rv_term r > currentTerm n then FOLLOWER else role n)"
  "currentTerm (fst (handleRequestVote r n)) = max (currentTerm n) (rv_term r)"
  by (auto simp: handleRequestVote_def node_frame Let_def)

subsubsection \<open>AppendEntries\<close>

lemma accept_leader_role [node_frame]:
  "role (accept_leader t l n) = FOLLOWER"
  "currentTerm (accept_leader t l n) = max (currentTerm n) t" if "currentTerm n \<le> t"
  using that by (auto simp: accept_leader_def node_frame)

lemma vote_le_accept_leader: "vote_le n (accept_leader t l n)"
  by (auto simp: accept_leader_def vote_le_def node_frame)

lemma durable_accept_leader: "durable n \<Longrightarrow> durable (accept_leader t l n)"
  by (auto simp: accept_leader_def durable_def node_frame db_simps)

lemma handleAppendEntries_vote_le: "vote_le n (fst (handleAppendEntries r n))"
  using vote_le_accept_leader[of n "ae_term r" "ae_leaderId r"]
  by (auto simp: handleAppendEntries_def vote_le_def node_frame Let_def)

lemma handleAppendEntries_durable: "durable n \<Longrightarrow> durable (fst (handleAppendEntries r n))"
  using durable_accept_leader[of n "ae_term r" "ae_leaderId r"]
  by (auto simp: handleAppendEntries_def durable_def node_frame db_simps Let_def)

lemma handleAppendEntries_role:
  "role (fst (handleAppendEntries r n)) = (if ae_term r < currentTerm n then role n else FOLLOWER)"
  "currentTerm (fst (handleAppendEntries r n)) = max (currentTerm n) (ae_term r)"
  by (auto simp: handleAppendEntries_def node_frame Let_def)

subsubsection \<open>InstallSnapshot\<close>

lemma handleInstallSnapshot_vote_le: "vote_le n (fst (handleInstallSnapshot r n))"
  using vote_le_accept_leader[of n "is_term r" "is_leaderId r"]
  by (auto simp: handleInstallSnapshot_def vote_le_def node_frame Let_def)

lemma handleInstallSnapshot_durable: "durable n \<Longrightarrow> durable (fst (handleInstallSnapshot r n))"
  using durable_accept_leader[of n "is_term r" "is_leaderId r"]
  by (auto simp: handleInstallSnapshot_def durable_def node_frame db_simps Let_def)

lemma handleInstallSnapshot_role:
  "role (fst (handleInstallSnapshot r n)) = (if is_term r < currentTerm n then role n else FOLLOWER)"
  "currentTerm (fst (handleInstallSnapshot r n)) = max (currentTerm n) (is_term r)"
  by (auto simp: handleInstallSnapshot_def node_frame Let_def)

subsection \<open>The follower's log\<close>

lemma find_write_start_find:
  "find_write_start d es =
     (case find (\<lambda>e. \<not> plog.holds d e) es of None \<Rightarrow> -1 | Some e \<Rightarrow> e_index e)"
  by (induction d es rule: find_write_start.induct) (auto simp: plog.holds_def split: option.splits)

lemma store_entries_merge:
  assumes "\<forall>e \<in> set es. 0 \<le> e_index e"
  shows "store_entries es d = plog.merge es d"
proof (cases "find (\<lambda>e. \<not> plog.holds d e) es")
  case None
  then show ?thesis
    by (simp add: store_entries_def plog.merge_def find_write_start_find Let_def)
next
  case (Some e)
  then have "e \<in> set es" by (auto simp: find_split)
  with Some assms show ?thesis
    by (auto simp: store_entries_def plog.merge_def find_write_start_find Let_def)
qed

lemma getEntry_log_cong: "log_entries d1 = log_entries d2 \<Longrightarrow> getEntry d1 = getEntry d2"
  by (simp add: getEntry_def fun_eq_iff)

lemma find_write_start_cong:
  assumes "log_entries d1 = log_entries d2"
  shows "find_write_start d1 es = find_write_start d2 es"
  unfolding find_write_start_find plog.holds_def getEntry_log_cong[OF assms] ..

lemma store_entries_cong:
  assumes "log_entries d1 = log_entries d2"
  shows "log_entries (store_entries es d1) = log_entries (store_entries es d2)"
  unfolding store_entries_def Let_def find_write_start_cong[OF assms]
  by (simp add: appendEntries_def truncateFrom_def assms)

lemma store_entries_saveTerm [db_simps]:
  "log_entries (store_entries es (saveTermAndVote t v d)) = log_entries (store_entries es d)"
  "getEntry (store_entries es (saveTermAndVote t v d)) = getEntry (store_entries es d)"
  by (rule store_entries_cong getEntry_log_cong; (rule store_entries_cong)?; simp add: db_simps)+

lemma log_sorted_store_entries: "log_sorted d \<Longrightarrow> log_sorted (store_entries es d)"
  by (auto simp: store_entries_def Let_def)

lemma db_ok_store_entries: "db_ok d \<Longrightarrow> db_ok (store_entries es d)"
  by (auto simp: store_entries_def Let_def)

lemma store_entries_source:
  "e \<in> set (log_entries (store_entries es d)) \<Longrightarrow> e \<in> set (log_entries d) \<or> e \<in> set es"
proof -
  have "set (fold replace_row xs rs) \<subseteq> set xs \<union> set rs" for xs rs
  proof (induction xs arbitrary: rs)
    case (Cons x xs)
    from Cons[of "replace_row x rs"] set_replace_row(1)[of x rs] show ?case by auto
  qed simp
  moreover assume "e \<in> set (log_entries (store_entries es d))"
  ultimately show ?thesis
    by (fastforce simp: store_entries_def Let_def appendEntries_def truncateFrom_def split: if_splits)
qed

lemma maybeSnapshot_getEntry:
  "getEntry (db (maybeSnapshot n)) i = getEntry (db n) i \<or>
   i \<le> last_snapshot_index (db (maybeSnapshot n))"
  by (cases n rule: maybeSnapshot_cases) (auto simp: plog.get_cut_upto db_simps)

lemma applyCommitted_getEntry:
  "getEntry (db (applyCommitted n)) i = getEntry (db n) i \<or>
   i \<le> last_snapshot_index (db (applyCommitted n))"
  using maybeSnapshot_getEntry[of "apply_loop n" i] by (simp add: applyCommitted_def node_frame)

lemma accept_leader_frame [node_frame]:
  "sm (accept_leader t l n) = sm n"
  "commitIndex (accept_leader t l n) = commitIndex n"
  "log_entries (db (accept_leader t l n)) = log_entries (db n)"
  "last_snapshot_index (db (accept_leader t l n)) = last_snapshot_index (db n)"
  "last_snapshot_term (db (accept_leader t l n)) = last_snapshot_term (db n)"
  "getEntry (db (accept_leader t l n)) = getEntry (db n)"
  "log_entries (store_entries es (db (accept_leader t l n))) = log_entries (store_entries es (db n))"
  "lastIndex (db (accept_leader t l n)) = lastIndex (db n)"
  "now (accept_leader t l n) = now n"
  by (auto simp: accept_leader_def node_frame db_simps fun_eq_iff)

lemma db_ok_accept_leader:
  "db_ok (db n) \<Longrightarrow> db_ok (db (accept_leader t l n))"
  "log_sorted (db n) \<Longrightarrow> log_sorted (db (accept_leader t l n))"
  by (auto simp: accept_leader_def node_frame)

lemma prev_matches_accept [node_frame]:
  "prev_matches (db (accept_leader t l n)) i pt = prev_matches (db n) i pt"
  by (simp add: prev_matches_def loadMeta_def node_frame)

lemma handleAppendEntries_cases:
  obtains (stale) "ae_term r < currentTerm n"
      "handleAppendEntries r n = (n, \<lparr>ar_term = currentTerm n, ar_success = False, ar_logLength = None\<rparr>)"
  | (mismatch) "currentTerm n \<le> ae_term r" "0 \<le> ae_prevLogIndex r"
      "\<not> prev_matches (db n) (ae_prevLogIndex r) (ae_prevLogTerm r)"
      "fst (handleAppendEntries r n) = accept_leader (ae_term r) (ae_leaderId r) n"
      "\<not> ar_success (snd (handleAppendEntries r n))"
      "ar_logLength (snd (handleAppendEntries r n)) = Some (lastIndex (db n) + 1)"
  | (success) n2 where "currentTerm n \<le> ae_term r"
      "ae_prevLogIndex r < 0 \<or> prev_matches (db n) (ae_prevLogIndex r) (ae_prevLogTerm r)"
      "n2 = (accept_leader (ae_term r) (ae_leaderId r) n)
          \<lparr>db := store_entries (ae_entries r) (db (accept_leader (ae_term r) (ae_leaderId r) n))\<rparr>"
      "fst (handleAppendEntries r n) =
         (if ae_leaderCommit r > commitIndex n
          then applyCommitted (n2\<lparr>commitIndex := min (ae_leaderCommit r) (lastIndex (db n2))\<rparr>)
          else n2)"
      "ar_success (snd (handleAppendEntries r n))"
proof -
  note h = handleAppendEntries_def[of r n]
  show ?thesis
  proof (cases "ae_term r < currentTerm n")
    case True
    then show ?thesis by (intro stale) (simp_all add: h)
  next
    case False
    show ?thesis
    proof (cases "ae_prevLogIndex r \<ge> 0 \<and> \<not> prev_matches (db n) (ae_prevLogIndex r) (ae_prevLogTerm r)")
      case True
      with False show ?thesis by (intro mismatch) (simp_all add: h Let_def node_frame)
    next
      case ok: False
      with False show ?thesis by (intro success[OF _ _ refl]) (auto simp: h Let_def node_frame)
    qed
  qed
qed

lemma handleAppendEntries_success_db:
  assumes "ar_success (snd (handleAppendEntries r n))"
  shows "getEntry (db (fst (handleAppendEntries r n))) i = getEntry (store_entries (ae_entries r) (db n)) i
       \<or> i \<le> last_snapshot_index (db (fst (handleAppendEntries r n)))"
proof (cases r n rule: handleAppendEntries_cases)
  case (success n2)
  have g: "getEntry (db n2) = getEntry (store_entries (ae_entries r) (db n))"
    by (rule getEntry_log_cong) (simp add: success(3) node_frame)
  with success(4) applyCommitted_getEntry[of "n2\<lparr>commitIndex := min (ae_leaderCommit r) (lastIndex (db n2))\<rparr>" i]
  show ?thesis by (auto simp: node_frame)
qed (use assms in simp_all)

lemma handleAppendEntries_db_ok:
  "db_ok (db n) \<Longrightarrow> db_ok (db (fst (handleAppendEntries r n)))"
  by (cases r n rule: handleAppendEntries_cases)
    (auto simp: db_ok_accept_leader intro!: applyCommitted_db db_ok_store_entries)

lemma handleAppendEntries_log_source:
  assumes "e \<in> set (log_entries (db (fst (handleAppendEntries r n))))"
  shows "e \<in> set (log_entries (db n)) \<or> e \<in> set (ae_entries r)"
proof (cases r n rule: handleAppendEntries_cases)
  case (success n2)
  have "e \<in> set (log_entries (db n2))"
    using assms success(4) applyCommitted_db(5)[of "n2\<lparr>commitIndex := min (ae_leaderCommit r) (lastIndex (db n2))\<rparr>"]
    by (auto split: if_splits)
  with success(3) show ?thesis by (auto simp: node_frame dest: store_entries_source)
qed (use assms in \<open>simp_all add: node_frame\<close>)

lemma handleInstallSnapshot_cases:
  obtains (stale) "is_term r < currentTerm n" "handleInstallSnapshot r n = (n, currentTerm n)"
  | (older) "currentTerm n \<le> is_term r" "is_lastIncludedIndex r \<le> last_snapshot_index (db n)"
      "fst (handleInstallSnapshot r n) = accept_leader (is_term r) (is_leaderId r) n"
  | (install) n1 where "currentTerm n \<le> is_term r"
      "last_snapshot_index (db n) < is_lastIncludedIndex r"
      "n1 = accept_leader (is_term r) (is_leaderId r) n"
      "db (fst (handleInstallSnapshot r n)) =
         saveSnapshot (is_lastIncludedIndex r) (is_lastIncludedTerm r) (is_data r) (now n)
           (if \<exists>e. getEntry (db n) (is_lastIncludedIndex r) = Some e \<and> e_term e = is_lastIncludedTerm r
            then truncateUpTo (is_lastIncludedIndex r) (db n1) else truncateAll (db n1))"
      "sm (fst (handleInstallSnapshot r n)) = restoreSnapshot (is_data r) (is_lastIncludedIndex r) (sm n)"
      "commitIndex (fst (handleInstallSnapshot r n)) = max (commitIndex n) (is_lastIncludedIndex r)"
proof (cases "is_term r < currentTerm n")
  case True
  then show ?thesis by (intro stale) (simp_all add: handleInstallSnapshot_def)
next
  case False
  show ?thesis
  proof (cases "is_lastIncludedIndex r \<le> last_snapshot_index (db n)")
    case True
    with False show ?thesis
      by (intro older) (simp_all add: handleInstallSnapshot_def Let_def loadMeta_def node_frame)
  next
    case newer: False
    with False show ?thesis
      by (intro install[OF _ _ refl])
        (auto simp: handleInstallSnapshot_def Let_def loadMeta_def node_frame split: option.splits)
  qed
qed

lemma handleInstallSnapshot_db_ok:
  "db_ok (db n) \<Longrightarrow> db_ok (db (fst (handleInstallSnapshot r n)))"
  by (cases r n rule: handleInstallSnapshot_cases) (auto intro!: db_ok_ops db_ok_accept_leader)

lemma handleInstallSnapshot_log_source:
  "e \<in> set (log_entries (db (fst (handleInstallSnapshot r n)))) \<Longrightarrow> e \<in> set (log_entries (db n))"
  by (cases r n rule: handleInstallSnapshot_cases)
    (auto simp: node_frame db_simps truncateUpTo_def split: if_splits)

subsection \<open>Properties\<close>

text \<open>A small node for the witnesses: a follower of term 2 with two peers, holding \<open>demo_log\<close>.\<close>

definition demo_node :: node where
  "demo_node = (new_node ''n1'' [''n2'', ''n3''] default_config
     (saveTermAndVote 2 None demo_db) (new_state_machine 10) 0 0)\<lparr>currentTerm := 2\<rparr>"

lemma demo_db_facts:
  "log_entries demo_db = demo_log" "last_snapshot_index demo_db = -1" "db_ok demo_db"
  "snapshots demo_db = []"
proof -
  show "db_ok demo_db" unfolding demo_db_def by (intro db_ok_ops db_ok_fresh)
qed (simp_all add: demo_db_def demo_log_def fresh_db_def appendEntries_def)

lemma demo_node_facts:
  "currentTerm demo_node = 2" "role demo_node = FOLLOWER" "votedFor demo_node = None"
  "log_entries (db demo_node) = demo_log" "db_ok (db demo_node)" "commitIndex demo_node = -1"
  "last_snapshot_index (db demo_node) = -1" "sm demo_node = new_state_machine 10"
  "config demo_node = default_config"
  using db_ok_ops(5)[OF demo_db_facts(3)]
  by (simp_all add: demo_node_def new_node_def db_simps demo_db_facts)

lemma getEntry_demo:
  "log_entries d = demo_log \<Longrightarrow> getEntry d i =
     (if i = 0 then Some (stroke_entry 0 1 ''a'' 1 []) else if i = 1 then Some (stroke_entry 1 1 ''b'' 1 [])
      else if i = 2 then Some (stroke_entry 2 1 ''a'' 1 []) else if i = 3 then Some (stroke_entry 3 2 ''a'' 2 [])
      else None)"
  "log_entries d = demo_log \<Longrightarrow> lastIndex d = 3"
  by (auto simp: getEntry_def demo_log_def lastIndex_def)

text \<open>
  C16: when a vote is granted.  \<open>handleRequestVote\<close> grants exactly when the candidate's term is
  not older than the node's, the node has not voted for another candidate in that term, and the
  candidate's log is at least as up to date (last term first, then last index).  On a grant the vote
  is in memory and in the file before the reply is made.
\<close>

theorem vote_granted_iff:
  "vr_granted (snd (handleRequestVote r n)) =
     (currentTerm n \<le> rv_term r
    \<and> (rv_term r = currentTerm n \<longrightarrow> votedFor n = None \<or> votedFor n = Some (rv_candidateId r))
    \<and> (lastTerm (db n) < rv_lastLogTerm r
       \<or> lastTerm (db n) = rv_lastLogTerm r \<and> lastIndex (db n) \<le> rv_lastLogIndex r))
 \<and> (vr_granted (snd (handleRequestVote r n)) \<longrightarrow>
      currentTerm (fst (handleRequestVote r n)) = rv_term r
    \<and> votedFor (fst (handleRequestVote r n)) = Some (rv_candidateId r)
    \<and> current_term (db (fst (handleRequestVote r n))) = rv_term r
    \<and> voted_for (db (fst (handleRequestVote r n))) = Some (rv_candidateId r)
    \<and> log_entries (db (fst (handleRequestVote r n))) = log_entries (db n))"
proof (cases "rv_term r > currentTerm n")
  case True
  then show ?thesis by (simp add: handleRequestVote_def Let_def node_frame db_simps)
next
  case False
  then show ?thesis by (auto simp: handleRequestVote_def Let_def node_frame db_simps)
qed

theorem vote_granted_iff_witness:
  "vr_granted (snd (handleRequestVote
      \<lparr>rv_term = 3, rv_candidateId = ''n2'', rv_lastLogIndex = 3, rv_lastLogTerm = 2\<rparr> demo_node)) \<and>
   voted_for (db (fst (handleRequestVote
      \<lparr>rv_term = 3, rv_candidateId = ''n2'', rv_lastLogIndex = 3, rv_lastLogTerm = 2\<rparr> demo_node))) = Some ''n2''"
proof -
  let ?r = "\<lparr>rv_term = 3, rv_candidateId = ''n2'', rv_lastLogIndex = 3, rv_lastLogTerm = 2\<rparr>"
  have "lastTerm (db demo_node) = 2" by (simp add: lastTerm_def demo_node_facts demo_log_def)
  then have "vr_granted (snd (handleRequestVote ?r demo_node))"
    using vote_granted_iff[of ?r demo_node] by (simp add: demo_node_facts getEntry_demo)
  with vote_granted_iff[of ?r demo_node] show ?thesis by simp
qed

text \<open>
  C13: an acknowledged batch is in the log.  When \<open>handleAppendEntries\<close> answers success to a
  batch in ascending index order, the entry before the batch matched, every entry of the batch is
  held with its term (or lies at or below the node's snapshot), and entries below the batch are
  untouched unless a snapshot now covers them.
\<close>

theorem append_success_agreement:
  assumes "sorted_wrt (<) (map e_index (ae_entries r))" "\<forall>e \<in> set (ae_entries r). 0 \<le> e_index e"
    and "ar_success (snd (handleAppendEntries r n))"
  defines "d' \<equiv> db (fst (handleAppendEntries r n))"
  shows "(ae_prevLogIndex r < 0 \<or> prev_matches (db n) (ae_prevLogIndex r) (ae_prevLogTerm r))
       \<and> (\<forall>e \<in> set (ae_entries r).
            e_index e \<le> last_snapshot_index d' \<or>
            (\<exists>x. getEntry d' (e_index e) = Some x \<and> e_term x = e_term e))
       \<and> (\<forall>i. (\<forall>e \<in> set (ae_entries r). i < e_index e) \<longrightarrow>
            getEntry d' i = getEntry (db n) i \<or> i \<le> last_snapshot_index d')"
proof (intro conjI ballI allI impI)
  show "ae_prevLogIndex r < 0 \<or> prev_matches (db n) (ae_prevLogIndex r) (ae_prevLogTerm r)"
    using assms(3) by (cases r n rule: handleAppendEntries_cases) auto
next
  fix e assume "e \<in> set (ae_entries r)"
  then have "plog.holds (store_entries (ae_entries r) (db n)) e"
    unfolding store_entries_merge[OF assms(2)] by (rule plog.merge_holds[OF assms(1)])
  with handleAppendEntries_success_db[OF assms(3), of "e_index e"]
  show "e_index e \<le> last_snapshot_index d' \<or>
        (\<exists>x. getEntry d' (e_index e) = Some x \<and> e_term x = e_term e)"
    unfolding d'_def plog.holds_def by auto
next
  fix i assume "\<forall>e \<in> set (ae_entries r). i < e_index e"
  then have "getEntry (store_entries (ae_entries r) (db n)) i = getEntry (db n) i"
    unfolding store_entries_merge[OF assms(2)] by (rule plog.merge_below[OF assms(1)])
  with handleAppendEntries_success_db[OF assms(3), of i]
  show "getEntry d' i = getEntry (db n) i \<or> i \<le> last_snapshot_index d'"
    unfolding d'_def by auto
qed

text \<open>A leader of term 3 replaces the entry at index 3 and appends one.\<close>

definition demo_append :: append_entries where
  "demo_append = \<lparr>ae_term = 3, ae_leaderId = ''n2'', ae_prevLogIndex = 2, ae_prevLogTerm = 1,
     ae_entries = [stroke_entry 3 3 ''b'' 2 [], stroke_entry 4 3 ''b'' 3 []], ae_leaderCommit = -1\<rparr>"

lemma demo_append_success: "ar_success (snd (handleAppendEntries demo_append demo_node))"
  by (cases demo_append demo_node rule: handleAppendEntries_cases)
    (simp_all add: demo_append_def demo_node_facts prev_matches_def loadMeta_def getEntry_demo)

theorem append_success_agreement_witness:
  "\<exists>d. d = db (fst (handleAppendEntries demo_append demo_node)) \<and>
     (3 \<le> last_snapshot_index d \<or> (\<exists>x. getEntry d 3 = Some x \<and> e_term x = 3)) \<and>
     (getEntry d 2 = getEntry (db demo_node) 2 \<or> 2 \<le> last_snapshot_index d)"
proof -
  have "sorted_wrt (<) (map e_index (ae_entries demo_append))"
    "\<forall>e \<in> set (ae_entries demo_append). 0 \<le> e_index e"
    by (simp_all add: demo_append_def)
  from append_success_agreement[OF this demo_append_success] show ?thesis
    by (simp add: demo_append_def)
qed

text \<open>
  Storing a batch is idempotent and keeps what it already holds.  Storing the same batch again
  changes nothing, and a batch whose entries are all held leaves the log as it is: a delayed or
  duplicated message truncates nothing, as long as its entries are still in the log.
\<close>

theorem store_entries_idempotent:
  assumes "sorted_wrt (<) (map e_index es)" "\<forall>e \<in> set es. 0 \<le> e_index e"
  shows "store_entries es (store_entries es d) = store_entries es d
       \<and> ((\<forall>e \<in> set es. \<exists>x. getEntry d (e_index e) = Some x \<and> e_term x = e_term e) \<longrightarrow>
            store_entries es d = d)"
  using plog.merge_idem[OF assms(1)] plog.merge_keep[of es d]
  by (simp add: store_entries_merge[OF assms(2)] plog.holds_def)

theorem store_entries_idempotent_witness:
  "store_entries [stroke_entry 2 1 ''a'' 1 [], stroke_entry 3 2 ''a'' 2 []] demo_db = demo_db"
  using store_entries_idempotent[of "[stroke_entry 2 1 ''a'' 1 [], stroke_entry 3 2 ''a'' 2 []]" demo_db]
  by (simp add: getEntry_demo[OF demo_db_facts(1)])

text \<open>
  C24: a redelivered batch that reaches below the compaction horizon destroys the log after it.
  If the first entry of a batch has been compacted away, the handler answers success, rewrites the
  log from that index on and drops every entry past the end of the batch, whether or not the node has
  acknowledged it or its commit index covers it.
\<close>

theorem compacted_redelivery_drops_tail:
  assumes "ae_entries r = e # es" "sorted_wrt (<) (map e_index (e # es))" "0 \<le> e_index e"
    and "e_index e \<le> last_snapshot_index (db n)" "getEntry (db n) (e_index e) = None"
    and "ae_prevLogIndex r = e_index e - 1" "currentTerm n \<le> ae_term r"
    and "ae_leaderCommit r \<le> commitIndex n"
  shows "ar_success (snd (handleAppendEntries r n))
       \<and> commitIndex (fst (handleAppendEntries r n)) = commitIndex n
       \<and> (\<forall>i. e_index (last (e # es)) < i \<longrightarrow>
            getEntry (db (fst (handleAppendEntries r n))) i = None)"
proof -
  have nn: "\<forall>x \<in> set (ae_entries r). 0 \<le> e_index x" using assms(1,2,3) by auto
  have asc: "sorted_wrt (<) (map e_index (ae_entries r))" using assms(1,2) by simp
  have first: "find (\<lambda>x. \<not> plog.holds (db n) x) (ae_entries r) = Some e"
    using assms(1,5) by (simp add: plog.holds_def)
  have pm: "ae_prevLogIndex r < 0 \<or> prev_matches (db n) (ae_prevLogIndex r) (ae_prevLogTerm r)"
    using assms(3,4,6) by (simp add: prev_matches_def loadMeta_def Let_def)
  have gone: "getEntry (store_entries (ae_entries r) (db n)) i = None"
    if "e_index (last (e # es)) < i" for i
  proof -
    have le: "e_index x \<le> e_index (last (e # es))" if "x \<in> set (e # es)" for x
      by (rule sorted_wrt_last_max[OF assms(2) that])
    have "\<not> i < e_index e" using le[of e] that by simp
    moreover have "find (\<lambda>x. e_index x = i) (e # es) = None"
      using le that by (fastforce simp: find_None_iff simp del: find.simps)
    ultimately show ?thesis
      unfolding store_entries_merge[OF nn] plog.get_merge[OF asc first] by (simp add: assms(1))
  qed
  show ?thesis
  proof (cases r n rule: handleAppendEntries_cases)
    case (success n2)
    have "getEntry (db n2) = getEntry (store_entries (ae_entries r) (db n))"
      by (rule getEntry_log_cong) (simp add: success(3) node_frame)
    with success assms(8) gone show ?thesis by (simp add: node_frame)
  qed (use assms(7) pm in simp_all)
qed

text \<open>The witness: snapshot at index 1, entries 2 and 3 held and committed, entry 0 redelivered.\<close>

definition compacted_node :: node where
  "compacted_node = demo_node\<lparr>db := truncateUpTo 1
      (saveSnapshot 1 1 (getSnapshot (new_state_machine 10)) 0 (db demo_node)), commitIndex := 3\<rparr>"

theorem compacted_redelivery_drops_tail_witness:
  "getEntry (db compacted_node) 3 = Some (stroke_entry 3 2 ''a'' 2 []) \<and> commitIndex compacted_node = 3 \<and>
   ar_success (snd (handleAppendEntries \<lparr>ae_term = 2, ae_leaderId = ''n2'', ae_prevLogIndex = -1,
      ae_prevLogTerm = -1, ae_entries = [stroke_entry 0 1 ''a'' 1 []], ae_leaderCommit = -1\<rparr> compacted_node)) \<and>
   getEntry (db (fst (handleAppendEntries \<lparr>ae_term = 2, ae_leaderId = ''n2'', ae_prevLogIndex = -1,
      ae_prevLogTerm = -1, ae_entries = [stroke_entry 0 1 ''a'' 1 []], ae_leaderCommit = -1\<rparr> compacted_node))) 3 = None"
proof -
  have f: "getEntry (db compacted_node) i = (if 1 < i then getEntry (db demo_node) i else None)"
    "last_snapshot_index (db compacted_node) = 1" "currentTerm compacted_node = 2"
    "commitIndex compacted_node = 3" for i
    by (simp_all add: compacted_node_def plog.get_cut_upto db_simps demo_node_facts)
  show ?thesis
    using compacted_redelivery_drops_tail[of "\<lparr>ae_term = 2, ae_leaderId = ''n2'', ae_prevLogIndex = -1,
      ae_prevLogTerm = -1, ae_entries = [stroke_entry 0 1 ''a'' 1 []], ae_leaderCommit = -1\<rparr>"
      "stroke_entry 0 1 ''a'' 1 []" "[]" compacted_node]
    by (simp add: f getEntry_demo[OF demo_node_facts(4)])
qed

text \<open>
  How far a follower commits.  On success the commit index becomes the smaller of the
  leader's and the follower's last index if the leader's is larger, and stays otherwise; it does not go
  back unless the log was cut below it, and nothing is applied past it.
\<close>

theorem append_commit_index:
  assumes "ar_success (snd (handleAppendEntries r n))" "log_sorted (db n)"
  defines "n' \<equiv> fst (handleAppendEntries r n)"
    and "l \<equiv> lastIndex (store_entries (ae_entries r) (db n))"
  shows "commitIndex n' =
           (if ae_leaderCommit r > commitIndex n then min (ae_leaderCommit r) l else commitIndex n)
       \<and> (commitIndex n \<le> l \<longrightarrow> commitIndex n \<le> commitIndex n')
       \<and> lastApplied (sm n) \<le> lastApplied (sm n')
       \<and> lastApplied (sm n') \<le> max (lastApplied (sm n)) (commitIndex n')"
proof (cases r n rule: handleAppendEntries_cases)
  case (success n2)
  have srt: "log_sorted (db n2)"
    unfolding success(3) by (simp add: log_sorted_store_entries db_ok_accept_leader assms(2))
  have l: "lastIndex (db n2) = l"
    unfolding l_def success(3) by (simp add: lastIndex_def node_frame db_simps)
  let ?c = "n2\<lparr>commitIndex := min (ae_leaderCommit r) (lastIndex (db n2))\<rparr>"
  have c: "commitIndex n2 = commitIndex n" "sm n2 = sm n" unfolding success(3) by (simp_all add: node_frame)
  have "lastApplied (sm n) \<le> lastApplied (sm (applyCommitted ?c)) \<and>
      lastApplied (sm (applyCommitted ?c)) \<le> max (lastApplied (sm n)) (commitIndex ?c)"
    using apply_loop_bounds[of ?c] srt c(2) by (simp add: sm_applyCommitted)
  with success(4) c l show ?thesis by (auto simp: n'_def node_frame)
qed (use assms(1) in simp_all)

theorem append_commit_index_witness:
  "commitIndex (fst (handleAppendEntries (demo_append\<lparr>ae_leaderCommit := 9\<rparr>) demo_node)) = 4"
proof -
  let ?r = "demo_append\<lparr>ae_leaderCommit := 9\<rparr>"
  have ok: "ar_success (snd (handleAppendEntries ?r demo_node))"
    by (cases ?r demo_node rule: handleAppendEntries_cases)
      (simp_all add: demo_append_def demo_node_facts prev_matches_def loadMeta_def getEntry_demo)
  have srt: "log_sorted (db demo_node)" using demo_node_facts(5) by (simp add: db_ok_def)
  have "lastIndex (store_entries (ae_entries ?r) (db demo_node)) = 4"
    by (simp add: store_entries_def Let_def getEntry_demo demo_append_def demo_node_facts lastIndex_def
        appendEntries_def truncateFrom_def demo_log_def)
  with append_commit_index[OF ok srt] show ?thesis by (simp add: demo_append_def demo_node_facts)
qed

text \<open>
  C21: installing a snapshot.  A snapshot newer than the node's own, from a leader whose term is
  not stale, becomes the node's snapshot and its state machine's state; entries after it are kept
  exactly when the log holds the snapshot's last entry with its term, and the log is emptied
  otherwise; the commit index never goes back.
\<close>

theorem install_snapshot_effect:
  assumes "currentTerm n \<le> is_term r" "last_snapshot_index (db n) < is_lastIncludedIndex r"
  defines "n' \<equiv> fst (handleInstallSnapshot r n)"
  shows "last_snapshot_index (db n') = is_lastIncludedIndex r
       \<and> last_snapshot_term (db n') = is_lastIncludedTerm r
       \<and> map_option s_blob (loadLatestSnapshot (db n')) = Some (is_data r)
       \<and> sm n' = restoreSnapshot (is_data r) (is_lastIncludedIndex r) (sm n)
       \<and> commitIndex n' = max (commitIndex n) (is_lastIncludedIndex r)
       \<and> getEntry (db n') =
           (if map_option e_term (getEntry (db n) (is_lastIncludedIndex r)) = Some (is_lastIncludedTerm r)
            then getEntry (db n) |` {is_lastIncludedIndex r<..} else Map.empty)"
proof (cases r n rule: handleInstallSnapshot_cases)
  case (install n1)
  have m: "map_option e_term (getEntry (db n) (is_lastIncludedIndex r)) = Some (is_lastIncludedTerm r) \<longleftrightarrow>
      (\<exists>e. getEntry (db n) (is_lastIncludedIndex r) = Some e \<and> e_term e = is_lastIncludedTerm r)"
    by auto
  have g: "getEntry (db n1) = getEntry (db n)" unfolding install(3) by (simp add: node_frame)
  show ?thesis
    unfolding n'_def install(4-6) m
    by (auto simp: db_simps saveSnapshot_latest fun_eq_iff plog.get_cut_upto g restrict_map_def)
qed (use assms in simp_all)

definition demo_snapshot :: install_snapshot where
  "demo_snapshot = \<lparr>is_term = 2, is_leaderId = ''n2'', is_lastIncludedIndex = 1, is_lastIncludedTerm = 1,
     is_data = getSnapshot (apply_log (take 2 demo_log) (new_state_machine 10))\<rparr>"

theorem install_snapshot_effect_witness:
  "getEntry (db (fst (handleInstallSnapshot demo_snapshot demo_node))) 3 =
     Some (stroke_entry 3 2 ''a'' 2 [])"
  using install_snapshot_effect[of demo_node demo_snapshot]
  by (simp add: demo_node_facts demo_snapshot_def getEntry_demo)

text \<open>
  A snapshot older than the applied state is accepted.  The handler compares the incoming
  snapshot with the node's last snapshot only, so a node that has applied further goes back: its
  state machine becomes the snapshot's, \<open>lastApplied\<close> falls, and the commit index stays.
\<close>

theorem install_snapshot_can_rewind:
  assumes "currentTerm n \<le> is_term r" "last_snapshot_index (db n) < is_lastIncludedIndex r"
    and "is_lastIncludedIndex r < lastApplied (sm n)" "lastApplied (sm n) \<le> commitIndex n"
  shows "lastApplied (sm (fst (handleInstallSnapshot r n))) < lastApplied (sm n)
       \<and> commitIndex (fst (handleInstallSnapshot r n)) = commitIndex n"
  using assms by (cases r n rule: handleInstallSnapshot_cases) (simp_all add: restoreSnapshot_def)

theorem install_snapshot_can_rewind_witness:
  "lastApplied (sm (fst (handleInstallSnapshot demo_snapshot
      (demo_node\<lparr>sm := apply_log demo_log (new_state_machine 10), commitIndex := 3\<rparr>)))) < 3"
proof -
  have "lastApplied (apply_log demo_log (new_state_machine 10)) = 3"
    by (simp add: demo_log_def sm_simps new_state_machine_def)
  then show ?thesis
    using install_snapshot_can_rewind[of
      "demo_node\<lparr>sm := apply_log demo_log (new_state_machine 10), commitIndex := 3\<rparr>" demo_snapshot]
    by (simp add: demo_node_facts demo_snapshot_def)
qed

end
