(* ===== verification/Raft_Leader.thy ===== *)
theory Raft_Leader imports Raft_Follower begin

text \<open>
  The candidate's and the leader's side of \<open>RaftNode.js\<close>.  An \<open>async\<close> method is split at
  its \<open>await\<close>: the part before it makes the calls (\<open>startElection\<close>,
  \<open>sendAppendEntriesTo\<close>), the part after it takes what the closure has kept and the answer
  (\<open>electionResults\<close>, \<open>appendReply\<close>, \<open>snapshotReply\<close>).  Other handlers run in
  between.
\<close>

subsection \<open>Replication\<close>

definition next_of :: "node \<Rightarrow> string \<Rightarrow> int" where
  "next_of n p = (case map_get (nextIndex n) p of Some i \<Rightarrow> i | None \<Rightarrow> 0)"

definition match_of :: "node \<Rightarrow> string \<Rightarrow> int" where
  "match_of n p = (case map_get (matchIndex n) p of Some i \<Rightarrow> i | None \<Rightarrow> -1)"

definition snapshotRequest :: "node \<Rightarrow> call option" where
  "snapshotRequest n =
     (case loadLatestSnapshot (db n) of
        None \<Rightarrow> None
      | Some snap \<Rightarrow> Some (SnapshotCall
          \<lparr>is_term = currentTerm n, is_leaderId = replicaId n,
           is_lastIncludedIndex = s_index snap, is_lastIncludedTerm = s_term snap,
           is_data = s_blob snap\<rparr>))"

definition prev_term :: "db \<Rightarrow> int \<Rightarrow> int" where
  "prev_term d prevIdx =
     (if prevIdx \<ge> 0 then
        (let m = loadMeta d
         in if prevIdx = m_lastSnapshotIndex m then m_lastSnapshotTerm m
            else (case getEntry d prevIdx of Some e \<Rightarrow> e_term e | None \<Rightarrow> -1))
      else -1)"

definition appendRequest :: "node \<Rightarrow> string \<Rightarrow> call option" where
  "appendRequest n p =
     (if stopped n \<or> role n \<noteq> LEADER then None
      else
        (let nxt = next_of n p
         in if nxt < firstIndex (db n) then snapshotRequest n
            else
              (let lastIdx = lastIndex (db n)
               in Some (AppendCall
                    \<lparr>ae_term = currentTerm n, ae_leaderId = replicaId n,
                     ae_prevLogIndex = nxt - 1, ae_prevLogTerm = prev_term (db n) (nxt - 1),
                     ae_entries = (if nxt \<le> lastIdx then getRange (db n) nxt lastIdx else []),
                     ae_leaderCommit = commitIndex n\<rparr>))))"

definition sendAppendEntriesTo :: "string \<Rightarrow> node \<Rightarrow> node" where
  "sendAppendEntriesTo p n =
     (case appendRequest n p of None \<Rightarrow> n | Some c \<Rightarrow> send p c n)"

definition sendAppendEntriesToAll :: "node \<Rightarrow> node" where
  "sendAppendEntriesToAll n =
     (if role n \<noteq> LEADER then n else fold sendAppendEntriesTo (peers n) n)"

subsection \<open>The commit rule\<close>

definition replica_count :: "node \<Rightarrow> int \<Rightarrow> int" where
  "replica_count n i = 1 + int (length (filter (\<lambda>p. match_of n p \<ge> i) (peers n)))"

definition committable :: "node \<Rightarrow> int \<Rightarrow> bool" where
  "committable n i =
     (case getEntry (db n) i of
        None \<Rightarrow> False
      | Some e \<Rightarrow> e_term e = currentTerm n \<and> replica_count n i \<ge> majority n)"

text \<open>The downward scan from the last index, ending at the commit index.\<close>

function commit_scan :: "node \<Rightarrow> int \<Rightarrow> int option" where
  "commit_scan n i =
     (if i > commitIndex n then
        (if committable n i then Some i else commit_scan n (i - 1))
      else None)"
  by pat_completeness auto
termination
  by (relation "measure (\<lambda>(n, i). nat (i - commitIndex n))") auto

declare commit_scan.simps [simp del]

definition maybeAdvanceCommitIndex :: "node \<Rightarrow> node" where
  "maybeAdvanceCommitIndex n =
     (if role n \<noteq> LEADER then n
      else (case commit_scan n (lastIndex (db n)) of
              None \<Rightarrow> n
            | Some i \<Rightarrow> emit (CommitEv i) (applyCommitted (n\<lparr>commitIndex := i\<rparr>))))"

subsection \<open>Answers to replication calls\<close>

definition appendReply :: "string \<Rightarrow> append_entries \<Rightarrow> append_reply \<Rightarrow> node \<Rightarrow> node" where
  "appendReply p r b n =
     (if stopped n \<or> role n \<noteq> LEADER then n
      else if ar_term b > currentTerm n then becomeFollower (ar_term b) None n
      else if ar_success b then
        (let newMatch = (if ae_entries r \<noteq> [] then e_index (last (ae_entries r))
                         else ae_prevLogIndex r)
         in maybeAdvanceCommitIndex
              (n\<lparr>matchIndex := map_set p newMatch (matchIndex n),
                 nextIndex := map_set p (newMatch + 1) (nextIndex n)\<rparr>))
      else
        (let nxt = ae_prevLogIndex r + 1
         in n\<lparr>nextIndex := map_set p (max 0 (nxt - 1)) (nextIndex n)\<rparr>))"

definition snapshotReply :: "string \<Rightarrow> install_snapshot \<Rightarrow> int \<Rightarrow> node \<Rightarrow> node" where
  "snapshotReply p r t n =
     (if stopped n \<or> role n \<noteq> LEADER then n
      else if t > currentTerm n then becomeFollower t None n
      else n\<lparr>matchIndex := map_set p (is_lastIncludedIndex r) (matchIndex n),
             nextIndex := map_set p (is_lastIncludedIndex r + 1) (nextIndex n)\<rparr>)"

subsection \<open>Elections\<close>

definition becomeLeader :: "node \<Rightarrow> node" where
  "becomeLeader n =
     (let n1 = (clearElectionTimer n)\<lparr>role := LEADER, leaderId := Some (replicaId n)\<rparr>;
          last = lastIndex (db n1);
          n2 = n1\<lparr>nextIndex := fold (\<lambda>p. map_set p (last + 1)) (peers n1) [],
                  matchIndex := fold (\<lambda>p. map_set p (-1)) (peers n1) []\<rparr>;
          n3 = emit (RoleEv LEADER) n2;
          n4 = fst (appendLocal NOOP None n3);
          n5 = sendAppendEntriesToAll n4
      in n5\<lparr>heartbeatTimer := Some (heartbeatMs (config n5))\<rparr>)"

definition startElection :: "node \<Rightarrow> node" where
  "startElection n =
     (let n1 = resetElectionTimer (becomeCandidate n)
      in broadcast (VoteCall
           \<lparr>rv_term = currentTerm n1, rv_candidateId = replicaId n1,
            rv_lastLogIndex = lastIndex (db n1), rv_lastLogTerm = lastTerm (db n1)\<rparr>) n1)"

text \<open>
  The loop over the results of the broadcast: \<open>None\<close> is a call that failed.  It ends early, with
  the node stepped down, at an answer from a newer term.
\<close>

fun tally :: "node \<Rightarrow> int \<Rightarrow> vote_reply option list \<Rightarrow> node + int" where
  "tally n votes [] = Inr votes"
| "tally n votes (None # rs) = tally n votes rs"
| "tally n votes (Some b # rs) =
     (if vr_term b > currentTerm n then Inl (becomeFollower (vr_term b) None n)
      else tally n (if vr_granted b then votes + 1 else votes) rs)"

definition electionResults :: "int \<Rightarrow> vote_reply option list \<Rightarrow> node \<Rightarrow> node" where
  "electionResults termAtStart results n =
     (if stopped n \<or> role n \<noteq> CANDIDATE \<or> currentTerm n \<noteq> termAtStart then n
      else (case tally n 1 results of
              Inl n' \<Rightarrow> n'
            | Inr votes \<Rightarrow> if votes \<ge> majority n then becomeLeader n else n))"


subsection \<open>What sending changes\<close>

lemma appendRequest_outbox [simp]: "appendRequest (n\<lparr>outbox := x\<rparr>) p = appendRequest n p"
  by (simp add: appendRequest_def next_of_def snapshotRequest_def Let_def split: option.splits)

definition requests :: "node \<Rightarrow> (string \<times> call) list" where
  "requests n = concat (map (\<lambda>p. case appendRequest n p of None \<Rightarrow> [] | Some c \<Rightarrow> [(p, c)]) (peers n))"

lemma sendAppendEntriesTo_eq:
  "sendAppendEntriesTo p n =
     n\<lparr>outbox := outbox n @ (case appendRequest n p of None \<Rightarrow> [] | Some c \<Rightarrow> [(p, c)])\<rparr>"
  by (simp add: sendAppendEntriesTo_def send_def split: option.split)

lemma fold_sendAppendEntriesTo:
  "fold sendAppendEntriesTo ps n = n\<lparr>outbox := outbox n @
     concat (map (\<lambda>p. case appendRequest n p of None \<Rightarrow> [] | Some c \<Rightarrow> [(p, c)]) ps)\<rparr>"
  by (induction ps arbitrary: n) (simp_all add: sendAppendEntriesTo_eq)

lemma sendAppendEntriesToAll_eq: "sendAppendEntriesToAll n = n\<lparr>outbox := outbox n @ requests n\<rparr>"
proof (cases "role n = LEADER")
  case False
  then have "requests n = []" by (simp add: requests_def appendRequest_def)
  with False show ?thesis by (simp add: sendAppendEntriesToAll_def)
qed (simp add: sendAppendEntriesToAll_def requests_def fold_sendAppendEntriesTo)

lemma frame_sendAppendEntriesToAll [node_frame]:
  "replicaId (sendAppendEntriesToAll n) = replicaId n"
  "peers (sendAppendEntriesToAll n) = peers n"
  "config (sendAppendEntriesToAll n) = config n"
  "db (sendAppendEntriesToAll n) = db n"
  "sm (sendAppendEntriesToAll n) = sm n"
  "role (sendAppendEntriesToAll n) = role n"
  "leaderId (sendAppendEntriesToAll n) = leaderId n"
  "commitIndex (sendAppendEntriesToAll n) = commitIndex n"
  "currentTerm (sendAppendEntriesToAll n) = currentTerm n"
  "votedFor (sendAppendEntriesToAll n) = votedFor n"
  "nextIndex (sendAppendEntriesToAll n) = nextIndex n"
  "matchIndex (sendAppendEntriesToAll n) = matchIndex n"
  "electionTimer (sendAppendEntriesToAll n) = electionTimer n"
  "heartbeatTimer (sendAppendEntriesToAll n) = heartbeatTimer n"
  "stopped (sendAppendEntriesToAll n) = stopped n"
  "emitted (sendAppendEntriesToAll n) = emitted n"
  by (simp_all add: sendAppendEntriesToAll_eq)

lemma frame_appendLocal [node_frame]:
  "replicaId (fst (appendLocal ty p n)) = replicaId n"
  "peers (fst (appendLocal ty p n)) = peers n"
  "config (fst (appendLocal ty p n)) = config n"
  "sm (fst (appendLocal ty p n)) = sm n"
  "role (fst (appendLocal ty p n)) = role n"
  "leaderId (fst (appendLocal ty p n)) = leaderId n"
  "commitIndex (fst (appendLocal ty p n)) = commitIndex n"
  "currentTerm (fst (appendLocal ty p n)) = currentTerm n"
  "votedFor (fst (appendLocal ty p n)) = votedFor n"
  "nextIndex (fst (appendLocal ty p n)) = nextIndex n"
  "matchIndex (fst (appendLocal ty p n)) = matchIndex n"
  "electionTimer (fst (appendLocal ty p n)) = electionTimer n"
  "heartbeatTimer (fst (appendLocal ty p n)) = heartbeatTimer n"
  "stopped (fst (appendLocal ty p n)) = stopped n"
  "emitted (fst (appendLocal ty p n)) = emitted n"
  "outbox (fst (appendLocal ty p n)) = outbox n"
  "db (fst (appendLocal ty p n)) = appendEntries [snd (appendLocal ty p n)] (db n)"
  "snd (appendLocal ty p n) =
     \<lparr>e_index = lastIndex (db n) + 1, e_term = currentTerm n, e_type = ty, e_payload = p\<rparr>"
  by (simp_all add: appendLocal_def Let_def)

lemma frame_becomeLeader [node_frame]:
  "replicaId (becomeLeader n) = replicaId n"
  "peers (becomeLeader n) = peers n"
  "config (becomeLeader n) = config n"
  "sm (becomeLeader n) = sm n"
  "role (becomeLeader n) = LEADER"
  "leaderId (becomeLeader n) = Some (replicaId n)"
  "commitIndex (becomeLeader n) = commitIndex n"
  "currentTerm (becomeLeader n) = currentTerm n"
  "votedFor (becomeLeader n) = votedFor n"
  "electionTimer (becomeLeader n) = None"
  "heartbeatTimer (becomeLeader n) = Some (heartbeatMs (config n))"
  "stopped (becomeLeader n) = stopped n"
  "nextIndex (becomeLeader n) = fold (\<lambda>p. map_set p (lastIndex (db n) + 1)) (peers n) []"
  "matchIndex (becomeLeader n) = fold (\<lambda>p. map_set p (-1)) (peers n) []"
  "emitted (becomeLeader n) = emitted n @ [RoleEv LEADER]"
  "db (becomeLeader n) = appendEntries [\<lparr>e_index = lastIndex (db n) + 1, e_term = currentTerm n,
     e_type = NOOP, e_payload = None\<rparr>] (db n)"
  by (simp_all add: becomeLeader_def Let_def node_frame clearElectionTimer_def emit_def)

lemma frame_maybeAdvance [node_frame]:
  "replicaId (maybeAdvanceCommitIndex n) = replicaId n"
  "peers (maybeAdvanceCommitIndex n) = peers n"
  "config (maybeAdvanceCommitIndex n) = config n"
  "role (maybeAdvanceCommitIndex n) = role n"
  "leaderId (maybeAdvanceCommitIndex n) = leaderId n"
  "currentTerm (maybeAdvanceCommitIndex n) = currentTerm n"
  "votedFor (maybeAdvanceCommitIndex n) = votedFor n"
  "nextIndex (maybeAdvanceCommitIndex n) = nextIndex n"
  "matchIndex (maybeAdvanceCommitIndex n) = matchIndex n"
  "stopped (maybeAdvanceCommitIndex n) = stopped n"
  "outbox (maybeAdvanceCommitIndex n) = outbox n"
  "current_term (db (maybeAdvanceCommitIndex n)) = current_term (db n)"
  "voted_for (db (maybeAdvanceCommitIndex n)) = voted_for (db n)"
  by (simp_all add: maybeAdvanceCommitIndex_def node_frame split: option.split)

lemma maybeAdvance_db:
  "db_ok (db n) \<Longrightarrow> db_ok (db (maybeAdvanceCommitIndex n))"
  "set (log_entries (db (maybeAdvanceCommitIndex n))) \<subseteq> set (log_entries (db n))"
  using applyCommitted_db(1,5)[of "n\<lparr>commitIndex := i\<rparr>" for i]
  by (auto simp: maybeAdvanceCommitIndex_def node_frame split: option.split)


subsection \<open>Terms, votes and the log\<close>

lemma vote_le_maybeAdvance: "vote_le n (maybeAdvanceCommitIndex n)"
  by (simp add: vote_le_def node_frame)

lemma appendReply_vote_le: "vote_le n (appendReply p r b n)"
  using vote_le_maybeAdvance vote_le_becomeFollower
  by (auto simp: appendReply_def Let_def vote_le_def node_frame)

lemma snapshotReply_vote_le: "vote_le n (snapshotReply p r t n)"
  by (auto simp: snapshotReply_def vote_le_def node_frame)

lemma becomeLeader_vote_le: "vote_le n (becomeLeader n)"
  by (simp add: vote_le_def node_frame)

lemma startElection_facts [node_frame]:
  "replicaId (startElection n) = replicaId n"
  "peers (startElection n) = peers n"
  "role (startElection n) = CANDIDATE"
  "currentTerm (startElection n) = currentTerm n + 1"
  "votedFor (startElection n) = Some (replicaId n)"
  "db (startElection n) = saveTermAndVote (currentTerm n + 1) (Some (replicaId n)) (db n)"
  "commitIndex (startElection n) = commitIndex n"
  "sm (startElection n) = sm n"
  "stopped (startElection n) = stopped n"
  "nextIndex (startElection n) = nextIndex n"
  "matchIndex (startElection n) = matchIndex n"
  "config (startElection n) = config n"
  "outbox (startElection n) = outbox n @ map (\<lambda>p. (p, VoteCall
     \<lparr>rv_term = currentTerm n + 1, rv_candidateId = replicaId n,
      rv_lastLogIndex = lastIndex (db n), rv_lastLogTerm = lastTerm (db n)\<rparr>)) (peers n)"
  by (simp_all add: startElection_def Let_def node_frame broadcast_eq db_simps)

lemma startElection_vote_le: "vote_le n (startElection n)"
  by (simp add: vote_le_def node_frame)

lemma tally_cases:
  "tally n v rs = (case find (\<lambda>b. vr_term b > currentTerm n) (answers rs) of
     Some b \<Rightarrow> Inl (becomeFollower (vr_term b) None n)
   | None \<Rightarrow> Inr (v + int (length (filter vr_granted (answers rs)))))"
  by (induction n v rs rule: tally.induct) (auto split: option.splits)

lemma electionResults_cases:
  obtains (ignored) "stopped n \<or> role n \<noteq> CANDIDATE \<or> currentTerm n \<noteq> t"
      "electionResults t rs n = n"
  | (newer) b where "\<not> stopped n" "role n = CANDIDATE" "currentTerm n = t"
      "Some b \<in> set rs" "currentTerm n < vr_term b"
      "electionResults t rs n = becomeFollower (vr_term b) None n"
  | (lost) "\<not> stopped n" "role n = CANDIDATE" "currentTerm n = t"
      "\<forall>b. Some b \<in> set rs \<longrightarrow> vr_term b \<le> currentTerm n"
      "1 + int (length (filter vr_granted (answers rs))) < majority n"
      "electionResults t rs n = n"
  | (won) "\<not> stopped n" "role n = CANDIDATE" "currentTerm n = t"
      "\<forall>b. Some b \<in> set rs \<longrightarrow> vr_term b \<le> currentTerm n"
      "majority n \<le> 1 + int (length (filter vr_granted (answers rs)))"
      "electionResults t rs n = becomeLeader n"
proof -
  consider (g) "stopped n \<or> role n \<noteq> CANDIDATE \<or> currentTerm n \<noteq> t"
    | (f) b where "\<not> (stopped n \<or> role n \<noteq> CANDIDATE \<or> currentTerm n \<noteq> t)"
        "find (\<lambda>b. vr_term b > currentTerm n) (answers rs) = Some b"
    | (n) "\<not> (stopped n \<or> role n \<noteq> CANDIDATE \<or> currentTerm n \<noteq> t)"
        "find (\<lambda>b. vr_term b > currentTerm n) (answers rs) = None"
    by fastforce
  then show ?thesis
  proof cases
    case g
    then show ?thesis by (intro ignored) (auto simp: electionResults_def)
  next
    case (f b)
    then have "b \<in> set (answers rs)" and gt: "currentTerm n < vr_term b"
      by (auto simp: find_split simp del: set_answers)
    then have "Some b \<in> set rs" by simp
    with gt f show ?thesis by (intro newer[of b]) (simp_all add: electionResults_def tally_cases)
  next
    case n
    then have le: "\<forall>b. Some b \<in> set rs \<longrightarrow> vr_term b \<le> currentTerm n"
      by (auto simp: find_None_iff not_less)
    show ?thesis
    proof (cases "majority n \<le> 1 + int (length (filter vr_granted (answers rs)))")
      case True
      with n le show ?thesis by (intro won) (auto simp: electionResults_def tally_cases)
    next
      case False
      with n le show ?thesis by (intro lost) (auto simp: electionResults_def tally_cases)
    qed
  qed
qed

lemma electionResults_vote_le: "vote_le n (electionResults t rs n)"
  by (cases rule: electionResults_cases[where n = n and t = t and rs = rs]) (simp_all add: becomeLeader_vote_le vote_le_becomeFollower)

lemma leader_durable:
  "durable n \<Longrightarrow> durable (appendReply p r b n)"
  "durable n \<Longrightarrow> durable (snapshotReply p q t n)"
  "durable n \<Longrightarrow> durable (becomeLeader n)"
  "durable n \<Longrightarrow> durable (startElection n)"
  "durable n \<Longrightarrow> durable (electionResults t rs n)"
  "durable n \<Longrightarrow> durable (sendAppendEntriesToAll n)"
proof -
  show bl: "durable n \<Longrightarrow> durable (becomeLeader n)"
    by (simp add: durable_def node_frame db_simps)
  show "durable n \<Longrightarrow> durable (electionResults t rs n)"
    by (cases rule: electionResults_cases[where n = n and t = t and rs = rs]) (auto intro: bl)
qed (auto simp: durable_def appendReply_def snapshotReply_def Let_def node_frame db_simps)

lemma leader_db_ok:
  "db_ok (db n) \<Longrightarrow> db_ok (db (appendReply p r b n))"
  "db_ok (db n) \<Longrightarrow> db_ok (db (snapshotReply p q t n))"
  "db_ok (db n) \<Longrightarrow> db_ok (db (becomeLeader n))"
  "db_ok (db n) \<Longrightarrow> db_ok (db (startElection n))"
  "db_ok (db n) \<Longrightarrow> db_ok (db (electionResults t rs n))"
proof -
  show bl: "db_ok (db n) \<Longrightarrow> db_ok (db (becomeLeader n))"
    by (simp add: node_frame db_ok_ops)
  show "db_ok (db n) \<Longrightarrow> db_ok (db (electionResults t rs n))"
    by (cases rule: electionResults_cases[where n = n and t = t and rs = rs]) (auto simp: node_frame intro: bl)
qed (auto simp: appendReply_def snapshotReply_def Let_def node_frame intro!: maybeAdvance_db)

lemma appendReply_log_source:
  "set (log_entries (db (appendReply p r b n))) \<subseteq> set (log_entries (db n))"
  using maybeAdvance_db(2)[of "n\<lparr>matchIndex := m, nextIndex := x\<rparr>" for m x]
  by (auto simp: appendReply_def Let_def node_frame db_simps)


lemma handleAppendEntries_term: "ar_term (snd (handleAppendEntries r n)) = max (currentTerm n) (ae_term r)"
  by (auto simp: handleAppendEntries_def node_frame Let_def)

subsection \<open>The commit scan\<close>

lemma commit_scan_None:
  "commit_scan n i = None \<longleftrightarrow> (\<forall>j. commitIndex n < j \<and> j \<le> i \<longrightarrow> \<not> committable n j)"
proof (induction n i rule: commit_scan.induct)
  case (1 n i)
  have split: "commitIndex n < j \<and> j \<le> i \<longleftrightarrow> j = i \<or> commitIndex n < j \<and> j \<le> i - 1"
    if "commitIndex n < i" for j using that by auto
  show ?case
  proof (cases "commitIndex n < i \<and> \<not> committable n i")
    case True
    with 1 have "commit_scan n i = None \<longleftrightarrow>
        (\<forall>j. commitIndex n < j \<and> j \<le> i - 1 \<longrightarrow> \<not> committable n j)"
      by (simp add: commit_scan.simps[of n i])
    with True split show ?thesis by metis
  next
    case False
    then show ?thesis by (auto simp: commit_scan.simps[of n i])
  qed
qed

lemma commit_scan_Some:
  "commit_scan n i = Some k \<Longrightarrow>
   commitIndex n < k \<and> k \<le> i \<and> committable n k \<and> (\<forall>j. k < j \<and> j \<le> i \<longrightarrow> \<not> committable n j)"
proof (induction n i rule: commit_scan.induct)
  case (1 n i)
  show ?case
  proof (cases "commitIndex n < i \<and> \<not> committable n i")
    case True
    with 1 have "commitIndex n < k \<and> k \<le> i - 1 \<and> committable n k \<and>
        (\<forall>j. k < j \<and> j \<le> i - 1 \<longrightarrow> \<not> committable n j)"
      by (simp add: commit_scan.simps[of n i])
    moreover have "\<not> committable n j" if "j \<le> i" "\<not> j \<le> i - 1" for j
      using that True by (cases "j = i") auto
    ultimately show ?thesis by (metis zle_diff1_eq order_less_imp_le)
  next
    case False
    with "1.prems" show ?thesis by (auto simp: commit_scan.simps[of n i] split: if_splits)
  qed
qed

lemma committable_bound:
  "log_sorted (db n) \<Longrightarrow> committable n j \<Longrightarrow> j \<le> lastIndex (db n)"
  by (auto simp: committable_def getEntry_iff entry_bounds split: option.splits)

lemma committable_majority: "committable n i \<Longrightarrow> 2 * replica_count n i > int (length (peers n)) + 1"
  by (auto simp: committable_def majority_def split: option.splits)

lemma maybeAdvance_cases:
  obtains (no) "role n \<noteq> LEADER \<or> (\<forall>j. commitIndex n < j \<and> j \<le> lastIndex (db n) \<longrightarrow> \<not> committable n j)"
      "maybeAdvanceCommitIndex n = n"
  | (yes) k where "role n = LEADER" "commitIndex n < k" "k \<le> lastIndex (db n)" "committable n k"
      "\<forall>j. k < j \<and> j \<le> lastIndex (db n) \<longrightarrow> \<not> committable n j"
      "maybeAdvanceCommitIndex n = emit (CommitEv k) (applyCommitted (n\<lparr>commitIndex := k\<rparr>))"
proof (cases "role n = LEADER")
  case False
  then show ?thesis by (intro no) (simp_all add: maybeAdvanceCommitIndex_def)
next
  case True
  show ?thesis
  proof (cases "commit_scan n (lastIndex (db n))")
    case None
    then have "maybeAdvanceCommitIndex n = n" by (simp add: maybeAdvanceCommitIndex_def)
    with None show ?thesis by (intro no disjI2) (simp_all only: commit_scan_None)
  next
    case (Some k)
    with True commit_scan_Some[OF Some] show ?thesis
      by (intro yes[of k]) (auto simp: maybeAdvanceCommitIndex_def)
  qed
qed

lemma maybeAdvance_commitIndex: "commitIndex n \<le> commitIndex (maybeAdvanceCommitIndex n)"
  by (cases n rule: maybeAdvance_cases) (auto simp: node_frame)

subsection \<open>Properties\<close>

text \<open>
  C11: the commit rule of the leader.  The commit index moves only forward and only to the largest
  index above it that holds an entry of the leader's own term and that more than half of the cluster,
  the leader included, is recorded to hold; then the entries that follow the applied ones are applied in
  order, up to the new commit index or to the first index that the log does not hold, and the commit
  is announced.  When there is no such index nothing changes.
\<close>

theorem commit_rule:
  assumes "role n = LEADER" "log_sorted (db n)"
  defines "n' \<equiv> maybeAdvanceCommitIndex n"
  shows "(n' = n \<and> (\<forall>j > commitIndex n. \<not> committable n j))
       \<or> (commitIndex n < commitIndex n'
        \<and> (\<exists>e. getEntry (db n) (commitIndex n') = Some e \<and> e_term e = currentTerm n)
        \<and> 2 * replica_count n (commitIndex n') > int (length (peers n)) + 1
        \<and> (\<forall>j > commitIndex n'. \<not> committable n j)
        \<and> sm n' = apply_log (getRange (db n) (lastApplied (sm n) + 1) (lastApplied (sm n'))) (sm n)
        \<and> lastApplied (sm n') \<le> max (lastApplied (sm n)) (commitIndex n')
        \<and> (commitIndex n' \<le> lastApplied (sm n') \<or> getEntry (db n) (lastApplied (sm n') + 1) = None)
        \<and> emitted n' = emitted n @ map AppliedEv (getRange (db n) (lastApplied (sm n) + 1)
            (lastApplied (sm n'))) @ [CommitEv (commitIndex n')])"
proof (cases n rule: maybeAdvance_cases)
  case no
  then show ?thesis
    using committable_bound[OF assms(2)] assms(1) unfolding n'_def by blast
next
  case (yes k)
  let ?m = "n\<lparr>commitIndex := k\<rparr>"
  note sp = apply_loop_spec[of ?m, simplified, OF assms(2)]
  have n': "commitIndex n' = k" "sm n' = sm (apply_loop ?m)"
      "emitted n' = emitted (apply_loop ?m) @ [CommitEv k]"
    using yes(6) by (simp_all add: n'_def node_frame sm_applyCommitted)
      (simp add: emit_def applyCommitted_def node_frame)
  have "\<forall>j > k. \<not> committable n j"
    using yes(5) committable_bound[OF assms(2)] by blast
  moreover have "\<exists>e. getEntry (db n) k = Some e \<and> e_term e = currentTerm n"
    using yes(4) by (auto simp: committable_def split: option.splits)
  moreover note committable_majority[OF yes(4)] yes(2) sp
  ultimately show ?thesis by (intro disjI2) (simp add: n')
qed

text \<open>A leader of term 2 with two peers, one of which has acknowledged everything.\<close>

definition demo_leader :: node where
  "demo_leader = demo_node\<lparr>role := LEADER, nextIndex := [(''n2'', 4), (''n3'', 4)],
     matchIndex := [(''n2'', 3), (''n3'', -1)]\<rparr>"

lemma demo_leader_facts:
  "currentTerm demo_leader = 2" "role demo_leader = LEADER" "peers demo_leader = [''n2'', ''n3'']"
  "log_entries (db demo_leader) = demo_log" "db_ok (db demo_leader)" "commitIndex demo_leader = -1"
  "last_snapshot_index (db demo_leader) = -1" "log_sorted (db demo_leader)"
  "nextIndex demo_leader = [(''n2'', 4), (''n3'', 4)]" "\<not> stopped demo_leader"
  "matchIndex demo_leader = [(''n2'', 3), (''n3'', -1)]" "replicaId demo_leader = ''n1''"
  using demo_node_facts(5)
  by (simp_all add: demo_leader_def demo_node_facts db_ok_def) (simp_all add: demo_node_def new_node_def)

lemma demo_committable: "committable demo_leader 3"
  by (simp add: committable_def getEntry_demo demo_leader_facts replica_count_def match_of_def majority_def)

theorem commit_rule_witness:
  "commitIndex (maybeAdvanceCommitIndex demo_leader) = 3"
proof -
  have top: "j \<le> 3" if "committable demo_leader j" for j
    using committable_bound[OF demo_leader_facts(8) that] by (simp add: getEntry_demo demo_leader_facts)
  from commit_rule[OF demo_leader_facts(2,8)]
  consider "\<forall>j > -1. \<not> committable demo_leader j"
    | e where "getEntry (db demo_leader) (commitIndex (maybeAdvanceCommitIndex demo_leader)) = Some e"
        "\<forall>j > commitIndex (maybeAdvanceCommitIndex demo_leader). \<not> committable demo_leader j"
    by (auto simp: demo_leader_facts)
  then show ?thesis
  proof cases
    case 1
    with demo_committable show ?thesis by simp
  next
    case (2 e)
    then have "commitIndex (maybeAdvanceCommitIndex demo_leader) \<le> 3"
      by (simp add: getEntry_demo[OF demo_leader_facts(4)] split: if_splits)
    with 2 demo_committable show ?thesis by force
  qed
qed


text \<open>
  C17: who wins an election.  The results of a vote round count only while the node is still the
  running candidate of that term; then it becomes leader exactly when no answer is from a newer term
  and its own vote with the granted ones is more than half of the cluster.  An answer from a newer
  term makes it a follower of a newer term that has not voted; otherwise nothing changes.
\<close>

theorem election_outcome:
  defines "live n t \<equiv> \<not> stopped n \<and> role n = CANDIDATE \<and> currentTerm n = t"
    and "newer rs t \<equiv> \<exists>b. Some b \<in> set rs \<and> vr_term b > t"
    and "wins n rs \<equiv> 2 * (1 + int (length (filter vr_granted (answers rs)))) > int (length (peers n)) + 1"
  shows "(role (electionResults t rs n) = LEADER \<longleftrightarrow>
            role n = LEADER \<or> live n t \<and> \<not> newer rs t \<and> wins n rs)
       \<and> (live n t \<and> newer rs t \<longrightarrow> role (electionResults t rs n) = FOLLOWER
            \<and> t < currentTerm (electionResults t rs n) \<and> votedFor (electionResults t rs n) = None)
       \<and> (\<not> live n t \<or> \<not> newer rs t \<and> \<not> wins n rs \<longrightarrow> electionResults t rs n = n)"
proof -
  have maj: "majority n \<le> 1 + k \<longleftrightarrow> 2 * (1 + k) > int (length (peers n)) + 1" for k
    unfolding majority_def by presburger
  show ?thesis
  proof (cases rule: electionResults_cases[where n = n and t = t and rs = rs])
    case ignored
    then show ?thesis by (auto simp: live_def)
  next
    case (newer b)
    then show ?thesis by (auto simp: live_def newer_def node_frame)
  next
    case lost
    then have "\<not> wins n rs" "\<not> newer rs t" by (auto simp: wins_def newer_def maj not_less simp flip: not_le)
    with lost show ?thesis by (simp add: live_def)
  next
    case won
    then have "wins n rs" "\<not> newer rs t" by (auto simp: wins_def newer_def maj not_less)
    with won show ?thesis by (simp add: live_def node_frame)
  qed
qed

definition demo_candidate :: node where
  "demo_candidate = demo_node\<lparr>role := CANDIDATE, votedFor := Some ''n1''\<rparr>"

theorem election_outcome_witness:
  "role (electionResults 2 [None, Some \<lparr>vr_term = 2, vr_granted = True\<rparr>] demo_candidate) = LEADER"
  using election_outcome[of 2 "[None, Some \<lparr>vr_term = 2, vr_granted = True\<rparr>]" demo_candidate]
  by (simp add: demo_candidate_def demo_node_facts) (simp add: demo_node_def new_node_def)

lemma map_get_fold_set:
  "map_get (fold (\<lambda>p. map_set p v) ps m) q = (if q \<in> set ps then Some v else map_get m q)"
  by (induction ps arbitrary: m) (auto simp: update_conv')

text \<open>
  Taking office.  A new leader appends one NOOP of its term after everything it holds,
  expects every peer to hold nothing known and to be sent that entry next, and its first call to every
  peer carries exactly the NOOP, after its old last index.
\<close>

theorem leader_takes_office:
  assumes "log_sorted (db n)" "\<not> stopped n"
  defines "l \<equiv> lastIndex (db n)"
    and "noop \<equiv> \<lparr>e_index = lastIndex (db n) + 1, e_term = currentTerm n, e_type = NOOP, e_payload = None\<rparr>"
    and "n' \<equiv> becomeLeader n"
  shows "log_entries (db n') = log_entries (db n) @ [noop]
       \<and> lastIndex (db n') = l + 1 \<and> commitIndex n' = commitIndex n
       \<and> (\<forall>p \<in> set (peers n). next_of n' p = l + 1 \<and> match_of n' p = -1
            \<and> (\<exists>r. (p, AppendCall r) \<in> set (outbox n') \<and> ae_term r = currentTerm n
                 \<and> ae_prevLogIndex r = l \<and> ae_entries r = [noop] \<and> ae_leaderCommit r = commitIndex n))"
proof -
  have ix: "e_index noop = l + 1" by (simp add: noop_def l_def)
  have log: "log_entries (db n') = log_entries (db n) @ [noop]"
    using log_entries_append_last[OF assms(1), of noop] ix by (simp add: n'_def node_frame l_def flip: noop_def)
  then have last: "lastIndex (db n') = l + 1" by (simp add: lastIndex_def ix)
  have srt: "log_sorted (db n')"
    using log_sorted_ops(1)[OF assms(1)] by (simp add: n'_def node_frame)
  have get: "getEntry (db n') (l + 1) = Some noop"
    using srt by (simp add: getEntry_iff log ix)
  have first: "firstIndex (db n') \<le> l + 1" using entry_bounds(1)[OF srt, of noop] by (simp add: log ix)
  have range: "getRange (db n') (l + 1) (l + 1) = [noop]"
    using getRange_Cons[OF srt get order_refl] by (simp add: getRange_empty)
  have "next_of n' p = l + 1 \<and> match_of n' p = -1
      \<and> (\<exists>r. (p, AppendCall r) \<in> set (outbox n') \<and> ae_term r = currentTerm n
           \<and> ae_prevLogIndex r = l \<and> ae_entries r = [noop] \<and> ae_leaderCommit r = commitIndex n)"
    if p: "p \<in> set (peers n)" for p
  proof -
    have nm: "next_of n' p = l + 1" "match_of n' p = -1"
      using p by (simp_all add: next_of_def match_of_def n'_def node_frame map_get_fold_set l_def)
    moreover have "\<not> stopped n'" "role n' = LEADER" "currentTerm n' = currentTerm n" "commitIndex n' = commitIndex n"
      using assms(2) by (simp_all add: n'_def node_frame)
    ultimately obtain r where r: "appendRequest n' p = Some (AppendCall r)" "ae_term r = currentTerm n"
        "ae_prevLogIndex r = l" "ae_entries r = [noop]" "ae_leaderCommit r = commitIndex n"
      using first range by (simp add: appendRequest_def last)
    have "(p, AppendCall r) \<in> set (requests n')"
      using r(1) p by (force simp: requests_def n'_def node_frame)
    moreover have "set (requests n') \<subseteq> set (outbox n')"
    proof -
      obtain m x y where "n' = (sendAppendEntriesToAll m)\<lparr>heartbeatTimer := x\<rparr>" "y = requests m"
        by (simp add: n'_def becomeLeader_def Let_def)
      moreover have "appendRequest (m\<lparr>outbox := u, heartbeatTimer := v\<rparr>) = appendRequest m" for m u v
        by (simp add: fun_eq_iff appendRequest_def next_of_def snapshotRequest_def Let_def split: option.splits)
      then have "requests (m\<lparr>outbox := u, heartbeatTimer := v\<rparr>) = requests m" for m u v
        by (simp add: requests_def)
      ultimately show ?thesis by (auto simp: sendAppendEntriesToAll_eq)
    qed
    ultimately show ?thesis using r nm by blast
  qed
  with log last show ?thesis by (simp add: n'_def node_frame)
qed

theorem leader_takes_office_witness:
  "lastIndex (db (becomeLeader demo_candidate)) = 4 \<and> next_of (becomeLeader demo_candidate) ''n3'' = 4"
proof -
  have "log_sorted (db demo_candidate)" "\<not> stopped demo_candidate"
    "peers demo_candidate = [''n2'', ''n3'']" "lastIndex (db demo_candidate) = 3"
    using demo_leader_facts(8,10,3) getEntry_demo(2)[OF demo_leader_facts(4)]
    by (simp_all add: demo_leader_def demo_candidate_def)
  with leader_takes_office[of demo_candidate] show ?thesis by simp
qed


lemma replication_request_faithful_aux:
  assumes "appendRequest n p = Some (AppendCall r)" "log_sorted (db n)"
  shows "role n = LEADER \<and> \<not> stopped n \<and> firstIndex (db n) \<le> next_of n p
       \<and> ae_term r = currentTerm n \<and> ae_leaderId r = replicaId n \<and> ae_leaderCommit r = commitIndex n
       \<and> ae_prevLogIndex r = next_of n p - 1
       \<and> sorted_wrt (<) (map e_index (ae_entries r))
       \<and> set (ae_entries r) = {e. \<exists>i \<ge> next_of n p. getEntry (db n) i = Some e}
       \<and> (0 \<le> ae_prevLogIndex r \<and> ae_prevLogIndex r = last_snapshot_index (db n) \<longrightarrow>
            ae_prevLogTerm r = last_snapshot_term (db n))
       \<and> (0 \<le> ae_prevLogIndex r \<and> ae_prevLogIndex r \<noteq> last_snapshot_index (db n) \<longrightarrow>
            (\<forall>e. getEntry (db n) (ae_prevLogIndex r) = Some e \<longrightarrow> ae_prevLogTerm r = e_term e))"
proof -
  let ?i = "next_of n p"
  have guards: "role n = LEADER" "\<not> stopped n" "\<not> ?i < firstIndex (db n)"
    using assms(1) by (auto simp: appendRequest_def snapshotRequest_def Let_def split: if_splits option.splits)
  then have r: "r = \<lparr>ae_term = currentTerm n, ae_leaderId = replicaId n,
       ae_prevLogIndex = ?i - 1, ae_prevLogTerm = prev_term (db n) (?i - 1),
       ae_entries = (if ?i \<le> lastIndex (db n) then getRange (db n) ?i (lastIndex (db n)) else []),
       ae_leaderCommit = commitIndex n\<rparr>"
    using assms(1) by (simp add: appendRequest_def Let_def)
  have "set (ae_entries r) = {e. \<exists>i \<ge> ?i. getEntry (db n) i = Some e}"
    using entry_bounds(2)[OF assms(2)]
    by (fastforce simp: r getRange_def getEntry_iff[OF assms(2)])
  moreover have "sorted_wrt (<) (map e_index (ae_entries r))"
    using assms(2) by (simp add: r getRange_def log_sorted_def sorted_wrt_filter_key)
  ultimately show ?thesis
    using guards by (simp add: r prev_term_def loadMeta_def Let_def)
qed

text \<open>
  What a leader sends.  A replication call is made only by a running leader, under its own
  term and commit index, and carries exactly the entries it holds from the peer's next index on, in
  order, with the position before them and the term it knows there: that of its snapshot at the
  snapshot's index, else that of its own entry.
\<close>

theorem replication_request_faithful:
  assumes "appendRequest n p = Some (AppendCall r)" "log_sorted (db n)"
  shows "role n = LEADER \<and> \<not> stopped n \<and> firstIndex (db n) \<le> next_of n p
       \<and> ae_term r = currentTerm n \<and> ae_leaderId r = replicaId n \<and> ae_leaderCommit r = commitIndex n
       \<and> ae_prevLogIndex r = next_of n p - 1
       \<and> sorted_wrt (<) (map e_index (ae_entries r))
       \<and> set (ae_entries r) = {e. \<exists>i \<ge> next_of n p. getEntry (db n) i = Some e}
       \<and> (0 \<le> ae_prevLogIndex r \<and> ae_prevLogIndex r = last_snapshot_index (db n) \<longrightarrow>
            ae_prevLogTerm r = last_snapshot_term (db n))
       \<and> (0 \<le> ae_prevLogIndex r \<and> ae_prevLogIndex r \<noteq> last_snapshot_index (db n) \<longrightarrow>
            (\<forall>e. getEntry (db n) (ae_prevLogIndex r) = Some e \<longrightarrow> ae_prevLogTerm r = e_term e))"
  using replication_request_faithful_aux[OF assms] .

theorem replication_request_faithful_witness:
  "\<exists>r. appendRequest (demo_leader\<lparr>nextIndex := [(''n2'', 2)]\<rparr>) ''n2'' = Some (AppendCall r) \<and>
     ae_prevLogIndex r = 1 \<and>
     set (ae_entries r) = {e. \<exists>i \<ge> 2. getEntry (db demo_leader) i = Some e}"
proof -
  let ?n = "demo_leader\<lparr>nextIndex := [(''n2'', 2)]\<rparr>"
  have nx: "next_of ?n ''n2'' = 2" by (simp add: next_of_def)
  have "firstIndex (db demo_leader) = 0" by (simp add: firstIndex_def demo_leader_facts demo_log_def)
  with nx obtain r where r: "appendRequest ?n ''n2'' = Some (AppendCall r)"
    by (simp add: appendRequest_def demo_leader_facts Let_def)
  with replication_request_faithful[OF r] show ?thesis
    by (simp add: nx demo_leader_facts)
qed

text \<open>
  What a leader makes of an answer.  A running leader steps down to the term of an answer from
  a newer term; on success it records that the peer holds everything up to the end of the batch it
  sent; on a rejection it moves the peer's next index back to one below the index it tried, never
  below zero, and records nothing as held.  An answer that arrives after the node was stopped or
  lost its role changes nothing, and no answer moves the commit index back.
\<close>

theorem append_reply_effects:
  fixes n :: node and r :: append_entries and b :: append_reply and p :: string
  defines "live \<equiv> \<not> stopped n \<and> role n = LEADER"
    and "end_of \<equiv> if ae_entries r \<noteq> [] then e_index (last (ae_entries r)) else ae_prevLogIndex r"
    and "n' \<equiv> appendReply p r b n"
  shows "(\<not> live \<longrightarrow> n' = n)
       \<and> (live \<and> currentTerm n < ar_term b \<longrightarrow>
            role n' = FOLLOWER \<and> currentTerm n' = ar_term b \<and> votedFor n' = None)
       \<and> (live \<and> ar_term b \<le> currentTerm n \<and> ar_success b \<longrightarrow>
            match_of n' p = end_of \<and> next_of n' p = end_of + 1 \<and> currentTerm n' = currentTerm n)
       \<and> (live \<and> ar_term b \<le> currentTerm n \<and> \<not> ar_success b \<longrightarrow>
            next_of n' p = max 0 (ae_prevLogIndex r) \<and> matchIndex n' = matchIndex n \<and> db n' = db n)
       \<and> commitIndex n \<le> commitIndex n'
       \<and> (\<forall>q. q \<noteq> p \<longrightarrow> match_of n' q = match_of n q \<and> next_of n' q = next_of n q)"
proof -
  consider "\<not> live" | "live" "currentTerm n < ar_term b"
    | "live" "ar_term b \<le> currentTerm n" "ar_success b"
    | "live" "ar_term b \<le> currentTerm n" "\<not> ar_success b" by fastforce
  then show ?thesis
  proof cases
    case 1
    then have "n' = n" by (auto simp: n'_def appendReply_def live_def)
    with 1 show ?thesis by simp
  next
    case 2
    then have "n' = becomeFollower (ar_term b) None n" by (auto simp: n'_def appendReply_def live_def)
    with 2 show ?thesis by (simp add: node_frame match_of_def next_of_def)
  next
    case 3
    then have "n' = maybeAdvanceCommitIndex (n\<lparr>matchIndex := map_set p end_of (matchIndex n),
        nextIndex := map_set p (end_of + 1) (nextIndex n)\<rparr>)"
      by (simp add: n'_def appendReply_def live_def end_of_def Let_def)
    with 3 maybeAdvance_commitIndex[of "n\<lparr>matchIndex := map_set p end_of (matchIndex n),
        nextIndex := map_set p (end_of + 1) (nextIndex n)\<rparr>"]
    show ?thesis by (simp add: node_frame match_of_def next_of_def update_conv')
  next
    case 4
    then have "n' = n\<lparr>nextIndex := map_set p (max 0 (ae_prevLogIndex r)) (nextIndex n)\<rparr>"
      by (simp add: n'_def appendReply_def live_def Let_def)
    with 4 show ?thesis by (simp add: match_of_def next_of_def update_conv')
  qed
qed

theorem append_reply_effects_witness:
  "next_of (appendReply ''n3'' demo_append \<lparr>ar_term = 2, ar_success = False, ar_logLength = Some 1\<rparr>
     demo_leader) ''n3'' = 2"
  using append_reply_effects[where p = "''n3''" and r = demo_append and n = demo_leader and
      b = "\<lparr>ar_term = 2, ar_success = False, ar_logLength = Some 1\<rparr>"]
  by (simp add: demo_leader_facts demo_append_def)


text \<open>
  C25: an answer to a call of an earlier term is counted in the current one.  The guard after the
  \<open>await\<close> checks the node's role but not that its term is still the one of the call.  In a
  cluster of three, a leader that gets such a late success records the peer as holding the index in
  question and commits its own entry of the current term there, which the peer need not hold.
\<close>

theorem stale_append_reply_commits:
  assumes "role n = LEADER" "\<not> stopped n" "peers n = [p, q]" "log_sorted (db n)"
    and "ae_term r < currentTerm n" "ar_term b \<le> currentTerm n" "ar_success b"
    and "ae_entries r \<noteq> []" "e_index (last (ae_entries r)) = k"
    and "getEntry (db n) k = Some e" "e_term e = currentTerm n"
  shows "match_of (appendReply p r b n) p = k \<and> k \<le> commitIndex (appendReply p r b n)"
proof -
  let ?m = "n\<lparr>matchIndex := map_set p k (matchIndex n), nextIndex := map_set p (k + 1) (nextIndex n)\<rparr>"
  have n': "appendReply p r b n = maybeAdvanceCommitIndex ?m"
    using assms by (simp add: appendReply_def Let_def)
  have "committable ?m k"
    using assms by (simp add: committable_def replica_count_def match_of_def majority_def update_conv')
  moreover from this have "k \<le> lastIndex (db n)" using committable_bound[of ?m] assms(4) by simp
  ultimately have "k \<le> commitIndex (maybeAdvanceCommitIndex ?m)"
    using assms(1) by (cases ?m rule: maybeAdvance_cases) (force simp: node_frame not_less simp flip: not_le)+
  then show ?thesis by (simp add: n' match_of_def node_frame update_conv')
qed

theorem stale_append_reply_commits_witness:
  "3 \<le> commitIndex (appendReply ''n2'' \<lparr>ae_term = 1, ae_leaderId = ''n1'', ae_prevLogIndex = 2,
     ae_prevLogTerm = 1, ae_entries = [stroke_entry 3 1 ''c'' 1 []], ae_leaderCommit = -1\<rparr>
     \<lparr>ar_term = 1, ar_success = True, ar_logLength = None\<rparr>
     (demo_leader\<lparr>matchIndex := []\<rparr>))"
  using stale_append_reply_commits[of "demo_leader\<lparr>matchIndex := []\<rparr>" "''n2''" "''n3''"
      "\<lparr>ae_term = 1, ae_leaderId = ''n1'', ae_prevLogIndex = 2, ae_prevLogTerm = 1,
        ae_entries = [stroke_entry 3 1 ''c'' 1 []], ae_leaderCommit = -1\<rparr>"
      "\<lparr>ar_term = 1, ar_success = True, ar_logLength = None\<rparr>" 3 "stroke_entry 3 2 ''a'' 2 []"]
  by (simp add: demo_leader_facts getEntry_demo)

text \<open>One replication call of a leader to a peer, delivered and answered at once.\<close>

definition sync_round :: "string \<Rightarrow> node \<times> node \<Rightarrow> node \<times> node" where
  "sync_round p LF =
     (case appendRequest (fst LF) p of
        Some (AppendCall r) \<Rightarrow>
          (appendReply p r (snd (handleAppendEntries r (snd LF))) (fst LF),
           fst (handleAppendEntries r (snd LF)))
      | _ \<Rightarrow> LF)"

lemma no_entry_after:
  assumes "log_sorted d" "lastIndex d < k"
  shows "{e. \<exists>i \<ge> k. getEntry d i = Some e} = {}"
proof -
  have "\<not> (\<exists>i \<ge> k. getEntry d i = Some e)" for e
    using entry_bounds(2)[OF assms(1), of e] assms(2) by (auto simp: getEntry_iff[OF assms(1)])
  then show ?thesis by simp
qed

lemma last_of_suffix:
  assumes "log_sorted d" "set es = {e. \<exists>i \<ge> k. getEntry d i = Some e}" "k \<le> lastIndex d"
    and "sorted_wrt (<) (map e_index es)" "log_entries d \<noteq> []"
  shows "es \<noteq> [] \<and> e_index (last es) = lastIndex d"
proof -
  let ?z = "last (log_entries d)"
  have z: "?z \<in> set (log_entries d)" "e_index ?z = lastIndex d" using assms(5) by (simp_all add: lastIndex_def)
  then have mem: "?z \<in> set es" using assms(1-3) by (auto simp: getEntry_iff)
  then have ne: "es \<noteq> []" by auto
  then have "e_index (last es) \<le> lastIndex d"
    using assms(1,2) last_in_set[OF ne] by (auto simp: getEntry_iff entry_bounds)
  moreover have "lastIndex d \<le> e_index (last es)"
    using sorted_wrt_last_max[OF assms(4) mem] z by simp
  ultimately show ?thesis using ne by simp
qed

text \<open>
  Replication repairs a follower.  A leader whose log reaches back to index 0 brings a follower
  of no newer term up to date in at most as many rounds as the peer's next index, plus one: each
  rejection steps back by one and the call with nothing before it is accepted.  At the end the leader
  knows the follower to hold its whole log, and the follower does hold, with its term, every entry the
  leader had planned to send (or has compacted it).
\<close>

theorem replication_repairs_follower:
  assumes "role L = LEADER" "\<not> stopped L" "log_sorted (db L)" "firstIndex (db L) = 0"
    and "currentTerm F \<le> currentTerm L" "0 \<le> next_of L p" "next_of L p \<le> lastIndex (db L) + 1"
  shows "\<exists>k \<le> nat (next_of L p) + 1.
           match_of (fst ((sync_round p ^^ k) (L, F))) p = lastIndex (db L)
         \<and> (\<forall>i e. next_of L p \<le> i \<and> getEntry (db L) i = Some e \<longrightarrow>
              i \<le> last_snapshot_index (db (snd ((sync_round p ^^ k) (L, F))))
            \<or> (\<exists>x. getEntry (db (snd ((sync_round p ^^ k) (L, F)))) i = Some x \<and> e_term x = e_term e))"
  using assms
proof (induction "nat (next_of L p)" arbitrary: L F rule: less_induct)
  case less
  let ?i = "next_of L p"
  obtain r where r: "appendRequest L p = Some (AppendCall r)"
    using less.prems by (simp add: appendRequest_def Let_def)
  note rf = replication_request_faithful_aux[OF r less.prems(3)]
  obtain b F' where h: "handleAppendEntries r F = (F', b)" by fastforce
  have step: "sync_round p (L, F) = (appendReply p r b L, F')" by (simp add: sync_round_def r h)
  have T: "ae_term r = currentTerm L" using rf by simp
  have bt: "ar_term b \<le> currentTerm L" "currentTerm F' = currentTerm L"
    using handleAppendEntries_term[of r F] less.prems(5) T h handleAppendEntries_role(2)[of r F] by auto
  show ?case
  proof (cases "ar_success b")
    case True
    have end_ok: "(if ae_entries r \<noteq> [] then e_index (last (ae_entries r)) else ae_prevLogIndex r) = lastIndex (db L)"
    proof (cases "?i \<le> lastIndex (db L)")
      case True
      then have "log_entries (db L) \<noteq> []" using less.prems(4,6) by (auto simp: lastIndex_def firstIndex_def)
      with last_of_suffix[OF less.prems(3) _ True] rf show ?thesis by simp
    next
      case False
      then have "ae_entries r = []" using rf no_entry_after[OF less.prems(3), of ?i] by simp
      with False less.prems(7) rf show ?thesis by simp
    qed
    have "match_of (appendReply p r b L) p = lastIndex (db L)"
      using True bt(1) less.prems(1,2) end_ok
      by (simp add: appendReply_def Let_def match_of_def node_frame update_conv')
    moreover have "i \<le> last_snapshot_index (db F') \<or> (\<exists>x. getEntry (db F') i = Some x \<and> e_term x = e_term e)"
      if "?i \<le> i" "getEntry (db L) i = Some e" for i e
    proof -
      have e: "e \<in> set (ae_entries r)" "e_index e = i" using that rf by (auto dest: getEntry_mem)
      have "\<forall>x \<in> set (ae_entries r). 0 \<le> e_index x"
        using rf less.prems(6) by (fastforce dest: getEntry_mem)
      then have "plog.holds (store_entries (ae_entries r) (db F)) e"
        using rf e plog.merge_holds by (simp add: store_entries_merge)
      with handleAppendEntries_success_db[of r F i] True h e(2) show ?thesis
        by (auto simp: plog.holds_def)
    qed
    ultimately show ?thesis using step by (intro exI[of _ 1]) simp
  next
    case False
    then have pos: "0 < ?i" and F': "F' = accept_leader (ae_term r) (ae_leaderId r) F"
      using h rf less.prems(5) by (cases r F rule: handleAppendEntries_cases; simp)+
    let ?L = "L\<lparr>nextIndex := map_set p (?i - 1) (nextIndex L)\<rparr>"
    have L': "appendReply p r b L = ?L"
      using False bt(1) less.prems(1,2) pos rf by (simp add: appendReply_def Let_def)
    have nx: "next_of ?L p = ?i - 1" by (simp add: next_of_def update_conv')
    obtain k where k: "k \<le> nat (?i - 1) + 1"
        "match_of (fst ((sync_round p ^^ k) (?L, F'))) p = lastIndex (db L)"
        "\<And>i e. ?i - 1 \<le> i \<Longrightarrow> getEntry (db L) i = Some e \<Longrightarrow>
           i \<le> last_snapshot_index (db (snd ((sync_round p ^^ k) (?L, F'))))
         \<or> (\<exists>x. getEntry (db (snd ((sync_round p ^^ k) (?L, F')))) i = Some x \<and> e_term x = e_term e)"
      using less.hyps[of ?L F'] less.prems pos bt(2) by (auto simp: nx)
    have "(sync_round p ^^ Suc k) (L, F) = (sync_round p ^^ k) (?L, F')"
      by (simp add: funpow_Suc_right step L' del: funpow.simps)
    with k pos show ?thesis by (intro exI[of _ "Suc k"]) auto
  qed
qed

theorem replication_repairs_follower_witness:
  "\<exists>k \<le> 5. match_of (fst ((sync_round ''n3'' ^^ k) (demo_leader, demo_node))) ''n3'' = 3"
proof -
  have d: "firstIndex (db demo_leader) = 0" "lastIndex (db demo_leader) = 3" "next_of demo_leader ''n3'' = 4"
    by (simp_all add: firstIndex_def lastIndex_def demo_leader_facts demo_log_def next_of_def)
  from replication_repairs_follower[OF demo_leader_facts(2,10,8) d(1), of demo_node "''n3''"] show ?thesis
    by (auto simp: d demo_leader_facts demo_node_facts)
qed

end
