(* ===== verification/Raft_Client.thy ===== *)
theory Raft_Client imports Raft_Leader begin

text \<open>
  The client's side of \<open>RaftNode.js\<close>: \<open>submit\<close> with the promise of \<open>_awaitCommit\<close>,
  the linearizable read \<open>readIndex\<close>, and \<open>getStatus\<close>.  As in \<open>Raft_Leader\<close> each
  \<open>async\<close> method is split at its \<open>await\<close>s; what the closure keeps between the parts is
  passed from one to the next.
\<close>

datatype api_error =
    NOT_LEADER "string option"
  | LOST_LEADERSHIP
  | COMMIT_TIMEOUT
  | LEADER_WARMING_UP
  | LEADERSHIP_UNCONFIRMED

record submit_result =
  sr_index :: int
  sr_term :: int
  sr_deduped :: bool

subsection \<open>submit\<close>

text \<open>\<open>(cid, seq)\<close> when neither is \<open>null\<close> or \<open>undefined\<close>.\<close>

definition request_id :: "payload option \<Rightarrow> (string \<times> int) option" where
  "request_id p =
     (case p of
        None \<Rightarrow> None
      | Some b \<Rightarrow> (case (p_clientId b, p_seq b) of (Some c, Some q) \<Rightarrow> Some (c, q) | _ \<Rightarrow> None))"

datatype submit_start =
    Refused api_error
  | Cached submit_result
  | Appended entry

definition submit_begin :: "entry_type \<Rightarrow> payload option \<Rightarrow> node \<Rightarrow> node \<times> submit_start" where
  "submit_begin ty p n =
     (if role n \<noteq> LEADER then (n, Refused (NOT_LEADER (leaderId n)))
      else
        (case (case request_id p of None \<Rightarrow> None | Some (c, q) \<Rightarrow> getDedupeIndex (sm n) c q) of
           Some i \<Rightarrow> (n, Cached \<lparr>sr_index = i, sr_term = currentTerm n, sr_deduped = True\<rparr>)
         | None \<Rightarrow>
             (let (n1, e) = appendLocal ty p n
              in (sendAppendEntriesToAll n1, Appended e))))"

definition submit_finish :: "payload option \<Rightarrow> submit_result \<Rightarrow> node \<Rightarrow> submit_result" where
  "submit_finish p res n =
     (case request_id p of
        None \<Rightarrow> res
      | Some (c, q) \<Rightarrow>
          (case getDedupeIndex (sm n) c q of
             None \<Rightarrow> res
           | Some i \<Rightarrow> if i \<noteq> sr_index res
                       then \<lparr>sr_index = i, sr_term = sr_term res, sr_deduped = True\<rparr> else res))"

subsection \<open>_awaitCommit\<close>

text \<open>
  The promise: waiting (with the listener on the \<open>commit\<close> event and the five-second timer), settled,
  or left unsettled for ever with neither listener nor timer.
\<close>

datatype waiter =
    Waiting
  | Settled "api_error + submit_result"
  | Orphaned

definition await_check :: "int \<Rightarrow> int \<Rightarrow> node \<Rightarrow> waiter" where
  "await_check index t n =
     (if commitIndex n \<ge> index
      then Settled (Inr \<lparr>sr_index = index, sr_term = t, sr_deduped = False\<rparr>)
      else if role n \<noteq> LEADER \<or> currentTerm n \<noteq> t then Settled (Inl LOST_LEADERSHIP)
      else Waiting)"

definition await_on_commit :: "int \<Rightarrow> int \<Rightarrow> node \<Rightarrow> waiter \<Rightarrow> waiter" where
  "await_on_commit index t n w = (case w of Waiting \<Rightarrow> await_check index t n | _ \<Rightarrow> w)"

definition await_on_timeout :: "int \<Rightarrow> node \<Rightarrow> waiter \<Rightarrow> waiter" where
  "await_on_timeout index n w =
     (case w of
        Waiting \<Rightarrow> if commitIndex n < index then Settled (Inl COMMIT_TIMEOUT) else Orphaned
      | _ \<Rightarrow> w)"

subsection \<open>readIndex\<close>

definition read_ready :: "node \<Rightarrow> bool" where
  "read_ready n =
     (let commitEntry = (if commitIndex n \<ge> 0 then getEntry (db n) (commitIndex n) else None);
          commitInSnapshot = (commitIndex n \<ge> 0 \<and>
            commitIndex n \<le> m_lastSnapshotIndex (loadMeta (db n)))
      in commitInSnapshot \<or>
         (case commitEntry of None \<Rightarrow> False | Some e \<Rightarrow> e_term e = currentTerm n))"

text \<open>The first part returns the \<open>readIdx\<close> and \<open>termAtStart\<close> the closure keeps.\<close>

definition readIndex_begin :: "node \<Rightarrow> node \<times> (api_error + int \<times> int)" where
  "readIndex_begin n =
     (if role n \<noteq> LEADER then (n, Inl (NOT_LEADER (leaderId n)))
      else if \<not> read_ready n then (n, Inl LEADER_WARMING_UP)
      else
        (broadcast (ReadCall
           \<lparr>ae_term = currentTerm n, ae_leaderId = replicaId n,
            ae_prevLogIndex = lastIndex (db n), ae_prevLogTerm = lastTerm (db n),
            ae_entries = [], ae_leaderCommit = commitIndex n\<rparr>) n,
         Inr (commitIndex n, currentTerm n)))"

fun count_acks :: "node \<Rightarrow> int \<Rightarrow> append_reply option list \<Rightarrow> node + int" where
  "count_acks n acks [] = Inr acks"
| "count_acks n acks (None # rs) = count_acks n acks rs"
| "count_acks n acks (Some b # rs) =
     (if ar_term b > currentTerm n then Inl (becomeFollower (ar_term b) None n)
      else count_acks n (if ar_success b then acks + 1 else acks) rs)"

definition readIndex_results ::
  "int \<Rightarrow> append_reply option list \<Rightarrow> node \<Rightarrow> node \<times> api_error option" where
  "readIndex_results termAtStart results n =
     (case count_acks n 1 results of
        Inl n' \<Rightarrow> (n', Some LOST_LEADERSHIP)
      | Inr acks \<Rightarrow>
          if acks < majority n then (n, Some LEADERSHIP_UNCONFIRMED)
          else if role n \<noteq> LEADER \<or> currentTerm n \<noteq> termAtStart then (n, Some LOST_LEADERSHIP)
          else (n, None))"

text \<open>One round of the closing wait: \<open>None\<close> sleeps and tries again.\<close>

definition readIndex_wait :: "int \<Rightarrow> int \<Rightarrow> node \<Rightarrow> (int \<times> int) option" where
  "readIndex_wait readIdx termAtStart n =
     (if lastApplied (sm n) < readIdx then None else Some (readIdx, termAtStart))"

subsection \<open>getStatus\<close>

record node_status =
  st_replicaId :: string
  st_role :: role
  st_term :: int
  st_leaderId :: "string option"
  st_votedFor :: "string option"
  st_firstIndex :: int
  st_lastIndex :: int
  st_commitIndex :: int
  st_lastApplied :: int
  st_peers :: "string list"
  st_matchIndex :: "(string, int) jsmap"
  st_nextIndex :: "(string, int) jsmap"
  st_restartCount :: int
  st_uptimeMs :: int
  st_snapshotCount :: int
  st_lastSnapshotIndex :: int
  st_lastSnapshotTerm :: int
  st_dedupeSize :: int

definition getStatus :: "node \<Rightarrow> node_status" where
  "getStatus n =
     (let m = loadMeta (db n) in
      \<lparr>st_replicaId = replicaId n, st_role = role n, st_term = currentTerm n,
       st_leaderId = leaderId n, st_votedFor = votedFor n,
       st_firstIndex = firstIndex (db n), st_lastIndex = lastIndex (db n),
       st_commitIndex = commitIndex n, st_lastApplied = lastApplied (sm n), st_peers = peers n,
       st_matchIndex = matchIndex n, st_nextIndex = nextIndex n,
       st_restartCount = restartCount n, st_uptimeMs = now n - startedAt n,
       st_snapshotCount = snapshotCount n, st_lastSnapshotIndex = m_lastSnapshotIndex m,
       st_lastSnapshotTerm = m_lastSnapshotTerm m, st_dedupeSize = int (length (dedupe (sm n)))\<rparr>)"

subsection \<open>Facts\<close>

lemma submit_begin_facts [node_frame]:
  "replicaId (fst (submit_begin ty p n)) = replicaId n"
  "peers (fst (submit_begin ty p n)) = peers n"
  "currentTerm (fst (submit_begin ty p n)) = currentTerm n"
  "votedFor (fst (submit_begin ty p n)) = votedFor n"
  "role (fst (submit_begin ty p n)) = role n"
  "commitIndex (fst (submit_begin ty p n)) = commitIndex n"
  "stopped (fst (submit_begin ty p n)) = stopped n"
  "current_term (db (fst (submit_begin ty p n))) = current_term (db n)"
  "voted_for (db (fst (submit_begin ty p n))) = voted_for (db n)"
  by (auto simp: submit_begin_def appendLocal_def Let_def node_frame db_simps split: option.splits)

lemma submit_begin_db_ok: "db_ok (db n) \<Longrightarrow> db_ok (db (fst (submit_begin ty p n)))"
  by (auto simp: submit_begin_def appendLocal_def Let_def node_frame intro!: db_ok_ops split: option.splits)

lemma readIndex_begin_facts [node_frame]:
  "replicaId (fst (readIndex_begin n)) = replicaId n"
  "peers (fst (readIndex_begin n)) = peers n"
  "currentTerm (fst (readIndex_begin n)) = currentTerm n"
  "votedFor (fst (readIndex_begin n)) = votedFor n"
  "role (fst (readIndex_begin n)) = role n"
  "db (fst (readIndex_begin n)) = db n"
  by (auto simp: readIndex_begin_def node_frame)

lemma count_acks_cases:
  "count_acks n v rs = (case find (\<lambda>b. ar_term b > currentTerm n) (answers rs) of
     Some b \<Rightarrow> Inl (becomeFollower (ar_term b) None n)
   | None \<Rightarrow> Inr (v + int (length (filter ar_success (answers rs)))))"
  by (induction n v rs rule: count_acks.induct) (auto split: option.splits)

lemma readIndex_results_fst:
  "fst (readIndex_results t rs n) = n
   \<or> (\<exists>b. Some b \<in> set rs \<and> currentTerm n < ar_term b \<and>
        fst (readIndex_results t rs n) = becomeFollower (ar_term b) None n)"
proof (cases "find (\<lambda>b. ar_term b > currentTerm n) (answers rs)")
  case (Some b)
  then have "b \<in> set (answers rs)" "currentTerm n < ar_term b"
    by (auto simp: find_split simp del: set_answers)
  with Some show ?thesis by (auto simp: readIndex_results_def count_acks_cases)
qed (simp add: readIndex_results_def count_acks_cases)


subsection \<open>Properties\<close>

text \<open>
  The outcomes of a submission before it waits.  A node that is not the leader refuses with
  the leader it knows; a stroke the state machine has already applied is answered from the dedupe
  table; neither touches the node.  Otherwise the stroke is appended after everything the leader
  holds, under its current term, and each peer that is not behind the compaction horizon is sent it.
\<close>

theorem submit_outcomes:
  fixes n :: node and p :: "payload option" and ty :: entry_type
  assumes "log_sorted (db n)"
  defines "e \<equiv> \<lparr>e_index = lastIndex (db n) + 1, e_term = currentTerm n, e_type = ty, e_payload = p\<rparr>"
    and "cached \<equiv> case request_id p of None \<Rightarrow> None | Some (c, q) \<Rightarrow> getDedupeIndex (sm n) c q"
  shows "(role n \<noteq> LEADER \<longrightarrow> submit_begin ty p n = (n, Refused (NOT_LEADER (leaderId n))))
       \<and> (\<forall>i. role n = LEADER \<and> cached = Some i \<longrightarrow>
            submit_begin ty p n = (n, Cached \<lparr>sr_index = i, sr_term = currentTerm n, sr_deduped = True\<rparr>))
       \<and> (role n = LEADER \<and> cached = None \<longrightarrow>
            snd (submit_begin ty p n) = Appended e
          \<and> log_entries (db (fst (submit_begin ty p n))) = log_entries (db n) @ [e]
          \<and> (\<forall>q \<in> set (peers n). \<not> stopped n \<and> firstIndex (db n) \<le> next_of n q \<and> next_of n q \<le> lastIndex (db n) + 1 \<longrightarrow>
               (\<exists>r. (q, AppendCall r) \<in> set (outbox (fst (submit_begin ty p n))) \<and> e \<in> set (ae_entries r))))"
proof (cases "role n = LEADER \<and> cached = None")
  case False
  then show ?thesis by (auto simp: submit_begin_def cached_def)
next
  case True
  let ?m = "fst (appendLocal ty p n)"
  have sb: "submit_begin ty p n = (sendAppendEntriesToAll ?m, Appended e)"
    using True by (simp add: submit_begin_def cached_def[symmetric] case_prod_beta node_frame e_def)
  have ix: "e_index e = lastIndex (db n) + 1" by (simp add: e_def)
  have dbm: "db ?m = appendEntries [e] (db n)" by (simp add: node_frame e_def)
  have log: "log_entries (db ?m) = log_entries (db n) @ [e]"
    using log_entries_append_last[OF assms(1), of e] ix by (simp add: dbm)
  then have last: "lastIndex (db ?m) = lastIndex (db n) + 1" by (simp add: lastIndex_def ix)
  have "\<exists>r. (q, AppendCall r) \<in> set (outbox (sendAppendEntriesToAll ?m)) \<and> e \<in> set (ae_entries r)"
    if q: "q \<in> set (peers n)" "\<not> stopped n" "firstIndex (db n) \<le> next_of n q" "next_of n q \<le> lastIndex (db n) + 1" for q
  proof -
    have nx: "next_of ?m q = next_of n q" by (simp add: next_of_def node_frame)
    have first: "firstIndex (db ?m) \<le> next_of n q"
      using q(3) by (cases "log_entries (db n)") (auto simp: firstIndex_def log ix lastIndex_def)
    obtain r where r: "appendRequest ?m q = Some (AppendCall r)"
        "ae_entries r = getRange (db ?m) (next_of n q) (lastIndex (db n) + 1)"
      using q True first nx last by (simp add: appendRequest_def node_frame Let_def)
    have "e \<in> set (ae_entries r)" using r(2) q(4) by (auto simp: getRange_def log ix)
    moreover have "(q, AppendCall r) \<in> set (requests ?m)"
      using r(1) q(1) by (force simp: requests_def node_frame)
    ultimately show ?thesis by (auto simp: sendAppendEntriesToAll_eq)
  qed
  with True log sb show ?thesis by (auto simp: node_frame)
qed

definition demo_payload :: payload where
  "demo_payload = \<lparr>p_clientId = Some ''c'', p_seq = Some 1, p_fields = []\<rparr>"

theorem submit_outcomes_witness:
  "log_entries (db (fst (submit_begin STROKE (Some demo_payload) demo_leader))) =
     demo_log @ [\<lparr>e_index = 4, e_term = 2, e_type = STROKE, e_payload = Some demo_payload\<rparr>]"
proof -
  have "getDedupeIndex (sm demo_leader) ''c'' 1 = None" by code_simp
  with submit_outcomes[OF demo_leader_facts(8), of STROKE "Some demo_payload"] show ?thesis
    by (simp add: demo_leader_facts request_id_def demo_payload_def getEntry_demo)
qed

text \<open>
  The life of a submission's promise: the states of the node at the \<open>commit\<close> events it emits while
  the promise waits, and at the timeout.
\<close>

datatype await_event = CommitEvt node | TimeoutEvt node

definition await_step :: "int \<Rightarrow> int \<Rightarrow> waiter \<Rightarrow> await_event \<Rightarrow> waiter" where
  "await_step index t w ev =
     (case ev of CommitEvt n \<Rightarrow> await_on_commit index t n w | TimeoutEvt n \<Rightarrow> await_on_timeout index n w)"

definition await_run :: "int \<Rightarrow> int \<Rightarrow> node \<Rightarrow> await_event list \<Rightarrow> waiter" where
  "await_run index t n evs = foldl (await_step index t) (await_check index t n) evs"

lemma await_step_stable: "w \<noteq> Waiting \<Longrightarrow> foldl (await_step index t) w evs = w"
proof (induction evs)
  case (Cons ev evs)
  then have "await_step index t w ev = w"
    by (cases w) (auto simp: await_step_def await_on_commit_def await_on_timeout_def split: await_event.split)
  with Cons show ?case by simp
qed simp

lemma await_check_ok:
  "await_check index t n = Settled (Inr r) \<Longrightarrow>
   index \<le> commitIndex n \<and> r = \<lparr>sr_index = index, sr_term = t, sr_deduped = False\<rparr>"
  by (auto simp: await_check_def split: if_splits)

lemma await_run_ok:
  "foldl (await_step index t) w evs = Settled (Inr r) \<Longrightarrow> w = Settled (Inr r) \<or>
   ((\<exists>n. CommitEvt n \<in> set evs \<and> index \<le> commitIndex n) \<and>
    r = \<lparr>sr_index = index, sr_term = t, sr_deduped = False\<rparr>)"
proof (induction evs arbitrary: w)
  case (Cons ev evs)
  then have "await_step index t w ev = Settled (Inr r) \<or>
      ((\<exists>n. CommitEvt n \<in> set evs \<and> index \<le> commitIndex n) \<and>
       r = \<lparr>sr_index = index, sr_term = t, sr_deduped = False\<rparr>)" by simp
  moreover have "w = Settled (Inr r) \<or> (\<exists>n. ev = CommitEvt n \<and> await_check index t n = Settled (Inr r))"
    if "await_step index t w ev = Settled (Inr r)"
    using that by (cases ev; cases w)
      (auto simp: await_step_def await_on_commit_def await_on_timeout_def split: if_splits)
  ultimately show ?case by (auto dest!: await_check_ok)
qed simp

text \<open>
  What a settled submission says.  Once settled a promise stays as it is, whatever happens
  later; and it resolves only with the index and term of its own append, and only if the node's commit
  index had reached that index, at the start or at one of its commit events.
\<close>

theorem await_settles_once:
  shows "(await_run index t n evs \<noteq> Waiting \<longrightarrow>
            await_run index t n (evs @ evs2) = await_run index t n evs)
       \<and> (await_run index t n evs = Settled (Inr r) \<longrightarrow>
            r = \<lparr>sr_index = index, sr_term = t, sr_deduped = False\<rparr>
          \<and> (\<exists>m. (m = n \<or> CommitEvt m \<in> set evs) \<and> index \<le> commitIndex m))"
  using await_step_stable[of "await_run index t n evs" index t evs2]
    await_run_ok[of index t "await_check index t n" evs r] await_check_ok[of index t n r]
  by (auto simp: await_run_def)

theorem await_settles_once_witness:
  "await_run 3 2 demo_leader [CommitEvt (maybeAdvanceCommitIndex demo_leader), TimeoutEvt demo_leader] =
     Settled (Inr \<lparr>sr_index = 3, sr_term = 2, sr_deduped = False\<rparr>)"
proof -
  have "await_run 3 2 demo_leader [CommitEvt (maybeAdvanceCommitIndex demo_leader)] =
      Settled (Inr \<lparr>sr_index = 3, sr_term = 2, sr_deduped = False\<rparr>)" by code_simp
  with await_settles_once[of 3 2 demo_leader "[CommitEvt (maybeAdvanceCommitIndex demo_leader)]"
      "[TimeoutEvt demo_leader]"] show ?thesis by simp
qed


subsubsection \<open>Submissions that are answered wrongly or not at all\<close>

lemma apply_loop_commit_events: "CommitEv k \<in> set (emitted (apply_loop n)) \<longleftrightarrow> CommitEv k \<in> set (emitted n)"
proof (induction n rule: apply_loop.induct)
  case (1 n)
  then show ?case
    by (subst apply_loop.simps) (auto simp: emit_def split: option.split)
qed

lemma accept_leader_commit_events:
  "CommitEv k \<in> set (emitted (accept_leader t l n)) \<longleftrightarrow> CommitEv k \<in> set (emitted n)"
  by (auto simp: accept_leader_def becomeFollower_def Let_def emit_def resetElectionTimer_def
      clearElectionTimer_def clearHeartbeatTimer_def)

lemma handleAppendEntries_commit_events:
  "CommitEv k \<in> set (emitted (fst (handleAppendEntries r n))) \<longleftrightarrow> CommitEv k \<in> set (emitted n)"
  by (cases r n rule: handleAppendEntries_cases)
    (simp_all add: accept_leader_commit_events applyCommitted_def node_frame apply_loop_commit_events)

text \<open>
  A submission that a deposed leader commits as a follower is never answered.  The commit index
  that a replication call raises is not announced by a commit event, so a waiting promise is not
  looked at; when its timer fires the commit index has passed the entry, no error is raised, and the
  promise stays unsettled whatever the node does later.
\<close>

theorem follower_commit_never_settles:
  assumes "index \<le> commitIndex (fst (handleAppendEntries r n))"
  shows "(\<forall>k. CommitEv k \<in> set (emitted (fst (handleAppendEntries r n))) \<longleftrightarrow> CommitEv k \<in> set (emitted n))
       \<and> foldl (await_step index t) Waiting
           (TimeoutEvt (fst (handleAppendEntries r n)) # evs) = Orphaned"
  using assms await_step_stable[of Orphaned index t evs]
  by (simp add: handleAppendEntries_commit_events await_step_def await_on_timeout_def)

text \<open>
  A run of the handlers.  A leader of term 2 appends a stroke at index 4 (\<open>lost0\<close>); a leader of
  term 3 replaces it and commits its own entry there (\<open>lost1\<close>); the first node is elected again
  in term 4 (\<open>lost2\<close>) and its NOOP at index 5 is acknowledged (\<open>lost3\<close>).
\<close>

definition lost0 :: node where
  "lost0 = fst (submit_begin STROKE (Some demo_payload) demo_leader)"

definition lost1 :: node where
  "lost1 = fst (handleAppendEntries \<lparr>ae_term = 3, ae_leaderId = ''n2'', ae_prevLogIndex = 3,
     ae_prevLogTerm = 2, ae_entries = [stroke_entry 4 3 ''d'' 1 []], ae_leaderCommit = 4\<rparr> lost0)"

definition lost2 :: node where
  "lost2 = electionResults 4 [Some \<lparr>vr_term = 4, vr_granted = True\<rparr>, None] (startElection lost1)"

definition lost3 :: node where
  "lost3 = appendReply ''n2'' \<lparr>ae_term = 4, ae_leaderId = ''n1'', ae_prevLogIndex = 4,
     ae_prevLogTerm = 3, ae_entries = [\<lparr>e_index = 5, e_term = 4, e_type = NOOP, e_payload = None\<rparr>],
     ae_leaderCommit = 4\<rparr> \<lparr>ar_term = 4, ar_success = True, ar_logLength = None\<rparr> lost2"

theorem follower_commit_never_settles_witness:
  "commitIndex lost1 = 4 \<and>
   foldl (await_step 4 2) Waiting [TimeoutEvt lost1, CommitEvt lost3] = Orphaned"
proof -
  have c: "commitIndex lost1 = 4" by code_simp
  then have "4 \<le> commitIndex (fst (handleAppendEntries \<lparr>ae_term = 3, ae_leaderId = ''n2'',
      ae_prevLogIndex = 3, ae_prevLogTerm = 2, ae_entries = [stroke_entry 4 3 ''d'' 1 []],
      ae_leaderCommit = 4\<rparr> lost0))" by (simp add: lost1_def)
  from follower_commit_never_settles[OF this, of 2 "[CommitEvt lost3]"] c show ?thesis
    by (simp add: lost1_def)
qed

text \<open>
  C20: a submission whose entry was overwritten is acknowledged. A node waits for the commit of its own entry
  \<open>e\<close>. It accepts a replication call that holds another entry at that index (one of another term) and commits
  that far. Then \<open>e\<close> is gone from its log, no commit event has been emitted, and at the next commit event
  that the node emits, whatever it has done until then, the promise resolves with the index and term of \<open>e\<close>:
  \<open>check\<close> looks at the commit index only. The closing dedupe lookup leaves that answer as it is when the
  state machine knows no stroke of this identity.
\<close>

theorem submission_acked_but_lost:
  fixes e :: entry and m n :: node and r :: append_entries and p :: "payload option"
  assumes "getEntry (db n) (e_index e) = Some e" "log_sorted (db n)"
    and "sorted_wrt (<) (map e_index (ae_entries r))" "\<forall>x \<in> set (ae_entries r). 0 \<le> e_index x"
    and "x \<in> set (ae_entries r)" "e_index x = e_index e" "e_term x \<noteq> e_term e"
    and "ar_success (snd (handleAppendEntries r n))" "e_index e \<le> ae_leaderCommit r"
    and "commitIndex n < e_index e" "commitIndex (fst (handleAppendEntries r n)) \<le> commitIndex m"
  defines "n' \<equiv> fst (handleAppendEntries r n)"
    and "res \<equiv> \<lparr>sr_index = e_index e, sr_term = e_term e, sr_deduped = False\<rparr>"
  shows "e \<notin> set (log_entries (db n'))
       \<and> (\<forall>k. CommitEv k \<in> set (emitted n') \<longleftrightarrow> CommitEv k \<in> set (emitted n))
       \<and> foldl (await_step (e_index e) (e_term e)) Waiting (CommitEvt m # evs) = Settled (Inr res)
       \<and> ((\<forall>c q. request_id p = Some (c, q) \<longrightarrow> getDedupeIndex (sm m) c q = None) \<longrightarrow> submit_finish p res m = res)"
proof -
  let ?d = "store_entries (ae_entries r) (db n)"
  have "plog.holds ?d x" unfolding store_entries_merge[OF assms(4)] by (rule plog.merge_holds[OF assms(3,5)])
  then obtain y where y: "getEntry ?d (e_index e) = Some y" "e_term y = e_term x"
    by (auto simp: plog.holds_def assms(6))
  have s: "log_sorted ?d" by (rule log_sorted_store_entries[OF assms(2)])
  have gone: "e \<notin> set (log_entries ?d)" using getEntry_iff[OF s, of "e_index e" e] y assms(7) by auto
  have last: "e_index e \<le> lastIndex ?d" using entry_bounds(2)[OF s, of y] getEntry_mem[OF y(1)] by simp
  show ?thesis
  proof (cases r n rule: handleAppendEntries_cases)
    case (success n2)
    let ?k = "n2\<lparr>commitIndex := min (ae_leaderCommit r) (lastIndex (db n2))\<rparr>"
    have log: "log_entries (db n2) = log_entries ?d"
      using store_entries_cong[of "db (accept_leader (ae_term r) (ae_leaderId r) n)" "db n" "ae_entries r"]
      by (simp add: success(3) node_frame)
    then have "e_index e \<le> lastIndex (db n2)"
      using last y(1) by (simp add: lastIndex_def getEntry_def split: if_splits)
    moreover have n': "n' = applyCommitted ?k" using success(4) assms(9,10) by (simp add: n'_def)
    ultimately have "e_index e \<le> commitIndex n'" using assms(9) by (simp add: node_frame)
    then have m: "e_index e \<le> commitIndex m" using assms(11) by (simp add: n'_def)
    have "set (log_entries (db n')) \<subseteq> set (log_entries ?d)"
      using applyCommitted_db(5)[of ?k] by (auto simp: n' log)
    with gone have "e \<notin> set (log_entries (db n'))" by blast
    moreover have "foldl (await_step (e_index e) (e_term e)) Waiting (CommitEvt m # evs) = Settled (Inr res)"
      using m await_step_stable[of "Settled (Inr res)" "e_index e" "e_term e" evs]
      by (simp add: await_step_def await_on_commit_def await_check_def res_def)
    moreover have "submit_finish p res m = res" if "\<forall>c q. request_id p = Some (c, q) \<longrightarrow> getDedupeIndex (sm m) c q = None"
      using that by (auto simp: submit_finish_def split: option.split)
    ultimately show ?thesis by (simp add: n'_def handleAppendEntries_commit_events)
  qed (use assms(8) in simp_all)
qed

theorem submission_acked_but_lost_witness:
  "demo_payload \<notin> {y. \<exists>x \<in> set (log_entries (db lost1)). e_payload x = Some y} \<and>
   foldl (await_step 4 2) Waiting [CommitEvt lost3] = Settled (Inr \<lparr>sr_index = 4, sr_term = 2, sr_deduped = False\<rparr>) \<and>
   submit_finish (Some demo_payload) \<lparr>sr_index = 4, sr_term = 2, sr_deduped = False\<rparr> lost3 =
     \<lparr>sr_index = 4, sr_term = 2, sr_deduped = False\<rparr>"
proof -
  let ?e = "\<lparr>e_index = 4, e_term = 2, e_type = STROKE, e_payload = Some demo_payload\<rparr>"
  let ?r = "\<lparr>ae_term = 3, ae_leaderId = ''n2'', ae_prevLogIndex = 3,
     ae_prevLogTerm = 2, ae_entries = [stroke_entry 4 3 ''d'' 1 []], ae_leaderCommit = 4\<rparr>"
  have e: "getEntry (db lost0) 4 = Some ?e" by code_simp
  have s: "log_sorted (db lost0)" unfolding log_sorted_def by code_simp
  have ok: "ar_success (snd (handleAppendEntries ?r lost0))" by code_simp
  have c: "commitIndex lost0 < 4" "commitIndex lost1 \<le> commitIndex lost3" by code_simp+
  have d: "getDedupeIndex (sm lost3) ''c'' 1 = None" by code_simp
  have gone: "list_all (\<lambda>x. e_payload x \<noteq> Some demo_payload) (log_entries (db lost1))" by code_simp
  from submission_acked_but_lost[of lost0 ?e ?r "stroke_entry 4 3 ''d'' 1 []" lost3 "[]" "Some demo_payload"] e s ok c d
  show ?thesis using gone by (auto simp: lost1_def request_id_def demo_payload_def list_all_iff)
qed

text \<open>
  C18: a confirmed read.  Between the start and the end of a linearizable read the node may run
  other handlers.  The read is confirmed exactly when the node is still the leader of the term it
  started in, no answer came from a newer term and, with the node itself, more than half of the
  cluster accepted its call; the index it waits for is its commit index at the start, and it returns
  only once that index is applied.
\<close>

theorem read_confirmed_iff:
  assumes "snd (readIndex_begin n0) = Inr (i, t)"
  shows "i = commitIndex n0 \<and> t = currentTerm n0 \<and> role n0 = LEADER
       \<and> (snd (readIndex_results t rs n) = None \<longleftrightarrow>
            role n = LEADER \<and> currentTerm n = t
          \<and> (\<nexists>b. Some b \<in> set rs \<and> ar_term b > t)
          \<and> 2 * (1 + int (length (filter ar_success (answers rs)))) > int (length (peers n)) + 1)
       \<and> (readIndex_wait i t m = Some (i, t) \<longleftrightarrow> commitIndex n0 \<le> lastApplied (sm m))"
proof -
  have maj: "1 + k < majority n \<longleftrightarrow> \<not> 2 * (1 + k) > int (length (peers n)) + 1" for k
    unfolding majority_def by presburger
  have "snd (readIndex_results t rs n) = None \<longleftrightarrow>
            role n = LEADER \<and> currentTerm n = t
          \<and> (\<nexists>b. Some b \<in> set rs \<and> ar_term b > t)
          \<and> 2 * (1 + int (length (filter ar_success (answers rs)))) > int (length (peers n)) + 1"
  proof (cases "find (\<lambda>b. ar_term b > currentTerm n) (answers rs)")
    case None
    then have "\<nexists>b. Some b \<in> set rs \<and> ar_term b > currentTerm n" by (auto simp: find_None_iff)
    with None show ?thesis by (auto simp: readIndex_results_def count_acks_cases maj)
  next
    case (Some b)
    then have "b \<in> set (answers rs)" "currentTerm n < ar_term b"
      by (auto simp: find_split simp del: set_answers)
    with Some show ?thesis by (auto simp: readIndex_results_def count_acks_cases)
  qed
  with assms show ?thesis
    by (auto simp: readIndex_begin_def readIndex_wait_def split: if_splits)
qed

definition demo_reader :: node where
  "demo_reader = maybeAdvanceCommitIndex demo_leader"

theorem read_confirmed_iff_witness:
  "snd (readIndex_begin demo_reader) = Inr (3, 2) \<and>
   snd (readIndex_results 2 [Some \<lparr>ar_term = 2, ar_success = True, ar_logLength = None\<rparr>, None] demo_reader) = None \<and>
   readIndex_wait 3 2 demo_reader = Some (3, 2)"
proof -
  have r: "snd (readIndex_begin demo_reader) = Inr (3, 2)" by code_simp
  have "role demo_reader = LEADER" "currentTerm demo_reader = 2" "length (peers demo_reader) = 2"
    "commitIndex demo_reader \<le> lastApplied (sm demo_reader)" by code_simp+
  then show ?thesis
    using r read_confirmed_iff[OF r, of "[Some \<lparr>ar_term = 2, ar_success = True, ar_logLength = None\<rparr>, None]"
        demo_reader demo_reader] by simp
qed

text \<open>
  A new leader can answer a read before it has committed anything.  The check that an entry of
  the current term is committed is skipped when the commit index lies within the last snapshot, which
  is the state of a node that has just installed or taken one; a leader elected in that state starts
  the read at its old commit index at once, its only entry of the term still uncommitted.
\<close>

theorem read_before_first_commit:
  assumes "0 \<le> commitIndex m" "commitIndex m \<le> last_snapshot_index (db m)"
    and "commitIndex m \<le> lastIndex (db m)" "\<forall>e \<in> set (log_entries (db m)). e_term e < currentTerm m"
    and "log_sorted (db m)"
  shows "snd (readIndex_begin (becomeLeader m)) = Inr (commitIndex m, currentTerm m)
       \<and> (\<forall>e \<in> set (log_entries (db (becomeLeader m))).
            e_term e = currentTerm m \<longrightarrow> commitIndex (becomeLeader m) < e_index e)"
proof -
  let ?e = "\<lparr>e_index = lastIndex (db m) + 1, e_term = currentTerm m, e_type = NOOP, e_payload = None\<rparr>"
  have "log_entries (db (becomeLeader m)) = log_entries (db m) @ [?e]"
    using log_entries_append_last[OF assms(5), of ?e] by (simp add: node_frame)
  with assms show ?thesis
    by (auto simp: readIndex_begin_def read_ready_def loadMeta_def Let_def node_frame db_simps)
qed

text \<open>A node that has installed a snapshot at index 1 and then won an election.\<close>

definition fresh_reader :: node where
  "fresh_reader = startElection (fst (handleInstallSnapshot demo_snapshot demo_node))"

theorem read_before_first_commit_witness:
  "snd (readIndex_begin (becomeLeader fresh_reader)) = Inr (1, 3)"
proof -
  have c: "commitIndex fresh_reader = 1" "last_snapshot_index (db fresh_reader) = 1"
    "lastIndex (db fresh_reader) = 3" "currentTerm fresh_reader = 3" by code_simp+
  have l: "log_entries (db fresh_reader) = [stroke_entry 2 1 ''a'' 1 [], stroke_entry 3 2 ''a'' 2 []]"
    by code_simp
  have "log_sorted (db fresh_reader)" by (simp add: log_sorted_def l)
  with read_before_first_commit[of fresh_reader] c l show ?thesis by simp
qed

end
