(* ===== verification/Crash_Points.thy ===== *)
theory Crash_Points imports Raft_Client begin

text \<open>
  The files between the writes of a handler. A handler that writes to the store more than once can be cut
  short between two writes by a crash; each write is atomic (one statement or one transaction of
  \<open>Persistence.js\<close>). For each such handler the list of the files that it leaves behind, write by write,
  is given here, and what a node finds when it is started from one of them. Handlers with a single write
  (\<open>_startElection\<close>, \<open>_becomeLeader\<close>, \<open>submit\<close>) need no list: a crash after the write is the whole
  handler, of which nothing reaches the network, and a restart.
\<close>

subsection \<open>The files of a handler\<close>

text \<open>The write of \<open>_becomeFollower\<close>.\<close>

definition term_files :: "int \<Rightarrow> node \<Rightarrow> db list" where
  "term_files t n = (if t > currentTerm n then [saveTermAndVote t None (db n)] else [])"

definition vote_files :: "request_vote \<Rightarrow> node \<Rightarrow> db list" where
  "vote_files r n =
     (let n1 = (if rv_term r > currentTerm n then becomeFollower (rv_term r) None n else n)
      in term_files (rv_term r) n @
         (if vr_granted (snd (handleRequestVote r n))
          then [saveTermAndVote (currentTerm n1) (Some (rv_candidateId r)) (db n1)] else []))"

text \<open>\<open>truncateFrom\<close> and \<open>appendEntries\<close> are two writes.\<close>

definition store_files :: "entry list \<Rightarrow> db \<Rightarrow> db list" where
  "store_files es d =
     (if es \<noteq> [] \<and> find_write_start d es \<ge> 0
      then [truncateFrom (find_write_start d es) d, store_entries es d] else [])"

text \<open>\<open>_maybeSnapshot\<close>: the snapshot is saved before the log is compacted.\<close>

definition snapshot_files :: "node \<Rightarrow> db list" where
  "snapshot_files n =
     (let m = loadMeta (db n);
          sinceSnap = lastApplied (sm n) - m_lastSnapshotIndex m
      in if sinceSnap < snapshotThreshold (config n) then []
         else if lastApplied (sm n) < 0 then []
         else (case getEntry (db n) (lastApplied (sm n)) of
                 None \<Rightarrow> []
               | Some e \<Rightarrow>
                   (let d1 = saveSnapshot (lastApplied (sm n)) (e_term e) (getSnapshot (sm n)) (now n) (db n)
                    in [d1, truncateUpTo (lastApplied (sm n)) d1])))"

definition append_files :: "append_entries \<Rightarrow> node \<Rightarrow> db list" where
  "append_files r n =
     (if ae_term r < currentTerm n then []
      else
        (let n1 = accept_leader (ae_term r) (ae_leaderId r) n
         in term_files (ae_term r) n @
            (if ae_prevLogIndex r \<ge> 0 \<and> \<not> prev_matches (db n1) (ae_prevLogIndex r) (ae_prevLogTerm r) then []
             else
               (let n2 = n1\<lparr>db := store_entries (ae_entries r) (db n1)\<rparr>
                in store_files (ae_entries r) (db n1) @
                   (if ae_leaderCommit r > commitIndex n2
                    then snapshot_files (apply_loop (n2\<lparr>commitIndex := min (ae_leaderCommit r) (lastIndex (db n2))\<rparr>))
                    else [])))))"

text \<open>\<open>handleInstallSnapshot\<close>: the log is cut before the snapshot is saved.\<close>

definition install_files :: "install_snapshot \<Rightarrow> node \<Rightarrow> db list" where
  "install_files r n =
     (if is_term r < currentTerm n then []
      else
        (let n1 = accept_leader (is_term r) (is_leaderId r) n
         in term_files (is_term r) n @
            (if is_lastIncludedIndex r \<le> m_lastSnapshotIndex (loadMeta (db n1)) then []
             else
               (let keep = (case getEntry (db n1) (is_lastIncludedIndex r) of None \<Rightarrow> False
                            | Some e \<Rightarrow> e_term e = is_lastIncludedTerm r);
                    d1 = (if keep then truncateUpTo (is_lastIncludedIndex r) (db n1) else truncateAll (db n1))
                in [d1, saveSnapshot (is_lastIncludedIndex r) (is_lastIncludedTerm r) (is_data r) (now n1) d1]))))"

definition commit_files :: "node \<Rightarrow> db list" where
  "commit_files n =
     (if role n \<noteq> LEADER then []
      else (case commit_scan n (lastIndex (db n)) of
              None \<Rightarrow> []
            | Some i \<Rightarrow> snapshot_files (apply_loop (n\<lparr>commitIndex := i\<rparr>))))"

definition reply_files :: "string \<Rightarrow> append_entries \<Rightarrow> append_reply \<Rightarrow> node \<Rightarrow> db list" where
  "reply_files p r b n =
     (if stopped n \<or> role n \<noteq> LEADER then []
      else if ar_term b > currentTerm n then term_files (ar_term b) n
      else if ar_success b then
        (let newMatch = (if ae_entries r \<noteq> [] then e_index (last (ae_entries r)) else ae_prevLogIndex r)
         in commit_files (n\<lparr>matchIndex := map_set p newMatch (matchIndex n),
                            nextIndex := map_set p (newMatch + 1) (nextIndex n)\<rparr>))
      else [])"

subsection \<open>They end in the file that the handler leaves\<close>

lemma last_term_files: "last (db n # term_files t n) = db (becomeFollower t l n)"
  by (simp add: term_files_def node_frame)

lemma last_files_append: "last (d # xs @ ys) = last (last (d # xs) # ys)"
  by (cases ys) simp_all

lemma last_accept: "t \<ge> currentTerm n \<Longrightarrow> last (db n # term_files t n) = db (accept_leader t l n)"
  by (auto simp: accept_leader_def term_files_def node_frame)

lemma last_store_files: "last (d # store_files es d) = store_entries es d"
  by (auto simp: store_files_def store_entries_def)

lemma last_snapshot_files: "last (db n # snapshot_files n) = db (maybeSnapshot n)"
  by (simp add: snapshot_files_def maybeSnapshot_def Let_def split: option.split)

lemma last_commit_files: "last (db n # commit_files n) = db (maybeAdvanceCommitIndex n)"
proof (cases "role n = LEADER \<and> commit_scan n (lastIndex (db n)) \<noteq> None")
  case True
  then obtain i where i: "role n = LEADER" "commit_scan n (lastIndex (db n)) = Some i" by blast
  have "db (apply_loop (n\<lparr>commitIndex := i\<rparr>)) = db n" by (simp add: node_frame)
  with i last_snapshot_files[of "apply_loop (n\<lparr>commitIndex := i\<rparr>)"] show ?thesis
    by (simp add: commit_files_def maybeAdvanceCommitIndex_def applyCommitted_def node_frame)
qed (auto simp: commit_files_def maybeAdvanceCommitIndex_def)

lemma last_vote_files: "last (db n # vote_files r n) = db (fst (handleRequestVote r n))"
  by (auto simp: vote_files_def term_files_def handleRequestVote_def Let_def node_frame)

lemma last_append_files: "last (db n # append_files r n) = db (fst (handleAppendEntries r n))"
proof (cases "ae_term r < currentTerm n")
  case True
  then show ?thesis by (simp add: append_files_def handleAppendEntries_def)
next
  case False
  let ?n1 = "accept_leader (ae_term r) (ae_leaderId r) n"
  let ?n2 = "?n1\<lparr>db := store_entries (ae_entries r) (db ?n1)\<rparr>"
  let ?n3 = "apply_loop (?n2\<lparr>commitIndex := min (ae_leaderCommit r) (lastIndex (db ?n2))\<rparr>)"
  have a: "last (db n # term_files (ae_term r) n) = db ?n1" using False by (intro last_accept) simp
  have l: "db ?n3 = db ?n2" by (simp add: node_frame)
  show ?thesis
    using False last_snapshot_files[of ?n3, unfolded l]
    by (simp add: append_files_def handleAppendEntries_def Let_def last_files_append a last_store_files applyCommitted_def
        del: last.simps) simp
qed

lemma last_install_files: "last (db n # install_files r n) = db (fst (handleInstallSnapshot r n))"
proof (cases "is_term r < currentTerm n")
  case False
  have "last (db n # term_files (is_term r) n) = db (accept_leader (is_term r) (is_leaderId r) n)"
    using False by (intro last_accept) simp
  with False show ?thesis
    by (simp add: install_files_def handleInstallSnapshot_def Let_def last_files_append del: last.simps) simp
qed (simp add: install_files_def handleInstallSnapshot_def)

lemma last_reply_files: "last (db n # reply_files p r b n) = db (appendReply p r b n)"
  using last_term_files[of n "ar_term b" None]
    last_commit_files[of "n\<lparr>matchIndex := m, nextIndex := x\<rparr>" for m x]
  by (simp add: reply_files_def appendReply_def Let_def del: last.simps) simp

subsection \<open>What they hold\<close>

text \<open>
  \<open>file_le n f\<close>: the file is well formed, and holds the term and the vote of \<open>n\<close> or of a later
  moment.
\<close>

definition file_le :: "node \<Rightarrow> db \<Rightarrow> bool" where
  "file_le n f \<longleftrightarrow> db_ok f \<and> currentTerm n \<le> current_term f \<and>
     (current_term f = currentTerm n \<longrightarrow> votedFor n = None \<or> voted_for f = votedFor n)"

lemma file_le_mono: "file_le n d \<Longrightarrow> db_ok f \<Longrightarrow> current_term f = current_term d \<Longrightarrow> voted_for f = voted_for d \<Longrightarrow> file_le n f"
  by (simp add: file_le_def)

lemma term_files_ok:
  assumes "db_ok (db n)" "f \<in> set (term_files t n)"
  shows "file_le n f" "log_entries f = log_entries (db n)" "snapshots f = snapshots (db n)" "current_term f = t"
  using assms by (auto simp: term_files_def file_le_def db_simps split: if_splits)

lemma vote_files_ok:
  assumes "durable n" "db_ok (db n)" "f \<in> set (vote_files r n)"
  shows "file_le n f" "log_entries f = log_entries (db n)" "snapshots f = snapshots (db n)"
proof -
  let ?n1 = "if rv_term r > currentTerm n then becomeFollower (rv_term r) None n else n"
  from assms(3) consider "f \<in> set (term_files (rv_term r) n)"
    | "vr_granted (snd (handleRequestVote r n))" "f = saveTermAndVote (currentTerm ?n1) (Some (rv_candidateId r)) (db ?n1)"
    by (auto simp: vote_files_def Let_def split: if_splits)
  then have "file_le n f \<and> log_entries f = log_entries (db n) \<and> snapshots f = snapshots (db n)"
  proof cases
    case 1
    with term_files_ok[OF assms(2)] show ?thesis by blast
  next
    case 2
    have "db (fst (handleRequestVote r n)) = f"
      using 2 by (auto simp: handleRequestVote_def Let_def node_frame)
    then have "current_term f = currentTerm (fst (handleRequestVote r n))" "voted_for f = votedFor (fst (handleRequestVote r n))"
      using handleRequestVote_durable[OF assms(1), of r] by (auto simp: durable_def)
    moreover have "vote_le n (fst (handleRequestVote r n))" by (rule handleRequestVote_vote_le)
    moreover have "db_ok f" "log_entries f = log_entries (db n)" "snapshots f = snapshots (db n)"
      using 2(2) assms(2) by (auto simp: node_frame db_simps)
    ultimately show ?thesis by (simp add: file_le_def vote_le_def)
  qed
  then show "file_le n f" "log_entries f = log_entries (db n)" "snapshots f = snapshots (db n)" by blast+
qed

lemma saveSnapshot_nonempty [simp]: "snapshots (saveSnapshot i t b ts d) \<noteq> []"
  by (simp add: saveSnapshot_def saveSnapshotMeta_def Let_def filter_empty_conv)

lemma store_entries_snapshots [simp]: "snapshots (store_entries es d) = snapshots d"
  by (simp add: store_entries_def Let_def db_simps)

lemma snapshot_files_cases:
  obtains (none) "snapshot_files n = []"
  | (taken) e d1 where "getEntry (db n) (lastApplied (sm n)) = Some e" "0 \<le> lastApplied (sm n)"
      "d1 = saveSnapshot (lastApplied (sm n)) (e_term e) (getSnapshot (sm n)) (now n) (db n)"
      "snapshot_files n = [d1, truncateUpTo (lastApplied (sm n)) d1]"
  by (cases "snapshot_files n = []")
    (auto simp: snapshot_files_def Let_def split: option.splits if_splits)

lemma truncated_entries:
  "set (log_entries (truncateUpTo i d)) \<subseteq> set (log_entries d)" "set (log_entries (truncateFrom i d)) \<subseteq> set (log_entries d)"
  "log_entries (truncateAll d) = []"
  by (auto simp: truncateUpTo_def truncateFrom_def truncateAll_def)

lemma snapshot_files_ok:
  assumes "f \<in> set (snapshot_files n)"
  shows "db_ok (db n) \<Longrightarrow> db_ok f" "current_term f = current_term (db n)" "voted_for f = voted_for (db n)"
    "set (log_entries f) \<subseteq> set (log_entries (db n))" "snapshots f \<noteq> []"
proof -
  have "(db_ok (db n) \<longrightarrow> db_ok f) \<and> current_term f = current_term (db n) \<and> voted_for f = voted_for (db n) \<and>
    set (log_entries f) \<subseteq> set (log_entries (db n)) \<and> snapshots f \<noteq> []"
  proof (cases n rule: snapshot_files_cases)
    case (taken e d1)
    have "f = d1 \<or> f = truncateUpTo (lastApplied (sm n)) d1" using assms taken(4) by simp
    then show ?thesis using truncated_entries(1)[of _ d1] by (auto simp: taken(3) db_simps)
  qed (use assms in simp)
  then show "db_ok (db n) \<Longrightarrow> db_ok f" "current_term f = current_term (db n)" "voted_for f = voted_for (db n)"
    "set (log_entries f) \<subseteq> set (log_entries (db n))" "snapshots f \<noteq> []" by blast+
qed

text \<open>The files of \<open>handleAppendEntries\<close> after the term is written.\<close>

lemma append_files_cases:
  assumes "f \<in> set (append_files r n)"
  obtains (newer) "f \<in> set (term_files (ae_term r) n)"
  | (stored) d where "currentTerm n \<le> ae_term r" "d = db (accept_leader (ae_term r) (ae_leaderId r) n)"
      "ae_prevLogIndex r < 0 \<or> prev_matches (db n) (ae_prevLogIndex r) (ae_prevLogTerm r)"
      "f \<in> set (store_files (ae_entries r) d)"
  | (snapshot) m where "currentTerm n \<le> ae_term r"
      "db m = store_entries (ae_entries r) (db (accept_leader (ae_term r) (ae_leaderId r) n))" "f \<in> set (snapshot_files m)"
proof -
  let ?n1 = "accept_leader (ae_term r) (ae_leaderId r) n"
  let ?n2 = "?n1\<lparr>db := store_entries (ae_entries r) (db ?n1)\<rparr>"
  let ?n3 = "apply_loop (?n2\<lparr>commitIndex := min (ae_leaderCommit r) (lastIndex (db ?n2))\<rparr>)"
  have n: "\<not> ae_term r < currentTerm n" using assms by (auto simp: append_files_def)
  have d3: "db ?n3 = store_entries (ae_entries r) (db ?n1)" by (simp add: node_frame)
  have "f \<in> set (term_files (ae_term r) n) \<or>
      (ae_prevLogIndex r < 0 \<or> prev_matches (db n) (ae_prevLogIndex r) (ae_prevLogTerm r)) \<and>
      (f \<in> set (store_files (ae_entries r) (db ?n1)) \<or> f \<in> set (snapshot_files ?n3))"
    using assms n by (auto simp: append_files_def Let_def node_frame not_le split: if_splits)
  then show thesis using newer stored[OF _ refl] snapshot[OF _ d3] n by (metis not_less)
qed

lemma accept_file:
  assumes "durable n" "db_ok (db n)" "currentTerm n \<le> t"
  shows "file_le n (db (accept_leader t l n))" "current_term (db (accept_leader t l n)) = t"
    "log_entries (db (accept_leader t l n)) = log_entries (db n)"
proof -
  have d: "durable (accept_leader t l n)" using assms(1) by (auto simp: accept_leader_def durable_def node_frame db_simps)
  moreover have "vote_le n (accept_leader t l n)" "currentTerm (accept_leader t l n) = t"
    using assms(3) by (auto simp: accept_leader_def vote_le_def node_frame)
  ultimately show "file_le n (db (accept_leader t l n))" "current_term (db (accept_leader t l n)) = t"
    using db_ok_accept_leader(1)[OF assms(2)] by (auto simp: file_le_def durable_def vote_le_def)
  show "log_entries (db (accept_leader t l n)) = log_entries (db n)" by (simp add: node_frame)
qed

lemma append_files_ok:
  assumes n: "durable n" "db_ok (db n)" and f: "f \<in> set (append_files r n)"
  shows "file_le n f" "set (log_entries f) \<subseteq> set (log_entries (db n)) \<union> set (ae_entries r)"
    "snapshots f = [] \<Longrightarrow> snapshots (db n) = []" "current_term f = ae_term r"
proof -
  have "file_le n f \<and> set (log_entries f) \<subseteq> set (log_entries (db n)) \<union> set (ae_entries r) \<and>
    (snapshots f = [] \<longrightarrow> snapshots (db n) = []) \<and> current_term f = ae_term r"
  proof (cases rule: append_files_cases[OF f, case_names newer stored snapshot])
    case newer
    with term_files_ok[OF n(2) newer] show ?thesis by simp
  next
    case (stored d)
    note a = accept_file[OF n stored(1), of "ae_leaderId r", folded stored(2)]
    have "snapshots d = snapshots (db n)" by (simp add: stored(2) accept_leader_def node_frame db_simps)
    moreover have "f = truncateFrom (find_write_start d (ae_entries r)) d \<or> f = store_entries (ae_entries r) d"
      using stored(4) by (auto simp: store_files_def split: if_splits)
    moreover have "db_ok d" using a(1) by (simp add: file_le_def)
    ultimately show ?thesis
      using a truncated_entries(2)[of _ d] store_entries_source[of _ "ae_entries r" d]
      by (auto simp: db_simps db_ok_store_entries intro: file_le_mono)
  next
    case (snapshot m)
    note a = accept_file[OF n snapshot(1), of "ae_leaderId r"] and s = snapshot_files_ok[OF snapshot(3)]
    have "db_ok (db m)" using a(1) by (simp add: snapshot(2) file_le_def db_ok_store_entries)
    with a s store_entries_source[of _ "ae_entries r" "db (accept_leader (ae_term r) (ae_leaderId r) n)"] snapshot(2) show ?thesis
      by (auto simp: db_simps file_le_def)
  qed
  then show "file_le n f" "set (log_entries f) \<subseteq> set (log_entries (db n)) \<union> set (ae_entries r)"
    "snapshots f = [] \<Longrightarrow> snapshots (db n) = []" "current_term f = ae_term r" by blast+
qed

lemma install_files_ok:
  assumes n: "durable n" "db_ok (db n)" and f: "f \<in> set (install_files r n)"
  shows "file_le n f" "set (log_entries f) \<subseteq> set (log_entries (db n))" "snapshots f = [] \<Longrightarrow> snapshots (db n) = []"
proof -
  let ?d = "db (accept_leader (is_term r) (is_leaderId r) n)"
  have t: "currentTerm n \<le> is_term r" using f by (auto simp: install_files_def split: if_splits)
  note a = accept_file[OF n t, of "is_leaderId r"]
  have sn: "snapshots ?d = snapshots (db n)" by (simp add: accept_leader_def node_frame db_simps)
  consider "f \<in> set (term_files (is_term r) n)"
    | d1 where "d1 = truncateUpTo (is_lastIncludedIndex r) ?d \<or> d1 = truncateAll ?d"
        "f = d1 \<or> f = saveSnapshot (is_lastIncludedIndex r) (is_lastIncludedTerm r) (is_data r)
           (now (accept_leader (is_term r) (is_leaderId r) n)) d1"
    using f t by (auto simp: install_files_def Let_def split: if_splits)
  then have "file_le n f \<and> set (log_entries f) \<subseteq> set (log_entries (db n)) \<and> (snapshots f = [] \<longrightarrow> snapshots (db n) = [])"
  proof cases
    case 1
    with term_files_ok[OF n(2) 1] show ?thesis by simp
  next
    case (2 d1)
    have d: "db_ok d1" "current_term d1 = current_term ?d" "voted_for d1 = voted_for ?d"
      "set (log_entries d1) \<subseteq> set (log_entries ?d)" "snapshots d1 = snapshots ?d"
      using 2(1) a(1) truncated_entries(1)[of _ ?d] by (auto simp: db_simps file_le_def) (simp_all add: truncateAll_def)
    from 2(2) show ?thesis
    proof
      assume "f = d1"
      with d a sn show ?thesis by (auto simp: file_le_def)
    next
      assume f: "f = saveSnapshot (is_lastIncludedIndex r) (is_lastIncludedTerm r) (is_data r)
           (now (accept_leader (is_term r) (is_leaderId r) n)) d1"
      with d a sn show ?thesis by (auto simp: file_le_def db_simps)
    qed
  qed
  then show "file_le n f" "set (log_entries f) \<subseteq> set (log_entries (db n))" "snapshots f = [] \<Longrightarrow> snapshots (db n) = []"
    by blast+
qed

lemma commit_files_ok:
  assumes "durable n" "db_ok (db n)" "f \<in> set (commit_files n)"
  shows "file_le n f" "set (log_entries f) \<subseteq> set (log_entries (db n))" "snapshots f \<noteq> []"
proof -
  obtain i where "f \<in> set (snapshot_files (apply_loop (n\<lparr>commitIndex := i\<rparr>)))"
    using assms(3) by (auto simp: commit_files_def split: if_splits option.splits)
  note s = snapshot_files_ok[OF this]
  have d: "db (apply_loop (n\<lparr>commitIndex := i\<rparr>)) = db n" by (simp add: node_frame)
  show "file_le n f" "set (log_entries f) \<subseteq> set (log_entries (db n))" "snapshots f \<noteq> []"
    using s[unfolded d] assms(1,2) by (simp_all add: file_le_def durable_def)
qed

lemma reply_files_ok:
  assumes n: "durable n" "db_ok (db n)" and f: "f \<in> set (reply_files p r b n)"
  shows "file_le n f" "set (log_entries f) \<subseteq> set (log_entries (db n))"
    "snapshots f = [] \<Longrightarrow> snapshots (db n) = [] \<and> log_entries f = log_entries (db n)"
proof -
  consider "f \<in> set (term_files (ar_term b) n)"
    | m x where "f \<in> set (commit_files (n\<lparr>matchIndex := m, nextIndex := x\<rparr>))"
    using f by (auto simp: reply_files_def Let_def split: if_splits)
  then have "file_le n f \<and> set (log_entries f) \<subseteq> set (log_entries (db n)) \<and>
    (snapshots f = [] \<longrightarrow> snapshots (db n) = [] \<and> log_entries f = log_entries (db n))"
  proof cases
    case 1
    with term_files_ok[OF n(2) 1] show ?thesis by auto
  next
    case (2 m x)
    have "durable (n\<lparr>matchIndex := m, nextIndex := x\<rparr>)" "db_ok (db (n\<lparr>matchIndex := m, nextIndex := x\<rparr>))"
      using n by (simp_all add: durable_def)
    from commit_files_ok[OF this 2] show ?thesis by (simp add: file_le_def)
  qed
  then show "file_le n f" "set (log_entries f) \<subseteq> set (log_entries (db n))"
    "snapshots f = [] \<Longrightarrow> snapshots (db n) = [] \<and> log_entries f = log_entries (db n)" by blast+
qed

subsection \<open>Starting from a file\<close>

text \<open>A new process of the node: its configuration, the file, an empty state machine.\<close>

definition reboot :: "int \<Rightarrow> int \<Rightarrow> int \<Rightarrow> node \<Rightarrow> node" where
  "reboot mx t x n =
     start (new_node (replicaId n) (peers n) (config n) (open_db (Some (db n))) (new_state_machine mx) t x)"

lemma reboot_facts:
  "role (reboot mx t x n) = FOLLOWER" "currentTerm (reboot mx t x n) = current_term (db n)"
  "votedFor (reboot mx t x n) = voted_for (db n)" "db (reboot mx t x n) = db n"
  "replicaId (reboot mx t x n) = replicaId n" "peers (reboot mx t x n) = peers n"
  "outbox (reboot mx t x n) = []"
  by (simp_all add: reboot_def start_def Let_def node_frame new_node_def open_db_def loadMeta_def
      split: option.split)

lemma reboot_state:
  "commitIndex (reboot mx t x n) = (case loadLatestSnapshot (db n) of None \<Rightarrow> -1 | Some s \<Rightarrow> s_index s)"
  "sm (reboot mx t x n) = (case loadLatestSnapshot (db n) of None \<Rightarrow> new_state_machine mx
     | Some s \<Rightarrow> restoreSnapshot (s_blob s) (s_index s) (new_state_machine mx))"
  by (simp_all add: reboot_def start_def Let_def node_frame new_node_def open_db_def loadLatestSnapshot_def)

lemma loadLatestSnapshot_cut: "loadLatestSnapshot (truncateUpTo i d) = loadLatestSnapshot d"
  by (simp add: loadLatestSnapshot_def db_simps)

subsection \<open>Properties\<close>

text \<open>
  The lists of files are complete. The last file of a handler is the one that the handler leaves; an
  empty list means that the handler leaves the file alone. So a crash at any moment of the handler leaves
  the file from before it or one of the list.
\<close>

theorem crash_files_complete:
  "last (db n # vote_files v n) = db (fst (handleRequestVote v n))
 \<and> last (db n # append_files a n) = db (fst (handleAppendEntries a n))
 \<and> last (db n # install_files i n) = db (fst (handleInstallSnapshot i n))
 \<and> last (db n # reply_files p a b n) = db (appendReply p a b n)"
  using last_vote_files last_append_files last_install_files last_reply_files by blast

text \<open>
  C27: a crash between the snapshot and the compaction does no harm. Started from the file that has the
  snapshot and still the whole log, the node has the same term, vote, commit index and state machine as from
  the compacted file, namely those before the crash, the same last index and term, passes the same
  consistency checks of replication calls, and finds the same entries after the snapshot.
\<close>

theorem crash_while_compacting:
  assumes "db_ok (db n)" "sm_ok (sm n)" "snapshot_files n = [d1, d2]"
  shows "let mx = dedupeMaxClients (sm n); m1 = reboot mx t x (n\<lparr>db := d1\<rparr>); m2 = reboot mx t x (n\<lparr>db := d2\<rparr>)
    in commitIndex m1 = lastApplied (sm n) \<and> commitIndex m2 = lastApplied (sm n)
     \<and> sm m1 = sm n \<and> sm m2 = sm n
     \<and> currentTerm m1 = current_term (db n) \<and> currentTerm m2 = currentTerm m1
     \<and> votedFor m1 = voted_for (db n) \<and> votedFor m2 = votedFor m1
     \<and> lastIndex (db m1) = lastIndex (db n) \<and> lastIndex (db m2) = lastIndex (db n)
     \<and> lastTerm (db m1) = lastTerm (db n) \<and> lastTerm (db m2) = lastTerm (db n)
     \<and> (\<forall>i pt. prev_matches (db m1) i pt = prev_matches (db m2) i pt)
     \<and> (\<forall>i > lastApplied (sm n). getEntry (db m1) i = getEntry (db n) i \<and> getEntry (db m2) i = getEntry (db n) i)"
proof (cases n rule: snapshot_files_cases)
  case none
  with assms(3) show ?thesis by simp
next
  case (taken e d)
  let ?a = "lastApplied (sm n)"
  have d: "d1 = d" "d2 = truncateUpTo ?a d" using assms(3) taken(4) by auto
  have srt: "log_sorted (db n)" using assms(1) by (simp add: db_ok_def)
  have ld: "loadLatestSnapshot x = Some \<lparr>s_id = snap_autoinc (db n) + 1, s_index = ?a, s_term = e_term e,
      s_blob = getSnapshot (sm n), s_created = now n\<rparr>" if "x = d1 \<or> x = d2" for x
    using that saveSnapshot_latest[of ?a "e_term e" "getSnapshot (sm n)" "now n" "db n"]
    by (auto simp: d taken(3) loadLatestSnapshot_cut)
  have get: "getEntry d1 i = getEntry (db n) i" "getEntry d2 i = (if i \<le> ?a then None else getEntry (db n) i)" for i
    by (simp_all add: d taken(3) plog.get_cut_upto db_simps)
  have m: "last_snapshot_index x = ?a" "last_snapshot_term x = e_term e" "current_term x = current_term (db n)"
    "voted_for x = voted_for (db n)" if "x = d1 \<or> x = d2" for x
    using that by (auto simp: d taken(3) db_simps)
  note m1 = m[of d1, OF disjI1[OF refl]] and m2 = m[of d2, OF disjI2[OF refl]]
  note l1 = ld[of d1, OF disjI1[OF refl]] and l2 = ld[of d2, OF disjI2[OF refl]]
  have pm: "prev_matches d1 i pt = prev_matches d2 i pt" for i pt
    by (simp add: prev_matches_def loadMeta_def Let_def m1 m2 get)
  have x1: "lastIndex d1 = lastIndex (db n)" "lastTerm d1 = lastTerm (db n)"
  proof -
    have "log_entries (db n) \<noteq> []" using taken(1) by (auto simp: getEntry_def)
    then show "lastIndex d1 = lastIndex (db n)" "lastTerm d1 = lastTerm (db n)"
      by (simp_all add: d taken(3) lastIndex_def lastTerm_def db_simps)
  qed
  have x2: "lastIndex d2 = lastIndex (db n)" "lastTerm d2 = lastTerm (db n)"
    unfolding d taken(3) by (rule compact_positions[OF srt taken(1) refl])+
  have rs: "restoreSnapshot (getSnapshot (sm n)) ?a (new_state_machine (dedupeMaxClients (sm n))) = sm n"
    by (rule restore_getSnapshot[OF assms(2)]) (simp add: new_state_machine_def)
  show ?thesis unfolding Let_def by (simp add: reboot_facts reboot_state l1 l2 m1 m2 x1 x2 rs pm get)
qed

definition demo_compacting :: node where
  "demo_compacting = demo_node\<lparr>config := default_config\<lparr>snapshotThreshold := 2\<rparr>,
     sm := apply_log (take 2 demo_log) (new_state_machine 10)\<rparr>"

theorem crash_while_compacting_witness:
  "\<exists>d1 d2. snapshot_files demo_compacting = [d1, d2] \<and> length (log_entries d2) < length (log_entries d1) \<and>
     sm (reboot 10 0 0 (demo_compacting\<lparr>db := d1\<rparr>)) = sm demo_compacting \<and>
     sm (reboot 10 0 0 (demo_compacting\<lparr>db := d2\<rparr>)) = sm demo_compacting"
proof -
  have f: "length (snapshot_files demo_compacting) = 2"
    "length (log_entries (snapshot_files demo_compacting ! 1)) < length (log_entries (snapshot_files demo_compacting ! 0))"
    "dedupeMaxClients (sm demo_compacting) = 10" by code_simp+
  then obtain d1 d2 where d: "snapshot_files demo_compacting = [d1, d2]"
    by (auto simp: length_Suc_conv numeral_2_eq_2)
  have "db_ok (db demo_compacting)" "sm_ok (sm demo_compacting)"
    by (simp_all add: demo_compacting_def demo_node_facts sm_ok_apply_log sm_ok_new)
  from crash_while_compacting[OF this d, of 0 0] f d show ?thesis by (auto simp: Let_def)
qed

text \<open>
  C26: a crash while a snapshot is installed loses the log. When a node holds no entry that matches the
  snapshot, \<open>handleInstallSnapshot\<close> deletes its log before it saves the snapshot. Started from the file
  in between, the node is back at its previous snapshot, whatever it has acknowledged since, and it grants its vote
  to any candidate of a newer term whose log has come as far as that snapshot.
\<close>

theorem crash_while_installing_loses_log:
  assumes "currentTerm n \<le> is_term r" "last_snapshot_index (db n) < is_lastIncludedIndex r"
    and "\<forall>e. getEntry (db n) (is_lastIncludedIndex r) = Some e \<longrightarrow> e_term e \<noteq> is_lastIncludedTerm r"
  shows "\<exists>f \<in> set (install_files r n). let m = reboot mx t x (n\<lparr>db := f\<rparr>)
    in log_entries (db m) = [] \<and> snapshots (db m) = snapshots (db n)
     \<and> lastIndex (db m) = last_snapshot_index (db n) \<and> lastTerm (db m) = last_snapshot_term (db n)
     \<and> (\<forall>v. currentTerm m < rv_term v \<and> rv_lastLogTerm v = last_snapshot_term (db n)
          \<and> last_snapshot_index (db n) \<le> rv_lastLogIndex v \<longrightarrow> vr_granted (snd (handleRequestVote v m)))"
proof -
  let ?d = "db (accept_leader (is_term r) (is_leaderId r) n)"
  let ?f = "truncateAll ?d" let ?m = "reboot mx t x (n\<lparr>db := ?f\<rparr>)"
  have g: "getEntry ?d i = getEntry (db n) i" "last_snapshot_index ?d = last_snapshot_index (db n)"
    "last_snapshot_term ?d = last_snapshot_term (db n)" "snapshots ?d = snapshots (db n)" for i
    by (simp_all add: accept_leader_def node_frame db_simps)
  have "?f \<in> set (install_files r n)"
    using assms by (auto simp: install_files_def Let_def loadMeta_def g split: option.splits)
  moreover have d: "db ?m = ?f" by (simp add: reboot_facts)
  moreover have "lastIndex ?f = last_snapshot_index (db n)" "lastTerm ?f = last_snapshot_term (db n)"
    "snapshots ?f = snapshots (db n)" by (simp_all add: lastIndex_def lastTerm_def db_simps g truncateAll_def)
  moreover have "vr_granted (snd (handleRequestVote v ?m))"
    if "currentTerm ?m < rv_term v" "rv_lastLogTerm v = lastTerm ?f" "lastIndex ?f \<le> rv_lastLogIndex v" for v
    using that by (simp add: handleRequestVote_def Let_def node_frame d db_simps)
  ultimately show ?thesis unfolding Let_def by (intro bexI[of _ ?f]) (simp_all add: db_simps)
qed

theorem crash_while_installing_loses_log_witness:
  "\<exists>f \<in> set (install_files \<lparr>is_term = 2, is_leaderId = ''n2'', is_lastIncludedIndex = 9, is_lastIncludedTerm = 2,
       is_data = getSnapshot (new_state_machine 10)\<rparr> demo_node).
     log_entries f = [] \<and> log_entries (db demo_node) = demo_log \<and>
     vr_granted (snd (handleRequestVote \<lparr>rv_term = 3, rv_candidateId = ''n3'', rv_lastLogIndex = -1, rv_lastLogTerm = -1\<rparr>
       (reboot 10 0 0 (demo_node\<lparr>db := f\<rparr>))))"
proof -
  let ?r = "\<lparr>is_term = 2, is_leaderId = ''n2'', is_lastIncludedIndex = 9, is_lastIncludedTerm = 2,
       is_data = getSnapshot (new_state_machine 10)\<rparr>"
  have g: "getEntry (db demo_node) 9 = None" by code_simp
  have t: "last_snapshot_term (db demo_node) = -1" by code_simp
  obtain f where f: "f \<in> set (install_files ?r demo_node)" "log_entries (db (reboot 10 0 0 (demo_node\<lparr>db := f\<rparr>))) = []"
    "\<forall>v. currentTerm (reboot 10 0 0 (demo_node\<lparr>db := f\<rparr>)) < rv_term v \<and> rv_lastLogTerm v = -1 \<and>
      -1 \<le> rv_lastLogIndex v \<longrightarrow> vr_granted (snd (handleRequestVote v (reboot 10 0 0 (demo_node\<lparr>db := f\<rparr>))))"
    using crash_while_installing_loses_log[of demo_node ?r 10 0 0] g t demo_node_facts by (auto simp: Let_def)
  have "\<forall>f \<in> set (install_files ?r demo_node). current_term f \<le> 2" by code_simp
  with f(1) have "current_term f \<le> 2" by blast
  with f show ?thesis by (intro bexI[of _ f]) (simp_all add: reboot_facts demo_node_facts)
qed

end
