(* ===== verification/Cluster.thy ===== *)
theory Cluster imports Crash_Points begin

text \<open>
  A cluster of nodes and the network between them, as a step relation whose steps are the handlers of
  \<open>RaftNode.js\<close> at one node.  Calls and answers, once made, may be delivered any number of times,
  in any order, or never. A node may be restarted from its file between handlers, and may crash inside a
  handler after any of its writes (\<open>power_loss\<close>): it is then started from the file it had at that moment.

  The components \<open>ballots\<close>, \<open>leaders\<close>, \<open>created\<close> and \<open>leader_logs\<close> only record what has
  happened: which node has held which vote in which term, which node has led which term, which entries a
  leader has held of its own term, and which logs leaders have had.  No step reads them.

  \<open>step_if ok\<close> delivers an answer \<open>b\<close> to a replication call \<open>r\<close> only when \<open>ok\<close> holds of
  \<open>r\<close> and the leader. The code asks for nothing, which is \<open>step\<close>.
\<close>

record cluster =
  urls :: "string list"
  nodes :: "string \<Rightarrow> node"
  calls :: "(string \<times> string \<times> call) set"
  vote_answers :: "(string \<times> string \<times> request_vote \<times> vote_reply) set"
  append_answers :: "(string \<times> string \<times> append_entries \<times> append_reply) set"
  snapshot_answers :: "(string \<times> string \<times> install_snapshot \<times> int) set"
  ballots :: "(string \<times> int \<times> string) set"
  leaders :: "(string \<times> int) set"
  created :: "entry set"
  leader_logs :: "entry list set"

definition own_entries :: "node \<Rightarrow> entry set" where
  "own_entries n =
     (if role n = LEADER then set (filter (\<lambda>e. e_term e = currentTerm n) (log_entries (db n))) else {})"

text \<open>Node \<open>u\<close> moves to \<open>n\<close>; what it has handed to the transport becomes deliverable.\<close>

definition put_node :: "string \<Rightarrow> node \<Rightarrow> cluster \<Rightarrow> cluster" where
  "put_node u n C = C
     \<lparr>nodes := (nodes C)(u := n),
      calls := calls C \<union> set (map (\<lambda>(p, c). (u, p, c)) (outbox n)),
      ballots := ballots C \<union> (case votedFor n of None \<Rightarrow> {} | Some c \<Rightarrow> {(u, currentTerm n, c)}),
      leaders := leaders C \<union> (if role n = LEADER then {(u, currentTerm n)} else {}),
      created := created C \<union> own_entries n,
      leader_logs := leader_logs C \<union> (if role n = LEADER then {log_entries (db n)} else {})\<rparr>"

text \<open>The answers to the vote calls of \<open>u\<close> in term \<open>t\<close>, one place per peer, \<open>None\<close> for a failure.\<close>

definition vote_results :: "cluster \<Rightarrow> string \<Rightarrow> int \<Rightarrow> vote_reply option list \<Rightarrow> bool" where
  "vote_results C u t rs \<longleftrightarrow>
     list_all2 (\<lambda>p x. case x of None \<Rightarrow> True | Some b \<Rightarrow>
         \<exists>r. rv_term r = t \<and> (u, p, VoteCall r) \<in> calls C \<and> (p, u, r, b) \<in> vote_answers C)
       (peers (nodes C u)) rs"

definition read_results :: "cluster \<Rightarrow> string \<Rightarrow> int \<Rightarrow> append_reply option list \<Rightarrow> bool" where
  "read_results C u t rs \<longleftrightarrow>
     list_all2 (\<lambda>p x. case x of None \<Rightarrow> True | Some b \<Rightarrow>
         \<exists>r. ae_term r = t \<and> (u, p, ReadCall r) \<in> calls C \<and> (p, u, r, b) \<in> append_answers C)
       (peers (nodes C u)) rs"

text \<open>A file that a handler of \<open>u\<close> for a call or an answer on the way leaves at one of its writes.\<close>

definition torn :: "cluster \<Rightarrow> string \<Rightarrow> db \<Rightarrow> bool" where
  "torn C u f \<longleftrightarrow>
     (\<exists>w r. (w, u, VoteCall r) \<in> calls C \<and> f \<in> set (vote_files r (nodes C u))) \<or>
     (\<exists>w c r. (w, u, c) \<in> calls C \<and> (c = AppendCall r \<or> c = ReadCall r) \<and> f \<in> set (append_files r (nodes C u))) \<or>
     (\<exists>w r. (w, u, SnapshotCall r) \<in> calls C \<and> f \<in> set (install_files r (nodes C u))) \<or>
     (\<exists>p r b. (u, p, AppendCall r) \<in> calls C \<and> (p, u, r, b) \<in> append_answers C \<and>
        f \<in> set (reply_files p r b (nodes C u)))"

inductive step_if :: "(append_entries \<Rightarrow> node \<Rightarrow> bool) \<Rightarrow> cluster \<Rightarrow> cluster \<Rightarrow> bool" for ok where
  clock: "u \<in> set (urls C) \<Longrightarrow>
    step_if ok C (put_node u ((nodes C u)\<lparr>now := t, rnd := x\<rparr>) C)"
| election_timeout: "u \<in> set (urls C) \<Longrightarrow> electionTimer (nodes C u) \<noteq> None \<Longrightarrow>
    step_if ok C (put_node u (startElection (nodes C u)) C)"
| heartbeat: "u \<in> set (urls C) \<Longrightarrow> heartbeatTimer (nodes C u) \<noteq> None \<Longrightarrow>
    step_if ok C (put_node u (sendAppendEntriesToAll (nodes C u)) C)"
| deliver_vote: "(u, v, VoteCall r) \<in> calls C \<Longrightarrow> v \<in> set (urls C) \<Longrightarrow>
    handleRequestVote r (nodes C v) = (n, b) \<Longrightarrow>
    step_if ok C ((put_node v n C)\<lparr>vote_answers := insert (v, u, r, b) (vote_answers C)\<rparr>)"
| vote_round: "u \<in> set (urls C) \<Longrightarrow> vote_results C u t rs \<Longrightarrow>
    step_if ok C (put_node u (electionResults t rs (nodes C u)) C)"
| deliver_append: "(u, v, c) \<in> calls C \<Longrightarrow> c = AppendCall r \<or> c = ReadCall r \<Longrightarrow> v \<in> set (urls C) \<Longrightarrow>
    handleAppendEntries r (nodes C v) = (n, b) \<Longrightarrow>
    step_if ok C ((put_node v n C)\<lparr>append_answers := insert (v, u, r, b) (append_answers C)\<rparr>)"
| append_answer: "u \<in> set (urls C) \<Longrightarrow> (u, p, AppendCall r) \<in> calls C \<Longrightarrow> (p, u, r, b) \<in> append_answers C \<Longrightarrow>
    ok r (nodes C u) \<Longrightarrow> step_if ok C (put_node u (appendReply p r b (nodes C u)) C)"
| deliver_snapshot: "(u, v, SnapshotCall r) \<in> calls C \<Longrightarrow> v \<in> set (urls C) \<Longrightarrow>
    handleInstallSnapshot r (nodes C v) = (n, t) \<Longrightarrow>
    step_if ok C ((put_node v n C)\<lparr>snapshot_answers := insert (v, u, r, t) (snapshot_answers C)\<rparr>)"
| snapshot_answer: "u \<in> set (urls C) \<Longrightarrow> (u, p, SnapshotCall r) \<in> calls C \<Longrightarrow> (p, u, r, t) \<in> snapshot_answers C \<Longrightarrow>
    step_if ok C (put_node u (snapshotReply p r t (nodes C u)) C)"
| client_submit: "u \<in> set (urls C) \<Longrightarrow>
    step_if ok C (put_node u (fst (submit_begin STROKE p (nodes C u))) C)"
| client_read: "u \<in> set (urls C) \<Longrightarrow>
    step_if ok C (put_node u (fst (readIndex_begin (nodes C u))) C)"
| read_round: "u \<in> set (urls C) \<Longrightarrow> read_results C u t rs \<Longrightarrow>
    step_if ok C (put_node u (fst (readIndex_results t rs (nodes C u))) C)"
| halt: "u \<in> set (urls C) \<Longrightarrow> step_if ok C (put_node u (stop (nodes C u)) C)"
| restart: "u \<in> set (urls C) \<Longrightarrow> step_if ok C (put_node u (reboot mx t x (nodes C u)) C)"
| power_loss: "u \<in> set (urls C) \<Longrightarrow> torn C u f \<Longrightarrow>
    step_if ok C (put_node u (reboot mx t x ((nodes C u)\<lparr>db := f\<rparr>)) C)"

abbreviation step :: "cluster \<Rightarrow> cluster \<Rightarrow> bool" where
  "step \<equiv> step_if (\<lambda>r n. True)"

text \<open>
  The start of a cluster: distinct URLs and replica ids, each node with the others as its peers,
  started on a new file.
\<close>

definition started_fresh :: "node \<Rightarrow> bool" where
  "started_fresh n \<longleftrightarrow>
     (\<exists>rid ps cfg mx t x. n = start (new_node rid ps cfg fresh_db (new_state_machine mx) t x))"

definition initial :: "cluster \<Rightarrow> bool" where
  "initial C \<longleftrightarrow>
     distinct (urls C) \<and> inj_on (\<lambda>u. replicaId (nodes C u)) (set (urls C)) \<and>
     list_all (\<lambda>u. distinct (peers (nodes C u)) \<and> set (peers (nodes C u)) = set (urls C) - {u} \<and>
       started_fresh (nodes C u))
       (urls C) \<and>
     calls C = {} \<and> vote_answers C = {} \<and> append_answers C = {} \<and> snapshot_answers C = {} \<and>
     ballots C = {} \<and> leaders C = {} \<and> created C = {} \<and> leader_logs C = {}"

inductive reachable_if :: "(append_entries \<Rightarrow> node \<Rightarrow> bool) \<Rightarrow> cluster \<Rightarrow> bool" for ok where
  reach_init: "initial C \<Longrightarrow> reachable_if ok C"
| reach_step: "reachable_if ok C \<Longrightarrow> step_if ok C C' \<Longrightarrow> reachable_if ok C'"

abbreviation reachable :: "cluster \<Rightarrow> bool" where
  "reachable \<equiv> reachable_if (\<lambda>r n. True)"

lemma step_if_mono:
  assumes "step_if ok C C'" "\<And>r n. ok r n \<Longrightarrow> ok' r n"
  shows "step_if ok' C C'"
  using assms(1) by cases (auto intro: step_if.intros assms(2))

lemma reachable_if_mono:
  assumes "reachable_if ok C" "\<And>r n. ok r n \<Longrightarrow> ok' r n"
  shows "reachable_if ok' C"
  using assms(1) by induction (auto intro: reachable_if.intros step_if_mono assms(2))

lemma put_node_simps [simp]:
  "urls (put_node u n C) = urls C"
  "nodes (put_node u n C) = (nodes C)(u := n)"
  "calls (put_node u n C) = calls C \<union> {(u, p, c) |p c. (p, c) \<in> set (outbox n)}"
  "ballots (put_node u n C) = ballots C \<union> {(u, currentTerm n, c) |c. votedFor n = Some c}"
  "leaders (put_node u n C) = leaders C \<union> {(u, t) |t. role n = LEADER \<and> t = currentTerm n}"
  "created (put_node u n C) = created C \<union> own_entries n"
  "leader_logs (put_node u n C) = leader_logs C \<union> {l. role n = LEADER \<and> l = log_entries (db n)}"
  "vote_answers (put_node u n C) = vote_answers C"
  "append_answers (put_node u n C) = append_answers C"
  "snapshot_answers (put_node u n C) = snapshot_answers C"
  by (auto simp: put_node_def split: option.split)

subsection \<open>An interface: votes and the leaders they elect\<close>

text \<open>
  What election safety rests on, whatever the nodes are: a member votes for at most one candidate in
  a term, and whoever was elected in a term has the votes of more than half of the members.
\<close>

locale balloting =
  fixes ok :: "'s \<Rightarrow> bool"
    and members :: "'s \<Rightarrow> 'v set"
    and voted :: "'s \<Rightarrow> ('v \<times> int \<times> 'c) set"
    and elected :: "'s \<Rightarrow> ('c \<times> int) set"
  assumes finite_members: "ok s \<Longrightarrow> finite (members s)"
    and one_vote: "ok s \<Longrightarrow> (v, t, c) \<in> voted s \<Longrightarrow> (v, t, c') \<in> voted s \<Longrightarrow> c = c'"
    and backed: "ok s \<Longrightarrow> (c, t) \<in> elected s \<Longrightarrow>
       \<exists>Q \<subseteq> members s. card (members s) < 2 * card Q \<and> (\<forall>v \<in> Q. (v, t, c) \<in> voted s)"
begin

lemma majorities_meet:
  assumes "finite M" "Q \<subseteq> M" "R \<subseteq> M" "card M < 2 * card Q" "card M < 2 * card R"
  shows "Q \<inter> R \<noteq> {}"
proof
  assume "Q \<inter> R = {}"
  then have "card Q + card R = card (Q \<union> R)"
    using assms by (metis card_Un_disjoint finite_subset)
  also have "\<dots> \<le> card M" using assms by (simp add: card_mono)
  finally show False using assms by simp
qed

lemma one_elected:
  assumes "ok s" "(c, t) \<in> elected s" "(c', t) \<in> elected s"
  shows "c = c'"
proof -
  obtain Q where Q: "Q \<subseteq> members s" "card (members s) < 2 * card Q" "\<forall>v \<in> Q. (v, t, c) \<in> voted s"
    using backed[OF assms(1,2)] by blast
  obtain R where R: "R \<subseteq> members s" "card (members s) < 2 * card R" "\<forall>v \<in> R. (v, t, c') \<in> voted s"
    using backed[OF assms(1,3)] by blast
  obtain v where "v \<in> Q" "v \<in> R"
    using majorities_meet[OF finite_members[OF assms(1)] Q(1) R(1) Q(2) R(2)] by blast
  with Q(3) R(3) one_vote[OF assms(1)] show ?thesis by blast
qed

end


subsection \<open>What a step does at its node\<close>

text \<open>
  \<open>steady X n n'\<close>: \<open>n\<close> moves to \<open>n'\<close> without starting or winning an election and
  without creating an entry; entries that are new to its log come from \<open>X\<close>.
\<close>

definition call_from :: "node \<Rightarrow> call \<Rightarrow> bool" where
  "call_from n c = (case c of
     VoteCall r \<Rightarrow> False
   | AppendCall r \<Rightarrow> set (ae_entries r) \<subseteq> set (log_entries (db n))
   | ReadCall r \<Rightarrow> ae_entries r = []
   | SnapshotCall r \<Rightarrow> True)"

text \<open>What is gone from the log is covered by the snapshot.\<close>

definition kept :: "node \<Rightarrow> node \<Rightarrow> bool" where
  "kept n n' \<longleftrightarrow>
     (\<forall>e \<in> set (log_entries (db n)). e \<in> set (log_entries (db n')) \<or> e_index e \<le> last_snapshot_index (db n'))"

lemma kept_same [simp]: "log_entries (db n') = log_entries (db n) \<Longrightarrow> kept n n'"
  by (simp add: kept_def)

definition steady :: "entry set \<Rightarrow> node \<Rightarrow> node \<Rightarrow> bool" where
  "steady X n n' \<longleftrightarrow> vote_le n n' \<and> durable n' \<and> db_ok (db n') \<and>
     (role n' = FOLLOWER \<or> role n' = role n \<and> currentTerm n' = currentTerm n \<and>
        votedFor n' = votedFor n \<and> lastIndex (db n) \<le> lastIndex (db n') \<and> kept n n') \<and>
     set (log_entries (db n')) \<subseteq> set (log_entries (db n)) \<union> X \<and>
     (\<forall>(p, c) \<in> set (outbox n'). (p, c) \<in> set (outbox n) \<or> call_from n c)"

definition sound :: "node \<Rightarrow> bool" where
  "sound n \<longleftrightarrow> durable n \<and> db_ok (db n) \<and> (role n \<noteq> FOLLOWER \<longrightarrow> votedFor n = Some (replicaId n))"

lemma soundD: "sound n \<Longrightarrow> durable n \<and> db_ok (db n) \<and> log_sorted (db n)"
  by (simp add: sound_def db_ok_def)

lemma steady_refl: "sound n \<Longrightarrow> steady X n n"
  by (auto simp: steady_def sound_def)

lemma steady_becomeFollower:
  assumes "sound n"
  shows "steady X n (becomeFollower t l n)"
proof -
  have "durable (becomeFollower t l n)" using assms by (auto simp: sound_def)
  moreover have "db_ok (db (becomeFollower t l n))" using assms by (auto simp: sound_def node_frame)
  ultimately show ?thesis by (auto simp: steady_def node_frame vote_le_becomeFollower db_simps)
qed

lemma requests_entries: "(p, c) \<in> set (requests n) \<Longrightarrow> call_from n c"
proof -
  have "call_from n c" if "appendRequest n p = Some c" for p c
    using that
    by (auto simp: appendRequest_def snapshotRequest_def call_from_def Let_def getRange_def
        split: if_splits option.splits)
  then show "(p, c) \<in> set (requests n) \<Longrightarrow> call_from n c"
    by (auto simp: requests_def split: option.splits)
qed

lemma steady_heartbeat:
  assumes "sound n"
  shows "steady X n (sendAppendEntriesToAll n)"
proof -
  have "(p, c) \<in> set (outbox n) \<or> call_from n c"
    if "(p, c) \<in> set (outbox (sendAppendEntriesToAll n))" for p c
    using that requests_entries[of p c n] by (auto simp: sendAppendEntriesToAll_eq)
  with assms show ?thesis
    by (auto simp: steady_def sound_def vote_le_def node_frame intro: leader_durable)
qed

lemma accept_leader_outbox [node_frame]: "outbox (accept_leader t l n) = outbox n"
  by (simp add: accept_leader_def node_frame)

lemma handler_outbox [node_frame]:
  "outbox (fst (handleRequestVote r n)) = outbox n"
  "outbox (fst (handleAppendEntries a n)) = outbox n"
  "outbox (fst (handleInstallSnapshot i n)) = outbox n"
  by (auto simp: handleRequestVote_def handleAppendEntries_def handleInstallSnapshot_def node_frame Let_def)

lemma steady_vote:
  assumes "sound n"
  shows "steady X n (fst (handleRequestVote r n))"
proof (cases "rv_term r > currentTerm n")
  case True
  with assms show ?thesis
    by (auto simp: steady_def sound_def handleRequestVote_role handleRequestVote_db node_frame
        intro: handleRequestVote_vote_le handleRequestVote_durable)
next
  case False
  have "votedFor (fst (handleRequestVote r n)) = votedFor n" if "role n \<noteq> FOLLOWER"
    using that False assms by (auto simp: sound_def handleRequestVote_def node_frame Let_def)
  with False assms show ?thesis
    by (cases "role n = FOLLOWER")
      (simp_all add: steady_def sound_def handleRequestVote_role handleRequestVote_db node_frame
        handleRequestVote_vote_le handleRequestVote_durable, auto)
qed

lemma steady_append:
  assumes "sound n"
  shows "steady (set (ae_entries r)) n (fst (handleAppendEntries r n))"
proof (cases "ae_term r < currentTerm n")
  case True
  then have "fst (handleAppendEntries r n) = n" by (simp add: handleAppendEntries_def)
  with assms show ?thesis by (simp add: steady_refl)
next
  case False
  with assms show ?thesis
    using handleAppendEntries_log_source[of _ r n]
    by (auto simp: steady_def sound_def handleAppendEntries_role node_frame handleAppendEntries_vote_le
        handleAppendEntries_durable handleAppendEntries_db_ok)
qed

lemma steady_snapshot:
  assumes "sound n"
  shows "steady X n (fst (handleInstallSnapshot r n))"
proof (cases "is_term r < currentTerm n")
  case True
  then have "fst (handleInstallSnapshot r n) = n" by (simp add: handleInstallSnapshot_def)
  with assms show ?thesis by (simp add: steady_refl)
next
  case False
  with assms show ?thesis
    using handleInstallSnapshot_log_source[of _ r n]
    by (auto simp: steady_def sound_def handleInstallSnapshot_role node_frame handleInstallSnapshot_vote_le
        handleInstallSnapshot_durable handleInstallSnapshot_db_ok)
qed

lemma maybeAdvance_lastIndex:
  "log_sorted (db n) \<Longrightarrow> lastIndex (db (maybeAdvanceCommitIndex n)) = lastIndex (db n)"
  by (cases n rule: maybeAdvance_cases) (simp_all add: node_frame applyCommitted_db)

lemma kept_maybeAdvance: "kept n (maybeAdvanceCommitIndex n)"
proof (cases n rule: maybeAdvance_cases)
  case (yes k)
  let ?m = "apply_loop (n\<lparr>commitIndex := k\<rparr>)"
  have "kept ?m (maybeSnapshot ?m)"
    by (cases ?m rule: maybeSnapshot_cases) (auto simp: kept_def compact_log db_simps)
  then show ?thesis by (simp add: yes kept_def node_frame applyCommitted_def)
qed simp

lemma steady_append_answer:
  assumes "sound n"
  shows "steady X n (appendReply p r b n)"
proof -
  consider "appendReply p r b n = n" | "appendReply p r b n = becomeFollower (ar_term b) None n"
    | m x where "appendReply p r b n = maybeAdvanceCommitIndex (n\<lparr>matchIndex := m, nextIndex := x\<rparr>)"
    | x where "appendReply p r b n = n\<lparr>nextIndex := x\<rparr>"
    by (simp add: appendReply_def Let_def) metis
  then show ?thesis
  proof cases
    case (3 m x)
    let ?m = "n\<lparr>matchIndex := m, nextIndex := x\<rparr>"
    have s: "log_sorted (db ?m)" "db_ok (db ?m)" "durable ?m"
      using soundD[OF assms] by (simp_all add: durable_def)
    show ?thesis
      using maybeAdvance_db[of ?m] maybeAdvance_lastIndex[of ?m] s vote_le_maybeAdvance[of ?m]
        kept_maybeAdvance[of ?m]
      by (auto simp: 3 steady_def node_frame durable_def vote_le_def kept_def)
  next
    case (4 x)
    with assms show ?thesis by (auto simp: steady_def sound_def vote_le_def durable_def)
  qed (use assms in \<open>simp_all add: steady_refl steady_becomeFollower\<close>)
qed

lemma steady_snapshot_answer:
  assumes "sound n"
  shows "steady X n (snapshotReply p r t n)"
proof (cases "stopped n \<or> role n \<noteq> LEADER \<or> t > currentTerm n")
  case True
  with assms show ?thesis by (auto simp: snapshotReply_def steady_refl steady_becomeFollower)
next
  case False
  with assms show ?thesis
    by (auto simp: snapshotReply_def steady_def sound_def vote_le_def durable_def)
qed

lemma steady_read:
  assumes "sound n"
  shows "steady X n (fst (readIndex_begin n))" "steady X n (fst (readIndex_results t rs n))"
proof -
  show "steady X n (fst (readIndex_begin n))"
    using assms
    by (auto simp: steady_def sound_def vote_le_def durable_def node_frame readIndex_begin_def
        broadcast_eq call_from_def)
  show "steady X n (fst (readIndex_results t rs n))"
    using readIndex_results_fst[of t rs n] assms by (auto simp: steady_refl steady_becomeFollower)
qed

lemma steady_reboot: "sound n \<Longrightarrow> steady X n (reboot mx t x n)"
  by (auto simp: steady_def sound_def vote_le_def durable_def reboot_facts)

lemma steady_file:
  assumes "file_le n f" "set (log_entries f) \<subseteq> set (log_entries (db n)) \<union> X"
  shows "steady X n (reboot mx t x (n\<lparr>db := f\<rparr>))"
  using assms by (auto simp: steady_def file_le_def vote_le_def durable_def reboot_facts)

lemma steady_local:
  "sound n \<Longrightarrow> steady X n (n\<lparr>now := t, rnd := x\<rparr>)"
  "sound n \<Longrightarrow> steady X n (stop n)"
  by (auto simp: steady_def sound_def vote_le_def durable_def stop_def node_frame)


subsection \<open>Invariants\<close>

text \<open>The configuration: who the nodes are and who their peers are.\<close>

definition conf :: "cluster \<Rightarrow> bool" where
  "conf C \<longleftrightarrow> distinct (urls C) \<and> inj_on (\<lambda>u. replicaId (nodes C u)) (set (urls C)) \<and>
     (\<forall>u \<in> set (urls C). distinct (peers (nodes C u)) \<and> set (peers (nodes C u)) = set (urls C) - {u})"

text \<open>A vote is recorded, unique in its term, and still the node's vote while the term lasts.\<close>

definition ballot_inv :: "cluster \<Rightarrow> bool" where
  "ballot_inv C \<longleftrightarrow>
     (\<forall>v t c. (v, t, c) \<in> ballots C \<longrightarrow> t \<le> currentTerm (nodes C v) \<and>
        (t = currentTerm (nodes C v) \<longrightarrow> votedFor (nodes C v) = Some c)) \<and>
     (\<forall>v t c c'. (v, t, c) \<in> ballots C \<and> (v, t, c') \<in> ballots C \<longrightarrow> c = c') \<and>
     (\<forall>u \<in> set (urls C). \<forall>c. votedFor (nodes C u) = Some c \<longrightarrow> (u, currentTerm (nodes C u), c) \<in> ballots C)"

definition answer_inv :: "cluster \<Rightarrow> bool" where
  "answer_inv C \<longleftrightarrow>
     (\<forall>v u r b. (v, u, r, b) \<in> vote_answers C \<and> vr_granted b \<longrightarrow>
        (v, rv_term r, rv_candidateId r) \<in> ballots C)"

definition call_inv :: "cluster \<Rightarrow> bool" where
  "call_inv C \<longleftrightarrow>
     (\<forall>u p r. (u, p, VoteCall r) \<in> calls C \<longrightarrow> rv_candidateId r = replicaId (nodes C u)) \<and>
     (\<forall>u p r. (u, p, AppendCall r) \<in> calls C \<or> (u, p, ReadCall r) \<in> calls C \<longrightarrow>
        set (ae_entries r) \<subseteq> created C) \<and>
     (\<forall>u \<in> set (urls C). \<forall>p c. (p, c) \<in> set (outbox (nodes C u)) \<longrightarrow> (u, p, c) \<in> calls C)"

definition leader_inv :: "cluster \<Rightarrow> bool" where
  "leader_inv C \<longleftrightarrow>
     (\<forall>u t. (u, t) \<in> leaders C \<longrightarrow> u \<in> set (urls C) \<and> t \<le> currentTerm (nodes C u) \<and>
        (t = currentTerm (nodes C u) \<longrightarrow> role (nodes C u) \<noteq> CANDIDATE) \<and>
        (\<exists>Q \<subseteq> set (urls C). card (set (urls C)) < 2 * card Q \<and>
           (\<forall>v \<in> Q. (v, t, replicaId (nodes C u)) \<in> ballots C))) \<and>
     (\<forall>u \<in> set (urls C). role (nodes C u) = LEADER \<longrightarrow> (u, currentTerm (nodes C u)) \<in> leaders C)"

definition entry_inv :: "cluster \<Rightarrow> bool" where
  "entry_inv C \<longleftrightarrow>
     (\<forall>e \<in> created C. \<exists>u. (u, e_term e) \<in> leaders C) \<and>
     (\<forall>u \<in> set (urls C). role (nodes C u) = LEADER \<longrightarrow>
        (\<forall>e \<in> created C. e_term e = currentTerm (nodes C u) \<longrightarrow> e_index e \<le> lastIndex (db (nodes C u)))) \<and>
     (\<forall>u \<in> set (urls C). set (log_entries (db (nodes C u))) \<subseteq> created C) \<and>
     (\<forall>e \<in> created C. \<forall>e' \<in> created C. e_index e = e_index e' \<and> e_term e = e_term e' \<longrightarrow> e = e')"

definition vote_inv :: "cluster \<Rightarrow> bool" where
  "vote_inv C \<longleftrightarrow> conf C \<and> (\<forall>u \<in> set (urls C). sound (nodes C u)) \<and> ballot_inv C \<and> leader_inv C"

definition cluster_inv :: "cluster \<Rightarrow> bool" where
  "cluster_inv C \<longleftrightarrow> vote_inv C \<and> answer_inv C \<and> call_inv C \<and> entry_inv C"

text \<open>The votes of a cluster are a balloting, and its leaders are what the balloting elects.\<close>

interpretation ballots: balloting vote_inv "\<lambda>C. set (urls C)" cluster.ballots
  "\<lambda>C. (\<lambda>(u, t). (replicaId (nodes C u), t)) ` leaders C"
proof
  fix s v t c c'
  assume "vote_inv s" "(v, t, c) \<in> cluster.ballots s" "(v, t, c') \<in> cluster.ballots s"
  then show "c = c'" unfolding vote_inv_def ballot_inv_def by blast
next
  fix s c t
  assume "vote_inv s" "(c, t) \<in> (\<lambda>(u, t). (replicaId (nodes s u), t)) ` leaders s"
  then obtain u where "(u, t) \<in> leaders s" "c = replicaId (nodes s u)" "leader_inv s"
    by (auto simp: vote_inv_def)
  then show "\<exists>Q \<subseteq> set (urls s). card (set (urls s)) < 2 * card Q \<and> (\<forall>v \<in> Q. (v, t, c) \<in> cluster.ballots s)"
    unfolding leader_inv_def by blast
qed simp

lemma one_leader:
  assumes "vote_inv C" "(u, t) \<in> leaders C" "(v, t) \<in> leaders C"
  shows "u = v"
proof -
  have "replicaId (nodes C u) = replicaId (nodes C v)"
    by (rule ballots.one_elected[OF assms(1)]; use assms(2,3) in force)
  moreover have "u \<in> set (urls C)" "v \<in> set (urls C)" "inj_on (\<lambda>u. replicaId (nodes C u)) (set (urls C))"
    using assms by (auto simp: vote_inv_def leader_inv_def conf_def)
  ultimately show ?thesis by (auto dest: inj_onD)
qed

text \<open>The kinds of move of one node.\<close>

inductive node_move :: "cluster \<Rightarrow> string \<Rightarrow> node \<Rightarrow> bool" for C u where
  steadily: "X \<subseteq> created C \<Longrightarrow> steady X (nodes C u) n \<Longrightarrow> node_move C u n"
| candidacy: "node_move C u (startElection (nodes C u))"
| victory: "role (nodes C u) = CANDIDATE \<Longrightarrow> Q \<subseteq> set (urls C) \<Longrightarrow> card (set (urls C)) < 2 * card Q \<Longrightarrow>
    \<forall>v \<in> Q. (v, currentTerm (nodes C u), replicaId (nodes C u)) \<in> ballots C \<Longrightarrow>
    node_move C u (becomeLeader (nodes C u))"
| appending: "role (nodes C u) = LEADER \<Longrightarrow>
    node_move C u (sendAppendEntriesToAll (fst (appendLocal ty p (nodes C u))))"

lemma vote_le_appendLocal: "vote_le n (sendAppendEntriesToAll (fst (appendLocal ty p n)))"
  by (simp add: vote_le_def node_frame)

lemma sound_appendLocal: "sound n \<Longrightarrow> sound (sendAppendEntriesToAll (fst (appendLocal ty p n)))"
  by (auto simp: sound_def durable_def node_frame db_simps)

lemma sound_becomeLeader:
  "sound n \<Longrightarrow> role n = CANDIDATE \<Longrightarrow> sound (becomeLeader n)"
  by (auto simp: sound_def leader_durable leader_db_ok) (simp add: node_frame)

lemma sound_startElection: "sound n \<Longrightarrow> sound (startElection n)"
  by (simp add: sound_def leader_durable leader_db_ok) (simp add: node_frame)

lemma node_move_facts:
  assumes "node_move C u n" "sound (nodes C u)"
  shows "vote_le (nodes C u) n" "sound n"
proof -
  show "vote_le (nodes C u) n" using assms(1)
    by cases (simp_all add: steady_def startElection_vote_le becomeLeader_vote_le vote_le_appendLocal)
  from assms(1) show "sound n"
  proof cases
    case steadily
    with assms(2) show ?thesis by (auto simp: steady_def sound_def vote_le_def)
  qed (use assms(2) in \<open>simp_all add: sound_startElection sound_becomeLeader sound_appendLocal\<close>)
qed

lemma put_same:
  "vote_le (nodes C u) n \<Longrightarrow> replicaId (((nodes C)(u := n)) v) = replicaId (nodes C v)"
  "vote_le (nodes C u) n \<Longrightarrow> peers (((nodes C)(u := n)) v) = peers (nodes C v)"
  "vote_le (nodes C u) n \<Longrightarrow> currentTerm (nodes C v) \<le> currentTerm (((nodes C)(u := n)) v)"
  by (simp_all add: vote_le_def)

lemma conf_put: "conf C \<Longrightarrow> vote_le (nodes C u) n \<Longrightarrow> conf (put_node u n C)"
  by (simp add: conf_def put_same del: fun_upd_apply)

lemma ballot_put:
  assumes "ballot_inv C" "vote_le (nodes C u) n"
  shows "ballot_inv (put_node u n C)"
proof -
  let ?N = "(nodes C)(u := n)"
  have old: "t \<le> currentTerm (nodes C v)" "t = currentTerm (nodes C v) \<Longrightarrow> votedFor (nodes C v) = Some c"
    if "(v, t, c) \<in> ballots C" for v t c using that assms(1) by (auto simp: ballot_inv_def)
  have uniq: "c = c'" if "(v, t, c) \<in> ballots C" "(v, t, c') \<in> ballots C" for v t c c'
    using that assms(1) unfolding ballot_inv_def by blast
  have upd: "t \<le> currentTerm n \<and> (t = currentTerm n \<longrightarrow> votedFor n = Some c)" if "(u, t, c) \<in> ballots C" for t c
    using old[OF that] assms(2) by (auto simp: vote_le_def)
  have mem: "(v, t, c) \<in> ballots (put_node u n C) \<longleftrightarrow>
      (v, t, c) \<in> ballots C \<or> v = u \<and> t = currentTerm n \<and> votedFor n = Some c" for v t c by auto
  have "t \<le> currentTerm (?N v) \<and> (t = currentTerm (?N v) \<longrightarrow> votedFor (?N v) = Some c)"
    if "(v, t, c) \<in> ballots (put_node u n C)" for v t c
    using that upd[of t c] old[of v t c] unfolding mem by (cases "v = u") auto
  moreover have "c = c'"
    if "(v, t, c) \<in> ballots (put_node u n C)" "(v, t, c') \<in> ballots (put_node u n C)" for v t c c'
    using that upd[of t c] upd[of t c'] uniq[of v t c c'] unfolding mem by auto
  moreover have "(v, currentTerm (?N v), c) \<in> ballots (put_node u n C)"
    if "v \<in> set (urls C)" "votedFor (?N v) = Some c" for v c
    using that assms(1) unfolding mem ballot_inv_def by (cases "v = u") auto
  ultimately show ?thesis unfolding ballot_inv_def put_node_simps(1,2) by blast
qed

lemma card_granted:
  assumes "list_all2 R ps rs" "distinct ps"
  shows "card {p. \<exists>b. (p, Some b) \<in> set (zip ps rs) \<and> P b} = length (filter P (answers rs))
       \<and> {p. \<exists>b. (p, Some b) \<in> set (zip ps rs) \<and> P b} \<subseteq> set ps"
  using assms
proof (induction rule: list_all2_induct)
  case (Cons p ps x rs)
  let ?S = "{q. \<exists>b. (q, Some b) \<in> set (zip ps rs) \<and> P b}"
  have IH: "card ?S = length (filter P (answers rs))" "?S \<subseteq> set ps" using Cons by auto
  then have fin: "finite ?S" and new: "p \<notin> ?S" using Cons.prems finite_subset by auto
  show ?case
  proof (cases "\<exists>b. x = Some b \<and> P b")
    case True
    then have "{q. \<exists>b. (q, Some b) \<in> set (zip (p # ps) (x # rs)) \<and> P b} = insert p ?S" by auto
    with True IH fin new show ?thesis by (auto simp: card_insert_if)
  next
    case False
    then have "{q. \<exists>b. (q, Some b) \<in> set (zip (p # ps) (x # rs)) \<and> P b} = ?S" by auto
    with False IH show ?thesis by (cases x) auto
  qed
qed simp


subsection \<open>The invariants are kept\<close>

lemma move_role:
  assumes "node_move C u n"
  shows "role n = CANDIDATE \<Longrightarrow> currentTerm n = currentTerm (nodes C u) \<Longrightarrow> role (nodes C u) = CANDIDATE"
    and "role n = LEADER \<Longrightarrow> currentTerm n = currentTerm (nodes C u) \<and>
      (role (nodes C u) = LEADER \<or>
       (\<exists>Q \<subseteq> set (urls C). card (set (urls C)) < 2 * card Q \<and>
          (\<forall>v \<in> Q. (v, currentTerm (nodes C u), replicaId (nodes C u)) \<in> ballots C)))"
  using assms by (cases; auto simp: steady_def node_frame)+

lemma leader_put:
  assumes "vote_inv C" "u \<in> set (urls C)" "node_move C u n"
  shows "leader_inv (put_node u n C)"
proof -
  let ?N = "(nodes C)(u := n)" and ?C = "put_node u n C"
  have L: "leader_inv C" and vl: "vote_le (nodes C u) n"
    using assms node_move_facts by (auto simp: vote_inv_def)
  note same = put_same[OF vl]
  have mem: "(w, t) \<in> leaders ?C \<longleftrightarrow> (w, t) \<in> leaders C \<or> w = u \<and> role n = LEADER \<and> t = currentTerm n" for w t
    by auto
  have old: "w \<in> set (urls C) \<and> t \<le> currentTerm (nodes C w) \<and>
      (t = currentTerm (nodes C w) \<longrightarrow> role (nodes C w) \<noteq> CANDIDATE) \<and>
      (\<exists>Q \<subseteq> set (urls C). card (set (urls C)) < 2 * card Q \<and>
           (\<forall>v \<in> Q. (v, t, replicaId (nodes C w)) \<in> ballots C))" if "(w, t) \<in> leaders C" for w t
    using that L unfolding leader_inv_def by blast
  have more: "ballots C \<subseteq> ballots ?C" by auto
  have "w \<in> set (urls C) \<and> t \<le> currentTerm (?N w) \<and> (t = currentTerm (?N w) \<longrightarrow> role (?N w) \<noteq> CANDIDATE) \<and>
      (\<exists>Q \<subseteq> set (urls C). card (set (urls C)) < 2 * card Q \<and>
           (\<forall>v \<in> Q. (v, t, replicaId (?N w)) \<in> ballots ?C))"
    if "(w, t) \<in> leaders ?C" for w t
  proof (cases "(w, t) \<in> leaders C")
    case True
    note o = old[OF this]
    have "t \<le> currentTerm (?N w)" using o same(3)[of w] by simp
    moreover have "role (?N w) \<noteq> CANDIDATE" if t: "t = currentTerm (?N w)"
    proof (cases "w = u")
      case True
      then have "currentTerm n = currentTerm (nodes C u)" "t = currentTerm (nodes C u)"
        using o t same(3)[of w] by auto
      with o True move_role(1)[OF assms(3)] show ?thesis by auto
    qed (use o t in auto)
    ultimately show ?thesis using o more unfolding same(1) by (meson subset_iff)
  next
    case False
    with that have w: "w = u" "role n = LEADER" "t = currentTerm n" unfolding mem by auto
    note m = move_role(2)[OF assms(3) w(2)]
    have "role (nodes C u) \<noteq> LEADER"
      using False w m L assms(2) unfolding leader_inv_def by auto
    with m obtain Q where "Q \<subseteq> set (urls C)" "card (set (urls C)) < 2 * card Q"
        "\<forall>v \<in> Q. (v, t, replicaId (nodes C u)) \<in> ballots C" using w(3) by auto
    with w assms(2) more show ?thesis unfolding same(1) by (auto simp del: put_node_simps(4))
  qed
  moreover have "(v, currentTerm (?N v)) \<in> leaders ?C" if "v \<in> set (urls C)" "role (?N v) = LEADER" for v
    using that L unfolding mem leader_inv_def by (cases "v = u") auto
  ultimately show ?thesis unfolding leader_inv_def put_node_simps(1,2) by blast
qed

lemma vote_put:
  assumes "vote_inv C" "u \<in> set (urls C)" "node_move C u n"
  shows "vote_inv (put_node u n C)"
proof -
  have "sound (nodes C u)" using assms by (simp add: vote_inv_def)
  from node_move_facts[OF assms(3) this] assms leader_put[OF assms] show ?thesis
    by (simp add: vote_inv_def conf_put ballot_put)
qed

lemma append_one:
  assumes "db_ok d" "e_index e = lastIndex d + 1"
  shows "log_entries (appendEntries [e] d) = log_entries d @ [e]"
    and "lastIndex (appendEntries [e] d) = e_index e"
  using log_entries_append_last[of d e] assms by (simp_all add: db_ok_def lastIndex_def)

lemma move_entries:
  assumes "vote_inv C" "entry_inv C" "u \<in> set (urls C)" "node_move C u n"
  obtains (none) "set (log_entries (db n)) \<subseteq> created C"
      "role n = LEADER \<Longrightarrow> role (nodes C u) = LEADER \<and> currentTerm n = currentTerm (nodes C u) \<and>
         lastIndex (db (nodes C u)) \<le> lastIndex (db n)"
  | (one) e where "role n = LEADER" "log_entries (db n) = log_entries (db (nodes C u)) @ [e]"
      "e_term e = currentTerm n" "lastIndex (db n) = e_index e"
      "\<forall>x \<in> created C. e_term x = e_term e \<longrightarrow> e_index x < e_index e"
proof -
  have logs: "set (log_entries (db (nodes C u))) \<subseteq> created C" and snd: "sound (nodes C u)"
    using assms by (auto simp: entry_inv_def vote_inv_def)
  have ok: "db_ok (db (nodes C u))" using soundD[OF snd] by simp
  note V = vote_put[OF assms(1,3,4)]
  from assms(4) show ?thesis
  proof cases
    case (steadily X)
    with logs show ?thesis by (intro none) (auto simp: steady_def)
  next
    case candidacy
    with logs show ?thesis by (intro none) (auto simp: node_frame db_simps)
  next
    case (victory Q)
    let ?e = "\<lparr>e_index = lastIndex (db (nodes C u)) + 1, e_term = currentTerm (nodes C u),
       e_type = NOOP, e_payload = None\<rparr>"
    have "e_term x \<noteq> currentTerm (nodes C u)" if x: "x \<in> created C" for x
    proof
      assume t: "e_term x = currentTerm (nodes C u)"
      obtain v where v: "(v, e_term x) \<in> leaders C" using x assms(2) unfolding entry_inv_def by blast
      then have "v = u"
        by (intro one_leader[OF V, of _ "e_term x"]) (simp_all add: victory(1) node_frame t)
      with v t victory(2) assms(1) show False by (auto simp: vote_inv_def leader_inv_def)
    qed
    with append_one[OF ok, of ?e] show ?thesis by (intro one[of ?e]) (simp_all add: victory(1) node_frame)
  next
    case (appending ty p)
    let ?e = "snd (appendLocal ty p (nodes C u))"
    have "\<forall>x \<in> created C. e_term x = currentTerm (nodes C u) \<longrightarrow> e_index x < lastIndex (db (nodes C u)) + 1"
      using assms(2,3) appending(2) unfolding entry_inv_def by (simp add: zless_add1_eq order_le_less)
    with append_one[OF ok, of ?e] show ?thesis
      by (intro one[of ?e]) (simp_all add: appending node_frame)
  qed
qed

lemma entry_put:
  assumes "vote_inv C" "entry_inv C" "u \<in> set (urls C)" "node_move C u n"
  shows "entry_inv (put_node u n C)"
proof (cases rule: move_entries[OF assms, case_names none one])
  case none
  then have "created (put_node u n C) = created C" by (auto simp: own_entries_def)
  with none assms(2) show ?thesis by (simp add: entry_inv_def) (meson order_trans)
next
  case (one e)
  let ?C = "put_node u n C"
  note V = vote_put[OF assms(1,3,4)]
  have logs: "set (log_entries (db (nodes C u))) \<subseteq> created C" using assms by (auto simp: entry_inv_def)
  have cr: "created ?C = insert e (created C)"
    using one(1,2,3) logs by (auto simp: own_entries_def)
  have lu: "(u, e_term e) \<in> leaders ?C" using one by simp
  have "\<exists>v. (v, e_term x) \<in> leaders ?C" if "x \<in> created ?C" for x
    using that lu assms(2) unfolding cr entry_inv_def by auto
  moreover have "e_index x \<le> lastIndex (db (nodes ?C v))"
    if "v \<in> set (urls C)" "role (nodes ?C v) = LEADER" "x \<in> created ?C" "e_term x = currentTerm (nodes ?C v)" for v x
  proof (cases "v = u")
    case True
    with that one(3-5) show ?thesis unfolding cr by (auto intro: order_less_imp_le)
  next
    case False
    have "(v, currentTerm (nodes ?C v)) \<in> leaders ?C"
      using V that(1,2) unfolding vote_inv_def leader_inv_def by simp
    then have "x \<noteq> e" using one_leader[OF V _ lu] False that(4) by auto
    with that False assms(2) show ?thesis unfolding cr by (auto simp: entry_inv_def)
  qed
  moreover have "set (log_entries (db (nodes ?C v))) \<subseteq> created ?C" if "v \<in> set (urls C)" for v
    using that assms(2) one(2) logs unfolding cr by (auto simp: entry_inv_def)
  moreover have "x = y" if "x \<in> created ?C" "y \<in> created ?C" "e_index x = e_index y" "e_term x = e_term y" for x y
    using that assms(2) one(5) unfolding cr by (auto simp: entry_inv_def)
  ultimately show ?thesis unfolding entry_inv_def put_node_simps(1) by blast
qed


lemma becomeLeader_outbox:
  "(p, c) \<in> set (outbox (becomeLeader n)) \<Longrightarrow> (p, c) \<in> set (outbox n) \<or> call_from (becomeLeader n) c"
proof -
  define m where "m = fst (appendLocal NOOP None (emit (RoleEv LEADER)
     ((clearElectionTimer n)\<lparr>role := LEADER, leaderId := Some (replicaId n),
        nextIndex := fold (\<lambda>p. map_set p (lastIndex (db n) + 1)) (peers n) [],
        matchIndex := fold (\<lambda>p. map_set p (-1)) (peers n) []\<rparr>)))"
  have bl: "becomeLeader n = (sendAppendEntriesToAll m)\<lparr>heartbeatTimer := Some (heartbeatMs (config n))\<rparr>"
    by (simp add: becomeLeader_def Let_def m_def node_frame)
  have ob: "outbox m = outbox n" "db (becomeLeader n) = db m" by (simp_all add: m_def bl node_frame)
  assume "(p, c) \<in> set (outbox (becomeLeader n))"
  then have "(p, c) \<in> set (outbox n) \<or> (p, c) \<in> set (requests m)"
    by (simp add: bl sendAppendEntriesToAll_eq ob)
  then show ?thesis using requests_entries[of p c m] by (auto simp: call_from_def ob split: call.splits)
qed

lemma move_calls:
  assumes "node_move C u n" "(p, c) \<in> set (outbox n)"
  shows "(p, c) \<in> set (outbox (nodes C u)) \<or> call_from (nodes C u) c \<or> call_from n c
       \<or> (\<exists>r. c = VoteCall r \<and> rv_candidateId r = replicaId (nodes C u))"
  using assms(1)
proof cases
  case steadily
  with assms(2) show ?thesis by (auto simp: steady_def)
next
  case candidacy
  with assms(2) show ?thesis by (auto simp: node_frame)
next
  case victory
  with becomeLeader_outbox assms(2) show ?thesis by blast
next
  case (appending ty q)
  with assms(2) requests_entries[of p c "fst (appendLocal ty q (nodes C u))"] show ?thesis
    by (auto simp: sendAppendEntriesToAll_eq node_frame call_from_def split: call.splits)
qed

lemma call_put:
  assumes "cluster_inv C" "u \<in> set (urls C)" "node_move C u n"
  shows "call_inv (put_node u n C)"
proof -
  let ?C = "put_node u n C"
  have C: "call_inv C" "entry_inv C" and vl: "vote_le (nodes C u) n"
    using assms node_move_facts by (auto simp: cluster_inv_def vote_inv_def)
  have E: "entry_inv ?C" using assms entry_put by (auto simp: cluster_inv_def)
  note same = put_same[OF vl]
  have old: "set (ae_entries r) \<subseteq> created ?C"
    if "(w, p, AppendCall r) \<in> calls C \<or> (w, p, ReadCall r) \<in> calls C" for w p r
  proof -
    have "set (ae_entries r) \<subseteq> created C" using that C(1) unfolding call_inv_def by blast
    then show ?thesis by auto
  qed
  have logs: "set (log_entries (db (nodes C u))) \<subseteq> created ?C" "set (log_entries (db n)) \<subseteq> created ?C"
  proof -
    have "set (log_entries (db (nodes C u))) \<subseteq> created C" using C(2) assms(2) by (auto simp: entry_inv_def)
    then show "set (log_entries (db (nodes C u))) \<subseteq> created ?C" by auto
    have "set (log_entries (db (nodes ?C u))) \<subseteq> created ?C"
      using E assms(2) unfolding entry_inv_def put_node_simps(1) by blast
    then show "set (log_entries (db n)) \<subseteq> created ?C" by (simp del: put_node_simps(6))
  qed
  have new: "(u, p, c) \<in> calls C \<or> call_from (nodes C u) c \<or> call_from n c
       \<or> (\<exists>r. c = VoteCall r \<and> rv_candidateId r = replicaId (nodes C u))" if "(p, c) \<in> set (outbox n)" for p c
    using move_calls[OF assms(3) that] C(1) assms(2) by (auto simp: call_inv_def)
  have mem: "(w, p, c) \<in> calls ?C \<longleftrightarrow> (w, p, c) \<in> calls C \<or> w = u \<and> (p, c) \<in> set (outbox n)" for w p c
    by auto
  have "rv_candidateId r = replicaId (nodes ?C w)" if "(w, p, VoteCall r) \<in> calls ?C" for w p r
    using that C(1) new[of p "VoteCall r"] unfolding mem put_node_simps(2) same(1)
    by (auto simp: call_inv_def call_from_def)
  moreover have "set (ae_entries r) \<subseteq> created ?C"
    if "(w, p, AppendCall r) \<in> calls ?C \<or> (w, p, ReadCall r) \<in> calls ?C" for w p r
  proof -
    from that consider "(w, p, AppendCall r) \<in> calls C \<or> (w, p, ReadCall r) \<in> calls C"
      | "(p, AppendCall r) \<in> set (outbox n) \<or> (p, ReadCall r) \<in> set (outbox n)"
      unfolding mem by blast
    then show ?thesis
    proof cases
      case 1
      then show ?thesis by (rule old)
    next
      case 2
      then have "((u, p, AppendCall r) \<in> calls C \<or> (u, p, ReadCall r) \<in> calls C) \<or>
          set (ae_entries r) \<subseteq> set (log_entries (db (nodes C u))) \<or>
          set (ae_entries r) \<subseteq> set (log_entries (db n))"
        using new[of p "AppendCall r"] new[of p "ReadCall r"] by (auto simp: call_from_def)
      with old[of u p r] logs show ?thesis by blast
    qed
  qed
  moreover have "(w, p, c) \<in> calls ?C" if "w \<in> set (urls C)" "(p, c) \<in> set (outbox (nodes ?C w))" for w p c
    using that C(1) unfolding mem by (auto simp: call_inv_def split: if_splits)
  ultimately show ?thesis unfolding call_inv_def put_node_simps(1) by blast
qed

lemma cluster_put:
  assumes "cluster_inv C" "u \<in> set (urls C)" "node_move C u n"
  shows "cluster_inv (put_node u n C)"
  using assms vote_put entry_put call_put[OF assms]
  by (auto simp: cluster_inv_def answer_inv_def)

lemma cluster_inv_answers:
  "cluster_inv (C\<lparr>append_answers := A\<rparr>) = cluster_inv C"
  "cluster_inv (C\<lparr>snapshot_answers := S\<rparr>) = cluster_inv C"
  by (simp_all add: cluster_inv_def vote_inv_def conf_def ballot_inv_def leader_inv_def answer_inv_def
      call_inv_def entry_inv_def)

lemma cluster_inv_vote_answer:
  assumes "cluster_inv C" "vr_granted b \<Longrightarrow> (v, rv_term r, rv_candidateId r) \<in> ballots C"
  shows "cluster_inv (C\<lparr>vote_answers := insert (v, u, r, b) (vote_answers C)\<rparr>)"
proof -
  let ?C = "C\<lparr>vote_answers := insert (v, u, r, b) (vote_answers C)\<rparr>"
  have "answer_inv C" using assms(1) by (simp add: cluster_inv_def)
  with assms(2) have "answer_inv ?C" unfolding answer_inv_def by simp metis
  moreover have "vote_inv ?C = vote_inv C" "call_inv ?C = call_inv C" "entry_inv ?C = entry_inv C"
    by (simp_all add: vote_inv_def conf_def ballot_inv_def leader_inv_def call_inv_def entry_inv_def)
  ultimately show ?thesis using assms(1) by (simp add: cluster_inv_def)
qed

lemma granted_quorum:
  assumes "cluster_inv C" "u \<in> set (urls C)" "vote_results C u (currentTerm (nodes C u)) rs"
    and "role (nodes C u) = CANDIDATE"
    and "majority (nodes C u) \<le> 1 + int (length (filter vr_granted (answers rs)))"
  obtains Q where "Q \<subseteq> set (urls C)" "card (set (urls C)) < 2 * card Q"
    "\<forall>v \<in> Q. (v, currentTerm (nodes C u), replicaId (nodes C u)) \<in> ballots C"
proof -
  let ?n = "nodes C u"
  let ?G = "{p. \<exists>b. (p, Some b) \<in> set (zip (peers ?n) rs) \<and> vr_granted b}"
  have I: "ballot_inv C" "answer_inv C" "call_inv C" "sound ?n"
    and ps: "distinct (peers ?n)" "set (peers ?n) = set (urls C) - {u}"
    using assms(1,2) by (auto simp: cluster_inv_def vote_inv_def conf_def)
  have lst: "list_all2 (\<lambda>p x. case x of None \<Rightarrow> True | Some b \<Rightarrow>
         \<exists>r. rv_term r = currentTerm ?n \<and> (u, p, VoteCall r) \<in> calls C \<and> (p, u, r, b) \<in> vote_answers C)
       (peers ?n) rs" using assms(3) by (simp add: vote_results_def)
  note G = card_granted[OF lst ps(1), of vr_granted]
  have fin: "finite ?G" and notin: "u \<notin> ?G" using G ps(2) finite_subset by auto
  have "(v, currentTerm ?n, replicaId ?n) \<in> ballots C" if v: "v \<in> ?G" for v
  proof -
    obtain b where b: "(v, Some b) \<in> set (zip (peers ?n) rs)" "vr_granted b" using v by auto
    from lst b(1) have "\<exists>r. rv_term r = currentTerm ?n \<and> (u, v, VoteCall r) \<in> calls C \<and>
        (v, u, r, b) \<in> vote_answers C" by (force simp: list_all2_iff)
    then obtain r where r: "rv_term r = currentTerm ?n" "(u, v, VoteCall r) \<in> calls C"
        "(v, u, r, b) \<in> vote_answers C" by blast
    have "rv_candidateId r = replicaId ?n" using r(2) I(3) by (auto simp: call_inv_def)
    with r b(2) I(2) show ?thesis unfolding answer_inv_def by metis
  qed
  moreover have "(u, currentTerm ?n, replicaId ?n) \<in> ballots C"
    using I(1,4) assms(2,4) by (auto simp: ballot_inv_def sound_def)
  moreover have "card (set (urls C)) < 2 * card (insert u ?G)"
  proof -
    have "card (set (urls C)) = length (peers ?n) + 1"
      using distinct_card[OF ps(1)] ps(2) assms(2) by (metis List.finite_set Suc_eq_plus1 card_Suc_Diff1)
    then show ?thesis
      using assms(5) G fin notin by (simp add: majority_def card_insert_if)
  qed
  ultimately show ?thesis using G ps(2) assms(2) by (intro that[of "insert u ?G"]; auto)
qed


lemma election_move:
  assumes "cluster_inv C" "u \<in> set (urls C)" "vote_results C u t rs"
  shows "node_move C u (electionResults t rs (nodes C u))"
proof -
  have snd: "sound (nodes C u)" using assms by (simp add: cluster_inv_def vote_inv_def)
  show ?thesis
  proof (cases rule: electionResults_cases[where n = "nodes C u" and t = t and rs = rs, case_names ignored newer lost won])
    case won
    with granted_quorum[OF assms(1,2), of rs] assms(3)
    obtain Q where "Q \<subseteq> set (urls C)" "card (set (urls C)) < 2 * card Q"
      "\<forall>v \<in> Q. (v, currentTerm (nodes C u), replicaId (nodes C u)) \<in> ballots C" by auto
    with won show ?thesis by (simp add: victory)
  qed (use snd in \<open>auto intro: steadily[of "{}"] steady_refl steady_becomeFollower\<close>)
qed

lemma submit_move:
  assumes "sound (nodes C u)"
  shows "node_move C u (fst (submit_begin ty p (nodes C u)))"
proof (cases "fst (submit_begin ty p (nodes C u)) = nodes C u")
  case True
  with assms show ?thesis by (auto intro: steadily[of "{}"] steady_refl)
next
  case False
  then have "role (nodes C u) = LEADER"
    "fst (submit_begin ty p (nodes C u)) = sendAppendEntriesToAll (fst (appendLocal ty p (nodes C u)))"
    by (auto simp: submit_begin_def Let_def case_prod_beta split: option.splits if_splits)
  then show ?thesis by (simp add: appending)
qed

text \<open>Every step is a move of one node, with at most one answer recorded beside it.\<close>

definition recorded :: "cluster \<Rightarrow> string \<Rightarrow> cluster \<Rightarrow> bool" where
  "recorded D u C' \<longleftrightarrow> C' = D \<or> (\<exists>A. C' = D\<lparr>append_answers := A\<rparr>) \<or> (\<exists>S. C' = D\<lparr>snapshot_answers := S\<rparr>) \<or>
     (\<exists>v r b. C' = D\<lparr>vote_answers := insert (u, v, r, b) (vote_answers D)\<rparr> \<and>
        (vr_granted b \<longrightarrow> (u, rv_term r, rv_candidateId r) \<in> ballots D))"

lemma recorded_intros:
  "recorded D u D"
  "recorded D u (D\<lparr>append_answers := A\<rparr>)"
  "recorded D u (D\<lparr>snapshot_answers := S\<rparr>)"
  "(vr_granted b \<Longrightarrow> (u, rv_term r, rv_candidateId r) \<in> ballots D) \<Longrightarrow>
     recorded D u (D\<lparr>vote_answers := insert (u, v, r, b) (vote_answers D)\<rparr>)"
  unfolding recorded_def by blast+

lemma recorded_frame:
  "recorded D u C' \<Longrightarrow> urls C' = urls D \<and> nodes C' = nodes D \<and> ballots C' = ballots D \<and>
     leaders C' = leaders D \<and> created C' = created D \<and> calls C' = calls D"
  by (auto simp: recorded_def)

lemma recorded_inv: "recorded D u C' \<Longrightarrow> cluster_inv D \<Longrightarrow> cluster_inv C'"
  unfolding recorded_def by (elim disjE exE conjE) (simp_all add: cluster_inv_answers cluster_inv_vote_answer)

definition moves :: "cluster \<Rightarrow> cluster \<Rightarrow> bool" where
  "moves C C' \<longleftrightarrow>
     (\<exists>u n. u \<in> set (urls C) \<and> node_move C u n \<and> recorded (put_node u n C) u C')"

lemma moves_intro:
  "u \<in> set (urls C) \<Longrightarrow> node_move C u n \<Longrightarrow> recorded (put_node u n C) u C' \<Longrightarrow> moves C C'"
  unfolding moves_def by blast

lemma moves_put: "u \<in> set (urls C) \<Longrightarrow> node_move C u n \<Longrightarrow> moves C (put_node u n C)"
  by (rule moves_intro[OF _ _ recorded_intros(1)])

lemma torn_file:
  assumes I: "cluster_inv C" and u: "u \<in> set (urls C)" and f: "torn C u f"
  shows "file_le (nodes C u) f" "set (log_entries f) \<subseteq> set (log_entries (db (nodes C u))) \<union> created C"
proof -
  have n: "durable (nodes C u)" "db_ok (db (nodes C u))"
    using I u by (simp_all add: cluster_inv_def vote_inv_def sound_def)
  have sub: "set (ae_entries r) \<subseteq> created C" if "(w, u, c) \<in> calls C" "c = AppendCall r \<or> c = ReadCall r" for w c r
    using that I unfolding cluster_inv_def call_inv_def by blast
  from f consider (vote) r where "f \<in> set (vote_files r (nodes C u))"
    | (append) w c r where "(w, u, c) \<in> calls C" "c = AppendCall r \<or> c = ReadCall r" "f \<in> set (append_files r (nodes C u))"
    | (install) r where "f \<in> set (install_files r (nodes C u))"
    | (reply) p r b where "f \<in> set (reply_files p r b (nodes C u))"
    unfolding torn_def by blast
  then have "file_le (nodes C u) f \<and> set (log_entries f) \<subseteq> set (log_entries (db (nodes C u))) \<union> created C"
  proof cases
    case vote
    from vote_files_ok[OF n this] show ?thesis by simp
  next
    case append
    from append_files_ok(1,2)[OF n append(3)] sub[OF append(1,2)] show ?thesis by blast
  next
    case install
    from install_files_ok(1,2)[OF n this] show ?thesis by blast
  next
    case reply
    from reply_files_ok(1,2)[OF n this] show ?thesis by blast
  qed
  then show "file_le (nodes C u) f" "set (log_entries f) \<subseteq> set (log_entries (db (nodes C u))) \<union> created C" by blast+
qed

lemma step_moves:
  assumes "cluster_inv C" "step C C'"
  shows "moves C C'"
proof -
  have snd: "sound (nodes C w)" if "w \<in> set (urls C)" for w
    using that assms(1) by (simp add: cluster_inv_def vote_inv_def)
  have std: "node_move C w m" if "steady {} (nodes C w) m" for w m
    using that by (intro steadily[of "{}"]) simp_all
  from assms(2) show ?thesis
  proof cases
    case (deliver_vote u v r n b)
    have "node_move C v n" using std[OF steady_vote[OF snd[OF deliver_vote(3)], of "{}" r]] deliver_vote(4) by simp
    moreover have "(v, rv_term r, rv_candidateId r) \<in> ballots (put_node v n C)" if "vr_granted b"
      using handleRequestVote_granted[of r "nodes C v"] that deliver_vote(4) by auto
    ultimately show ?thesis using deliver_vote(1,3) recorded_intros(4)[of b v r "put_node v n C" u]
      by (intro moves_intro[of v C n]) simp_all
  next
    case (deliver_append u v c r n b)
    have "set (ae_entries r) \<subseteq> created C"
      using deliver_append(2,3) assms(1) unfolding cluster_inv_def call_inv_def by blast
    then have "node_move C v n"
      using steadily[OF _ steady_append[OF snd[OF deliver_append(4)], of r]] deliver_append(5) by simp
    with deliver_append(1,4) show ?thesis
      by (intro moves_intro[of v C n]) (simp_all add: recorded_intros)
  next
    case (deliver_snapshot u v r n t)
    have "node_move C v n"
      using std[OF steady_snapshot[OF snd[OF deliver_snapshot(3)], of "{}" r]] deliver_snapshot(4) by simp
    with deliver_snapshot(1,3) show ?thesis
      by (intro moves_intro[of v C n]) (simp_all add: recorded_intros)
  next
    case (vote_round u t rs)
    then show ?thesis using election_move[OF assms(1)] moves_put by simp
  next
    case (client_submit u p)
    then show ?thesis using submit_move[OF snd] moves_put by simp
  next
    case (election_timeout u)
    then show ?thesis using candidacy moves_put by simp
  next
    case (power_loss u f mx t x)
    have "node_move C u (reboot mx t x ((nodes C u)\<lparr>db := f\<rparr>))"
      by (rule steadily[OF order_refl steady_file[OF torn_file[OF assms(1) power_loss(2,3)]]])
    then show ?thesis using power_loss(1,2) moves_put by simp
  qed (use snd in \<open>auto intro!: moves_put std steady_local steady_heartbeat steady_append_answer
      steady_snapshot_answer steady_read steady_reboot\<close>)
qed

lemma step_inv: "cluster_inv C \<Longrightarrow> step C C' \<Longrightarrow> cluster_inv C'"
  using step_moves cluster_put recorded_inv unfolding moves_def by blast

lemma start_fresh:
  fixes rid ps cfg mx t x
  defines "n \<equiv> start (new_node rid ps cfg fresh_db (new_state_machine mx) t x)"
  shows "role n = FOLLOWER" "votedFor n = None" "currentTerm n = 0" "db n = fresh_db" "outbox n = []"
    "sound n" "peers n = ps" "replicaId n = rid"
proof -
  have d: "loadLatestSnapshot fresh_db = None" "current_term fresh_db = 0" "voted_for fresh_db = None"
    by (simp_all add: loadLatestSnapshot_def fresh_db_def)
  show n: "role n = FOLLOWER" "votedFor n = None" "currentTerm n = 0" "db n = fresh_db" "outbox n = []"
    "peers n = ps" "replicaId n = rid"
    by (simp_all add: n_def start_def Let_def node_frame new_node_def loadMeta_def d)
  show "sound n" by (simp add: sound_def durable_def n d db_ok_fresh)
qed

lemma initial_inv:
  assumes "initial C"
  shows "cluster_inv C"
proof -
  have start: "sound (nodes C u)" "votedFor (nodes C u) = None" "role (nodes C u) = FOLLOWER"
      "log_entries (db (nodes C u)) = []" "outbox (nodes C u) = []" if u: "u \<in> set (urls C)" for u
  proof -
    have "started_fresh (nodes C u)" using assms u by (simp add: initial_def list_all_iff)
    then obtain rid ps cfg mx t x where
      n: "nodes C u = start (new_node rid ps cfg fresh_db (new_state_machine mx) t x)"
      unfolding started_fresh_def by blast
    show "sound (nodes C u)" "votedFor (nodes C u) = None" "role (nodes C u) = FOLLOWER"
      "log_entries (db (nodes C u)) = []" "outbox (nodes C u) = []"
      unfolding n by (simp_all add: start_fresh) (simp add: fresh_db_def)
  qed
  have e: "calls C = {}" "vote_answers C = {}" "ballots C = {}" "leaders C = {}" "created C = {}"
    using assms by (simp_all add: initial_def)
  have "conf C" using assms by (simp add: conf_def initial_def list_all_iff)
  moreover have "ballot_inv C" by (simp add: ballot_inv_def e start)
  moreover have "leader_inv C" by (simp add: leader_inv_def e start)
  moreover have "entry_inv C" by (simp add: entry_inv_def e start)
  moreover have "call_inv C" by (simp add: call_inv_def e start)
  moreover have "answer_inv C" by (simp add: answer_inv_def e)
  ultimately show ?thesis using start(1) by (simp add: cluster_inv_def vote_inv_def)
qed

lemma reachable_inv: "reachable C \<Longrightarrow> cluster_inv C"
  by (induction rule: reachable_if.induct) (auto intro: initial_inv step_inv)


text \<open>A run for the witnesses: of three nodes, the first is elected with the second's vote and takes a stroke.\<close>

definition demo_start :: "string \<Rightarrow> string list \<Rightarrow> node" where
  "demo_start u ps = start (new_node u ps default_config fresh_db (new_state_machine 10) 0 0)"

definition cluster0 :: cluster where
  "cluster0 = \<lparr>urls = [''a'', ''b'', ''c''],
     nodes = (\<lambda>u. if u = ''a'' then demo_start ''a'' [''b'', ''c''] else
                  if u = ''b'' then demo_start ''b'' [''a'', ''c''] else demo_start ''c'' [''a'', ''b'']),
     calls = {}, vote_answers = {}, append_answers = {}, snapshot_answers = {},
     ballots = {}, leaders = {}, created = {}, leader_logs = {}\<rparr>"

definition demo_request :: request_vote where
  "demo_request = \<lparr>rv_term = 1, rv_candidateId = ''a'', rv_lastLogIndex = -1, rv_lastLogTerm = -1\<rparr>"

definition cluster1 :: cluster where
  "cluster1 = put_node ''a'' (startElection (nodes cluster0 ''a'')) cluster0"

definition cluster2 :: cluster where
  "cluster2 = (put_node ''b'' (fst (handleRequestVote demo_request (nodes cluster1 ''b''))) cluster1)
     \<lparr>vote_answers := insert (''b'', ''a'', demo_request, snd (handleRequestVote demo_request (nodes cluster1 ''b'')))
        (vote_answers cluster1)\<rparr>"

definition cluster3 :: cluster where
  "cluster3 = put_node ''a'' (electionResults 1 [Some \<lparr>vr_term = 1, vr_granted = True\<rparr>, None]
     (nodes cluster2 ''a'')) cluster2"

definition cluster4 :: cluster where
  "cluster4 = put_node ''a'' (fst (submit_begin STROKE (Some demo_payload) (nodes cluster3 ''a''))) cluster3"

lemma demo_initial: "initial cluster0"
proof -
  have f: "started_fresh (demo_start u ps)" for u ps unfolding started_fresh_def demo_start_def by blast
  show ?thesis
    by (auto simp: initial_def cluster0_def f) (simp_all add: demo_start_def start_fresh)
qed

lemma demo_reachable: "reachable_if ok cluster1" "reachable_if ok cluster2" "reachable_if ok cluster3" "reachable_if ok cluster4"
  "step_if ok cluster3 cluster4" "step_if ok cluster0 cluster1" "step_if ok cluster1 cluster2" "step_if ok cluster2 cluster3"
proof -
  have r0: "reachable_if ok cluster0" by (rule reach_init[OF demo_initial])
  have u: "urls cluster0 = [''a'', ''b'', ''c'']" by (simp add: cluster0_def)
  have "electionTimer (nodes cluster0 ''a'') \<noteq> None" by code_simp
  then show s1: "step_if ok cluster0 cluster1"
    unfolding cluster1_def by (intro election_timeout) (simp_all add: u)
  from r0 s1 show r1: "reachable_if ok cluster1" by (rule reach_step)
  have "(''a'', ''b'', VoteCall demo_request) \<in> calls cluster1" by code_simp
  then show s2: "step_if ok cluster1 cluster2"
    unfolding cluster2_def by (rule deliver_vote) (simp_all add: cluster1_def u)
  from r1 s2 show r2: "reachable_if ok cluster2" by (rule reach_step)
  have "vote_results cluster2 ''a'' 1 [Some \<lparr>vr_term = 1, vr_granted = True\<rparr>, None]"
  proof -
    have "peers (nodes cluster2 ''a'') = [''b'', ''c'']" by code_simp
    moreover have "(''a'', ''b'', VoteCall demo_request) \<in> calls cluster2" by code_simp
    moreover have "(''b'', ''a'', demo_request, \<lparr>vr_term = 1, vr_granted = True\<rparr>) \<in> vote_answers cluster2" by code_simp
    moreover have "rv_term demo_request = 1" by code_simp
    ultimately show ?thesis unfolding vote_results_def by auto
  qed
  then show s3: "step_if ok cluster2 cluster3"
    unfolding cluster3_def by (intro vote_round) (simp_all add: cluster2_def cluster1_def u)
  from r2 s3 show r3: "reachable_if ok cluster3" by (rule reach_step)
  show s4: "step_if ok cluster3 cluster4"
    unfolding cluster4_def by (intro client_submit) (simp add: cluster3_def cluster2_def cluster1_def u)
  from r3 s4 show "reachable_if ok cluster4" by (rule reach_step)
qed

lemma demo_cluster_facts:
  "urls cluster4 = [''a'', ''b'', ''c'']" "urls cluster3 = [''a'', ''b'', ''c'']"
  "role (nodes cluster3 ''a'') = LEADER" "role (nodes cluster4 ''a'') = LEADER"
  "(''a'', 1) \<in> leaders cluster4" "(''b'', 1, ''a'') \<in> ballots cluster4"
  by code_simp+

text \<open>The other way on from \<open>cluster1\<close>: \<open>''b''\<close> crashes when it has written the new term and not its vote.\<close>

lemma demo_power_loss:
  "reachable (put_node ''b'' (reboot 10 0 0 ((nodes cluster1 ''b'')\<lparr>db := saveTermAndVote 1 None fresh_db\<rparr>)) cluster1)"
proof -
  have "(''a'', ''b'', VoteCall demo_request) \<in> calls cluster1"
    "saveTermAndVote 1 None fresh_db \<in> set (vote_files demo_request (nodes cluster1 ''b''))" by code_simp+
  then have "torn cluster1 ''b'' (saveTermAndVote 1 None fresh_db)" unfolding torn_def by blast
  then have "step cluster1 (put_node ''b'' (reboot 10 0 0 ((nodes cluster1 ''b'')\<lparr>db := saveTermAndVote 1 None fresh_db\<rparr>)) cluster1)"
    by (intro power_loss) (simp_all add: cluster1_def cluster0_def)
  with demo_reachable(1) show ?thesis by (rule reach_step)
qed

subsection \<open>Properties\<close>

text \<open>
  C1: election safety.  In every reachable state of a cluster, whatever was lost, delayed,
  duplicated or reordered and whichever nodes were restarted or crashed between two writes of a handler, at most one node
  has ever led a term;
  in particular two nodes that are leaders of the same term are the same node.
\<close>

theorem election_safety:
  assumes "reachable C"
  shows "((u, t) \<in> leaders C \<and> (v, t) \<in> leaders C \<longrightarrow> u = v)
       \<and> (u \<in> set (urls C) \<and> v \<in> set (urls C) \<and> role (nodes C u) = LEADER \<and> role (nodes C v) = LEADER
            \<and> currentTerm (nodes C u) = currentTerm (nodes C v) \<longrightarrow> u = v)"
proof -
  have V: "vote_inv C" using reachable_inv[OF assms] by (simp add: cluster_inv_def)
  then have "(w, currentTerm (nodes C w)) \<in> leaders C" if "w \<in> set (urls C)" "role (nodes C w) = LEADER" for w
    using that by (simp add: vote_inv_def leader_inv_def)
  with one_leader[OF V] show ?thesis by metis
qed

theorem election_safety_witness:
  "reachable cluster4 \<and> {v. (v, 1) \<in> leaders cluster4} = {''a''}"
  using election_safety[OF demo_reachable(4), of _ 1 "''a''"] demo_cluster_facts(5) demo_reachable(4) by blast

text \<open>
  C12: votes survive.  A node gives at most one candidate its vote in a term, over its whole life,
  restarts and crashes inside handlers included; every granted answer is such a vote, and what a node holds in memory of its
  term and vote is always what its file holds.
\<close>

theorem votes_survive:
  assumes "reachable C"
  shows "((v, t, c) \<in> ballots C \<and> (v, t, c') \<in> ballots C \<longrightarrow> c = c')
       \<and> ((v, u, r, b) \<in> vote_answers C \<and> vr_granted b \<longrightarrow> (v, rv_term r, rv_candidateId r) \<in> ballots C)
       \<and> (w \<in> set (urls C) \<longrightarrow> current_term (db (nodes C w)) = currentTerm (nodes C w)
            \<and> voted_for (db (nodes C w)) = votedFor (nodes C w) \<and> db_ok (db (nodes C w)))"
proof (intro conjI)
  have I: "ballot_inv C" "answer_inv C" using reachable_inv[OF assms] by (auto simp: cluster_inv_def vote_inv_def)
  show "(v, t, c) \<in> ballots C \<and> (v, t, c') \<in> ballots C \<longrightarrow> c = c'"
    using I(1) unfolding ballot_inv_def by blast
  show "(v, u, r, b) \<in> vote_answers C \<and> vr_granted b \<longrightarrow> (v, rv_term r, rv_candidateId r) \<in> ballots C"
    using I(2) unfolding answer_inv_def by blast
  show "w \<in> set (urls C) \<longrightarrow> current_term (db (nodes C w)) = currentTerm (nodes C w)
            \<and> voted_for (db (nodes C w)) = votedFor (nodes C w) \<and> db_ok (db (nodes C w))"
    using reachable_inv[OF assms] by (simp add: cluster_inv_def vote_inv_def sound_def durable_def)
qed

theorem votes_survive_witness:
  "reachable cluster4 \<and> {c. (''b'', 1, c) \<in> ballots cluster4} = {''a''}"
  using votes_survive[OF demo_reachable(4), of "''b''" 1 _ "''a''"] demo_cluster_facts(6) demo_reachable(4) by blast

text \<open>
  An index and a term name one entry.  In every reachable state, two entries with the same
  index and term are the same entry, payload included, wherever they are: in the logs of any two nodes
  or in a replication call on the way.
\<close>

theorem entries_identified:
  assumes "reachable C" "u \<in> set (urls C)" "e \<in> set (log_entries (db (nodes C u)))"
    and "(v \<in> set (urls C) \<and> e' \<in> set (log_entries (db (nodes C v))))
       \<or> ((v, p, AppendCall r) \<in> calls C \<and> e' \<in> set (ae_entries r))"
    and "e_index e = e_index e'" "e_term e = e_term e'"
  shows "e = e'"
proof -
  have E: "entry_inv C" "call_inv C" using reachable_inv[OF assms(1)] by (auto simp: cluster_inv_def)
  have "e \<in> created C" using E(1) assms(2,3) by (auto simp: entry_inv_def)
  moreover have "e' \<in> created C" using assms(4)
  proof
    assume "v \<in> set (urls C) \<and> e' \<in> set (log_entries (db (nodes C v)))"
    then show ?thesis using E(1) by (auto simp: entry_inv_def)
  next
    assume "(v, p, AppendCall r) \<in> calls C \<and> e' \<in> set (ae_entries r)"
    then show ?thesis using E(2) unfolding call_inv_def by blast
  qed
  ultimately show ?thesis using E(1) assms(5,6) unfolding entry_inv_def by blast
qed

theorem entries_identified_witness:
  "\<exists>r. (''a'', ''b'', AppendCall r) \<in> calls cluster4 \<and>
     hd (log_entries (db (nodes cluster4 ''a''))) = hd (ae_entries r)"
proof -
  let ?e = "\<lparr>e_index = 0, e_term = 1, e_type = NOOP, e_payload = None\<rparr>"
  let ?r = "\<lparr>ae_term = 1, ae_leaderId = ''a'', ae_prevLogIndex = -1, ae_prevLogTerm = -1,
     ae_entries = [?e], ae_leaderCommit = -1\<rparr>"
  have c: "(''a'', ''b'', AppendCall ?r) \<in> calls cluster4" by code_simp
  have l: "hd (log_entries (db (nodes cluster4 ''a''))) \<in> set (log_entries (db (nodes cluster4 ''a'')))"
    "e_index (hd (log_entries (db (nodes cluster4 ''a'')))) = 0" "e_term (hd (log_entries (db (nodes cluster4 ''a'')))) = 1"
    by code_simp+
  have "hd (log_entries (db (nodes cluster4 ''a''))) = ?e"
    by (rule entries_identified[OF demo_reachable(4) _ l(1), where v = "''a''" and p = "''b''" and r = ?r])
      (use c in \<open>simp_all add: l demo_cluster_facts(1)\<close>)
  with c show ?thesis by force
qed

text \<open>
  C15: terms only grow and a leader never rewrites its log.  A step takes no node back to an older
  term and changes at most one node.  A node that leads before and after a step leads the same term;
  its last index does not fall and every entry of its log stays unless its snapshot covers it.
\<close>

theorem leader_append_only:
  assumes "reachable C" "step C C'"
  shows "(\<forall>u. currentTerm (nodes C u) \<le> currentTerm (nodes C' u))
       \<and> (\<exists>u. \<forall>v. v \<noteq> u \<longrightarrow> nodes C' v = nodes C v)
       \<and> (\<forall>u \<in> set (urls C). role (nodes C u) = LEADER \<and> role (nodes C' u) = LEADER \<longrightarrow>
            currentTerm (nodes C' u) = currentTerm (nodes C u)
          \<and> lastIndex (db (nodes C u)) \<le> lastIndex (db (nodes C' u))
          \<and> (\<forall>e \<in> set (log_entries (db (nodes C u))).
               e \<in> set (log_entries (db (nodes C' u))) \<or> e_index e \<le> last_snapshot_index (db (nodes C' u))))"
proof -
  have I: "cluster_inv C" by (rule reachable_inv[OF assms(1)])
  obtain u n where u: "u \<in> set (urls C)" "node_move C u n" "recorded (put_node u n C) u C'"
    using step_moves[OF I assms(2)] unfolding moves_def by blast
  have N: "nodes C' = (nodes C)(u := n)" using recorded_frame[OF u(3)] by simp
  have snd: "sound (nodes C u)" using I u(1) by (simp add: cluster_inv_def vote_inv_def)
  have le: "currentTerm (nodes C u) \<le> currentTerm n"
    using node_move_facts(1)[OF u(2) snd] by (simp add: vote_le_def)
  have "currentTerm n = currentTerm (nodes C u) \<and> lastIndex (db (nodes C u)) \<le> lastIndex (db n) \<and> kept (nodes C u) n"
    if r: "role (nodes C u) = LEADER" "role n = LEADER"
    using u(2)
  proof cases
    case (appending ty p)
    show ?thesis
      using append_one[of "db (nodes C u)" "snd (appendLocal ty p (nodes C u))"] soundD[OF snd]
      by (simp add: appending(1) node_frame kept_def)
  qed (use r in \<open>auto simp: steady_def node_frame\<close>)
  then show ?thesis using le unfolding N kept_def by auto
qed

theorem leader_append_only_witness:
  "step cluster3 cluster4 \<and> currentTerm (nodes cluster4 ''a'') = currentTerm (nodes cluster3 ''a'') \<and>
   lastIndex (db (nodes cluster3 ''a'')) \<le> lastIndex (db (nodes cluster4 ''a''))"
  using leader_append_only[OF demo_reachable(3,5)] demo_cluster_facts demo_reachable(5) by simp

end
