(* ===== verification/Log_Matching.thy ===== *)
theory Log_Matching imports Cluster "HOL-Library.Sublist" begin

text \<open>
  Log matching: in runs in which no node has taken a snapshot yet, logs that hold an entry of the same
  index and term agree up to it. The logs that leaders have had, \<open>leader_logs\<close>, carry the argument:
  every log of the cluster and every replication call is a copy of one of them, and two of them that
  end in the same term extend one another.
\<close>

subsection \<open>Logs as lists\<close>

definition positions :: "entry list \<Rightarrow> bool" where
  "positions l \<longleftrightarrow> (\<forall>i < length l. e_index (l ! i) = int i)"

definition last_term :: "entry list \<Rightarrow> int" where
  "last_term l = (if l = [] then -1 else e_term (last l))"

lemma positions_take [simp]: "positions l \<Longrightarrow> positions (take k l)"
  by (simp add: positions_def)

lemma positions_snoc: "positions (l @ [e]) \<longleftrightarrow> positions l \<and> e_index e = int (length l)"
  by (auto simp: positions_def nth_append less_Suc_eq)

lemma positions_find:
  "positions l \<Longrightarrow> find (\<lambda>e. e_index e = i) l = (if 0 \<le> i \<and> i < int (length l) then Some (l ! nat i) else None)"
proof (induction l rule: rev_induct)
  case (snoc e l)
  then have p: "positions l" "e_index e = int (length l)" by (simp_all add: positions_snoc)
  have "find (\<lambda>e. e_index e = i) (l @ [e]) =
      (case find (\<lambda>e. e_index e = i) l of Some x \<Rightarrow> Some x | None \<Rightarrow> find (\<lambda>e. e_index e = i) [e])"
    by (induction l) auto
  with snoc.IH[OF p(1)] p(2) show ?case by (auto simp: nth_append)
qed simp

lemma positions_sorted: "positions l \<Longrightarrow> sorted_wrt (<) (map e_index l)"
  by (simp add: sorted_wrt_iff_nth_less positions_def)

text \<open>A file without snapshot whose rows are numbered from 0.\<close>

definition plain :: "db \<Rightarrow> bool" where
  "plain d \<longleftrightarrow> db_ok d \<and> snapshots d = [] \<and> positions (log_entries d)"

lemma plain_facts:
  assumes "plain d"
  shows "last_snapshot_index d = -1" "last_snapshot_term d = -1" "log_sorted d"
    and "lastIndex d = int (length (log_entries d)) - 1" "lastTerm d = last_term (log_entries d)"
    and "firstIndex d = 0"
    and "getEntry d i = (if 0 \<le> i \<and> i < int (length (log_entries d)) then Some (log_entries d ! nat i) else None)"
proof -
  have p: "positions (log_entries d)" using assms by (simp add: plain_def)
  show s: "last_snapshot_index d = -1" "last_snapshot_term d = -1" "log_sorted d"
    using assms by (auto simp: plain_def db_ok_def snap_ok_def)
  show "lastIndex d = int (length (log_entries d)) - 1"
    using p by (cases "log_entries d" rule: rev_cases) (simp_all add: lastIndex_def s positions_snoc)
  show "lastTerm d = last_term (log_entries d)" by (simp add: lastTerm_def last_term_def s)
  show "firstIndex d = 0"
    using p by (cases "log_entries d") (auto simp: firstIndex_def s positions_def)
  show "getEntry d i = (if 0 \<le> i \<and> i < int (length (log_entries d)) then Some (log_entries d ! nat i) else None)"
    using positions_find[OF p] by (simp add: getEntry_def)
qed

lemma filter_positions:
  "positions l \<Longrightarrow> 0 \<le> a \<Longrightarrow> filter (\<lambda>e. a \<le> e_index e \<and> e_index e \<le> int (length l) - 1) l = drop (nat a) l"
  "positions l \<Longrightarrow> filter (\<lambda>e. \<not> int j \<le> e_index e) l = take j l"
proof -
  show "filter (\<lambda>e. \<not> int j \<le> e_index e) l = take j l" if "positions l"
    using that
  proof (induction l rule: rev_induct)
    case (snoc e l)
    then show ?case by (auto simp: positions_snoc)
  qed simp
  have "filter (\<lambda>e. a \<le> e_index e) l = drop (nat a) l" if "positions l" "0 \<le> a"
    using that
  proof (induction l rule: rev_induct)
    case (snoc e l)
    then show ?case by (auto simp: positions_snoc nat_le_iff)
  qed simp
  moreover have "filter (\<lambda>e. a \<le> e_index e \<and> e_index e \<le> int (length l) - 1) l = filter (\<lambda>e. a \<le> e_index e) l"
    if "positions l" using that by (intro filter_cong) (auto simp: positions_def in_set_conv_nth)
  ultimately show "positions l \<Longrightarrow> 0 \<le> a \<Longrightarrow>
      filter (\<lambda>e. a \<le> e_index e \<and> e_index e \<le> int (length l) - 1) l = drop (nat a) l" by simp
qed

lemma plain_range:
  assumes "plain d" "0 \<le> a"
  shows "(if a \<le> lastIndex d then getRange d a (lastIndex d) else []) = drop (nat a) (log_entries d)"
proof -
  have p: "positions (log_entries d)" using assms(1) by (simp add: plain_def)
  show ?thesis
    using filter_positions(1)[OF p assms(2)] assms(2)
    by (auto simp: getRange_def plain_facts[OF assms(1)])
qed

lemma replace_rows_append:
  assumes "sorted_wrt (<) (map e_index es)" "\<forall>r \<in> set rs. \<forall>e \<in> set es. e_index r < e_index e"
  shows "fold replace_row es rs = rs @ es"
  using assms
proof (induction es arbitrary: rs)
  case (Cons e es)
  have "replace_row e rs = rs @ [e]" if "\<forall>r \<in> set rs. e_index r < e_index e" for rs
    using that by (induction rs) auto
  then have "replace_row e rs = rs @ [e]" using Cons.prems(2) by simp
  moreover have "fold replace_row es (rs @ [e]) = (rs @ [e]) @ es"
    by (rule Cons.IH) (use Cons.prems in auto)
  ultimately show ?case by simp
qed simp

text \<open>
  Where \<open>handleAppendEntries\<close> starts to write when the batch is a log \<open>m\<close> from its position \<open>k\<close> on:
  nowhere when the log holds all of \<open>m\<close>, and else at the first position where the two differ, if entries
  of one position and term agree with all before them.
\<close>

lemma write_start:
  assumes "plain d" "positions m" "k \<le> length (log_entries d)" "k \<le> length m"
    and "take k (log_entries d) = take k m"
    and match: "\<forall>j. j < length (log_entries d) \<and> j < length m \<and> e_term (log_entries d ! j) = e_term (m ! j) \<longrightarrow>
       take (Suc j) (log_entries d) = take (Suc j) m"
  obtains (held) "find_write_start d (drop k m) = -1" "prefix m (log_entries d)"
  | (cut) j where "find_write_start d (drop k m) = int j" "k \<le> j" "j < length m"
      "j \<le> length (log_entries d)" "take j (log_entries d) = take j m"
      "\<not> (j < length (log_entries d) \<and> log_entries d ! j = m ! j)"
proof -
  let ?L = "log_entries d" and ?es = "drop k m"
  have ix: "e_index (?es ! i) = int (k + i)" if "i < length ?es" for i
    using that assms(2) by (simp add: positions_def)
  have sorted: "sorted_wrt (<) (map e_index ?es)"
    using positions_sorted[OF assms(2)] by (metis drop_map sorted_wrt_drop)
  have holds: "plog.holds d (m ! j) \<longleftrightarrow> j < length ?L \<and> e_term (?L ! j) = e_term (m ! j)" if "j < length m" for j
    using that assms(2) by (auto simp: plog.holds_def plain_facts[OF assms(1)] positions_def)
  show thesis
  proof (cases "find (\<lambda>e. \<not> plog.holds d e) ?es")
    case None
    then have h: "\<forall>e \<in> set ?es. plog.holds d e" by (simp add: find_None_iff)
    have h: "plog.holds d (m ! j)" if "k \<le> j" "j < length m" for j
    proof -
      have "m ! j \<in> set ?es" using nth_mem[of "j - k" ?es] that by simp
      with h show ?thesis by blast
    qed
    have "prefix m ?L"
    proof (cases "k = length m")
      case True
      with assms(5) show ?thesis by (metis take_all take_is_prefix order_refl)
    next
      case False
      let ?j = "length m - 1"
      have j: "?j < length m" "Suc ?j = length m" "k \<le> ?j" using False assms(4) by auto
      with holds[of ?j] h[of ?j] match have "take (Suc ?j) ?L = take (Suc ?j) m" by blast
      with j(2) show ?thesis by (metis take_all take_is_prefix order_refl)
    qed
    with None show ?thesis by (intro held) (simp_all add: find_write_start_find)
  next
    case (Some e0)
    obtain ys zs where es: "?es = ys @ e0 # zs" "\<forall>y \<in> set ys. plog.holds d y \<and> e_index y < e_index e0"
      by (rule plog.merge_split[OF sorted Some])
    let ?j = "k + length ys"
    have len: "?j < length m" using es(1) by (metis add.commute length_append length_drop length_greater_0_conv
        less_diff_conv less_add_same_cancel1 list.distinct(1))
    have e0: "e0 = m ! ?j" "e_index e0 = int ?j"
    proof -
      have "drop ?j m = e0 # zs"
        using arg_cong[OF es(1), of "drop (length ys)"] by (simp add: add.commute)
      then show "e0 = m ! ?j" by (metis hd_drop_conv_nth len list.sel(1))
      with len assms(2) show "e_index e0 = int ?j" by (simp add: positions_def)
    qed
    have "\<not> plog.holds d (m ! ?j)" using Some e0(1) by (auto simp: find_split)
    with holds[OF len] have no: "\<not> (?j < length ?L \<and> ?L ! ?j = m ! ?j)" by auto
    have below: "?j \<le> length ?L \<and> take ?j ?L = take ?j m"
    proof (cases ys rule: rev_cases)
      case (snoc xs y)
      let ?i = "k + length xs"
      have y: "y = m ! ?i" "?i < length m"
      proof -
        have "?es ! length xs = y" using es(1) snoc by (simp add: nth_append)
        with len snoc show "y = m ! ?i" "?i < length m" by simp_all
      qed
      with es(2) snoc have "plog.holds d (m ! ?i)" by simp
      with holds[OF y(2)] match[rule_format, of ?i] y(2) snoc show ?thesis by simp
    qed (use assms in simp)
    show ?thesis
      by (rule cut[of ?j]) (use Some e0(2) len below no in \<open>simp_all add: find_write_start_find\<close>)
  qed
qed

text \<open>The file after the cut holds what the two logs have in common.\<close>

lemma cut_common:
  assumes "j \<le> length l" "j < length m" "take j l = take j m" "\<not> (j < length l \<and> l ! j = m ! j)"
  shows "\<not> prefix m l" "prefix x m \<Longrightarrow> prefix x l \<Longrightarrow> prefix x (take j l)"
proof -
  have short: "length x \<le> j" if x: "prefix x m" "prefix x l" for x
  proof (rule ccontr)
    assume "\<not> length x \<le> j"
    then have "j < length x" by simp
    with x have "j < length l" "l ! j = x ! j" "m ! j = x ! j"
      by (auto simp: prefix_def nth_append)
    with assms(4) show False by simp
  qed
  from short[of m] assms(2) show "\<not> prefix m l" by auto
  show "prefix x (take j l)" if x: "prefix x m" "prefix x l" for x
    using short[OF x] x(2) by (auto simp: prefix_def)
qed

lemma plain_cut: "plain d \<Longrightarrow> log_entries (truncateFrom (int j) d) = take j (log_entries d)"
  using filter_positions(2)[of "log_entries d" j] by (simp add: truncateFrom_def plain_def del: of_nat_add)

text \<open>So storing leaves the log when it contains \<open>m\<close>, and makes it \<open>m\<close> otherwise.\<close>

lemma store_copy:
  assumes "plain d" "positions m" "k \<le> length (log_entries d)" "k \<le> length m"
    and "take k (log_entries d) = take k m"
    and match: "\<forall>j. j < length (log_entries d) \<and> j < length m \<and> e_term (log_entries d ! j) = e_term (m ! j) \<longrightarrow>
       take (Suc j) (log_entries d) = take (Suc j) m"
  shows "log_entries (store_entries (drop k m) d) =
    (if prefix m (log_entries d) then log_entries d else m)"
proof (cases rule: write_start[OF assms, case_names held cut])
  case held
  then show ?thesis by (simp add: store_entries_def)
next
  case (cut j)
  let ?L = "log_entries d"
  have pL: "positions ?L" using assms(1) by (simp add: plain_def)
  have flt: "filter (\<lambda>e. int j \<le> e_index e) (drop k m) = drop j m"
  proof -
    have "filter (\<lambda>e. int j \<le> e_index e) (take k m) = []" "filter (\<lambda>e. int j \<le> e_index e) (take j m) = []"
      using assms(2) cut(2) by (auto simp: filter_empty_conv positions_def in_set_conv_nth)
    moreover have "filter (\<lambda>e. int j \<le> e_index e) (drop j m) = drop j m"
      using assms(2) by (auto simp: filter_id_conv positions_def in_set_conv_nth)
    ultimately show ?thesis by (metis append_take_drop_id append_Nil filter_append)
  qed
  have "log_entries (store_entries (drop k m) d) = fold replace_row (drop j m) (take j ?L)"
    using cut(1-3) flt plain_cut[OF assms(1), of j] by (simp add: store_entries_def appendEntries_def)
  also have "\<dots> = take j ?L @ drop j m"
  proof (rule replace_rows_append)
    show "sorted_wrt (<) (map e_index (drop j m))"
      using positions_sorted[OF assms(2)] by (metis drop_map sorted_wrt_drop)
    show "\<forall>r \<in> set (take j ?L). \<forall>e \<in> set (drop j m). e_index r < e_index e"
      using pL assms(2) by (auto simp: positions_def in_set_conv_nth)
  qed
  also have "\<dots> = m" unfolding cut(5) by simp
  finally show ?thesis using cut_common(1)[OF cut(4,3,5,6)] by simp
qed

subsection \<open>Nodes without snapshots\<close>

lemma maybeSnapshot_none: "snapshots (db (maybeSnapshot n)) = [] \<Longrightarrow> maybeSnapshot n = n"
  by (cases n rule: maybeSnapshot_cases) (simp_all add: db_simps)

lemma applyCommitted_none:
  assumes "snapshots (db (applyCommitted n)) = []"
  shows "applyCommitted n = apply_loop n" "db (applyCommitted n) = db n"
  using maybeSnapshot_none[of "apply_loop n"] assms by (simp_all add: applyCommitted_def node_frame)

lemma becomeFollower_snapshots [simp]: "snapshots (db (becomeFollower t l n)) = snapshots (db n)"
  by (simp add: node_frame db_simps)

lemma accept_leader_snapshots [simp]: "snapshots (db (accept_leader t l n)) = snapshots (db n)"
  by (auto simp: accept_leader_def node_frame db_simps)

lemma accept_leader_next [simp]:
  "next_of (accept_leader t l n) p = next_of n p" "match_of (accept_leader t l n) p = match_of n p"
  by (auto simp: accept_leader_def node_frame next_of_def match_of_def)

lemma append_none:
  assumes "snapshots (db (fst (handleAppendEntries r n))) = []"
  shows "snapshots (db n) = []"
    and "log_entries (db (fst (handleAppendEntries r n))) =
      (if ar_success (snd (handleAppendEntries r n)) then log_entries (store_entries (ae_entries r) (db n))
       else log_entries (db n))"
    and "next_of (fst (handleAppendEntries r n)) p = next_of n p"
proof -
  have "snapshots (db n) = [] \<and> log_entries (db (fst (handleAppendEntries r n))) =
      (if ar_success (snd (handleAppendEntries r n)) then log_entries (store_entries (ae_entries r) (db n))
       else log_entries (db n)) \<and> next_of (fst (handleAppendEntries r n)) p = next_of n p"
  proof (cases r n rule: handleAppendEntries_cases)
    case stale
    with assms show ?thesis by simp
  next
    case mismatch
    with assms show ?thesis by (simp add: node_frame)
  next
    case (success n2)
    show ?thesis
    proof (cases "ae_leaderCommit r > commitIndex n")
      case True
      let ?m = "n2\<lparr>commitIndex := min (ae_leaderCommit r) (lastIndex (db n2))\<rparr>"
      have h: "fst (handleAppendEntries r n) = applyCommitted ?m" using success(4) True by simp
      with assms have "db (applyCommitted ?m) = db ?m" by (intro applyCommitted_none(2)) simp
      then have d: "db (fst (handleAppendEntries r n)) = db n2" using h by simp
      have "next_of (applyCommitted ?m) p = next_of n p"
        by (simp add: success(3) next_of_def node_frame)
          (simp add: accept_leader_def node_frame)
      with assms success(3,5) d h show ?thesis by (simp add: node_frame)
    next
      case False
      with assms success show ?thesis by (simp add: node_frame next_of_def) (simp add: accept_leader_def node_frame)
    qed
  qed
  then show "snapshots (db n) = []"
    and "log_entries (db (fst (handleAppendEntries r n))) =
      (if ar_success (snd (handleAppendEntries r n)) then log_entries (store_entries (ae_entries r) (db n))
       else log_entries (db n))"
    and "next_of (fst (handleAppendEntries r n)) p = next_of n p" by simp_all
qed

lemma vote_none:
  "snapshots (db (fst (handleRequestVote r n))) = snapshots (db n)"
  "next_of (fst (handleRequestVote r n)) p = next_of n p"
  by (auto simp: handleRequestVote_def node_frame db_simps next_of_def Let_def)

text \<open>A vote that is granted goes to a log at least as new as the voter's.\<close>

lemma granted_up_to_date:
  "vr_granted (snd (handleRequestVote r n)) \<Longrightarrow>
   lastTerm (db n) < rv_lastLogTerm r \<or>
   rv_lastLogTerm r = lastTerm (db n) \<and> lastIndex (db n) \<le> rv_lastLogIndex r"
  by (auto simp: handleRequestVote_def node_frame db_simps Let_def split: if_splits)

lemma maybeAdvance_none:
  assumes "snapshots (db (maybeAdvanceCommitIndex n)) = []"
  shows "db (maybeAdvanceCommitIndex n) = db n"
proof (cases n rule: maybeAdvance_cases)
  case (yes k)
  with assms applyCommitted_none(2)[of "n\<lparr>commitIndex := k\<rparr>"] show ?thesis by (simp add: node_frame)
qed simp

lemma append_answer_none:
  assumes "snapshots (db (appendReply p r b n)) = []"
  shows "snapshots (db n) = []" "log_entries (db (appendReply p r b n)) = log_entries (db n)"
proof -
  have "db (maybeAdvanceCommitIndex (n\<lparr>matchIndex := m, nextIndex := x\<rparr>)) = db n"
    if "snapshots (db (maybeAdvanceCommitIndex (n\<lparr>matchIndex := m, nextIndex := x\<rparr>))) = []" for m x
    using maybeAdvance_none[OF that] by simp
  with assms show "snapshots (db n) = []" "log_entries (db (appendReply p r b n)) = log_entries (db n)"
    by (auto simp: appendReply_def Let_def node_frame db_simps split: if_splits)
qed

lemma append_answer_next:
  assumes "-1 \<le> ae_prevLogIndex r" "\<forall>e \<in> set (ae_entries r). 0 \<le> e_index e" "\<forall>q. 0 \<le> next_of n q"
  shows "0 \<le> next_of (appendReply p r b n) q"
proof -
  let ?nm = "if ae_entries r \<noteq> [] then e_index (last (ae_entries r)) else ae_prevLogIndex r"
  have "0 \<le> ?nm + 1"
  proof (cases "ae_entries r = []")
    case False
    then have "last (ae_entries r) \<in> set (ae_entries r)" by simp
    with assms(2) have "0 \<le> e_index (last (ae_entries r))" by blast
    with False show ?thesis by simp
  qed (use assms in simp)
  with assms(3) show ?thesis
    by (auto simp: appendReply_def Let_def next_of_def node_frame update_conv')
qed

lemma readIndex_begin_none:
  "db (fst (readIndex_begin n)) = db n" "role (fst (readIndex_begin n)) = role n"
  "currentTerm (fst (readIndex_begin n)) = currentTerm n" "next_of (fst (readIndex_begin n)) p = next_of n p"
  by (simp_all add: readIndex_begin_def broadcast_eq next_of_def)

subsection \<open>Runs without snapshots\<close>

abbreviation log_of :: "cluster \<Rightarrow> string \<Rightarrow> entry list" where
  "log_of C u \<equiv> log_entries (db (nodes C u))"

definition quiet :: "cluster \<Rightarrow> bool" where
  "quiet C \<longleftrightarrow> (\<forall>u \<in> set (urls C). snapshots (db (nodes C u)) = [])"

definition append_call :: "cluster \<Rightarrow> string \<Rightarrow> string \<Rightarrow> append_entries \<Rightarrow> bool" where
  "append_call C u p r \<longleftrightarrow> (u, p, AppendCall r) \<in> calls C \<or> (u, p, ReadCall r) \<in> calls C"

text \<open>
  A replication call that carries the end of \<open>l\<close>; a call whose predecessor its sender did not hold,
  which no one accepts; the log that a vote request describes.
\<close>

definition copies :: "entry list \<Rightarrow> append_entries \<Rightarrow> bool" where
  "copies l r \<longleftrightarrow> -1 \<le> ae_prevLogIndex r \<and> ae_prevLogIndex r < int (length l) \<and>
     ae_entries r = drop (nat (ae_prevLogIndex r + 1)) l \<and>
     (0 \<le> ae_prevLogIndex r \<longrightarrow> ae_prevLogTerm r = e_term (l ! nat (ae_prevLogIndex r)))"

definition dud :: "append_entries \<Rightarrow> bool" where
  "dud r \<longleftrightarrow> 0 \<le> ae_prevLogIndex r \<and> ae_prevLogTerm r = -1 \<and> ae_entries r = []"

definition replicates :: "entry list \<Rightarrow> append_entries \<Rightarrow> bool" where
  "replicates l r \<longleftrightarrow> l \<noteq> [] \<and> last_term l = ae_term r \<and> copies l r"

definition describes :: "entry list \<Rightarrow> request_vote \<Rightarrow> bool" where
  "describes l r \<longleftrightarrow> rv_lastLogIndex r = int (length l) - 1 \<and> rv_lastLogTerm r = last_term l"

definition fresh_call :: "node \<Rightarrow> call \<Rightarrow> bool" where
  "fresh_call n c \<longleftrightarrow> (\<exists>r. (c = AppendCall r \<or> c = ReadCall r) \<and> ae_term r = currentTerm n \<and>
     ae_leaderCommit r = commitIndex n \<and> (dud r \<or> copies (log_entries (db n)) r))"

lemma request_fresh:
  assumes "plain (db n)" "0 \<le> next_of n p" "appendRequest n p = Some c"
  shows "fresh_call n c"
proof -
  note f = plain_facts[OF assms(1)]
  let ?L = "log_entries (db n)" and ?x = "next_of n p"
  let ?r = "\<lparr>ae_term = currentTerm n, ae_leaderId = replicaId n,
     ae_prevLogIndex = ?x - 1, ae_prevLogTerm = prev_term (db n) (?x - 1),
     ae_entries = drop (nat ?x) ?L, ae_leaderCommit = commitIndex n\<rparr>"
  have c: "c = AppendCall ?r"
    using assms(2,3) plain_range[OF assms(1,2)] by (simp add: appendRequest_def f(6) Let_def split: if_splits)
  have t: "prev_term (db n) i = (if 0 \<le> i \<and> i < int (length ?L) then e_term (?L ! nat i) else -1)" for i
    by (auto simp: prev_term_def loadMeta_def Let_def f(1) f(7))
  have "dud ?r \<or> copies ?L ?r"
  proof (cases "?x \<le> int (length ?L)")
    case True
    with assms(2) have "copies ?L ?r" by (auto simp: copies_def t)
    then show ?thesis ..
  next
    case False
    with assms(2) have "dud ?r" by (auto simp: dud_def t)
    then show ?thesis ..
  qed
  with c show ?thesis by (auto simp: fresh_call_def)
qed

lemma requests_fresh:
  "plain (db n) \<Longrightarrow> \<forall>p. 0 \<le> next_of n p \<Longrightarrow> (p, c) \<in> set (requests n) \<Longrightarrow> role n = LEADER \<and> fresh_call n c"
  by (auto simp: requests_def split: option.splits intro: request_fresh)
    (auto simp: appendRequest_def split: if_splits)

lemma read_fresh:
  assumes "plain (db n)" "(p, c) \<in> set (outbox (fst (readIndex_begin n)))"
  shows "(p, c) \<in> set (outbox n) \<or> role n = LEADER \<and> fresh_call n c"
proof (cases "fst (readIndex_begin n) = n")
  case True
  with assms(2) show ?thesis by simp
next
  case False
  note f = plain_facts[OF assms(1)]
  let ?L = "log_entries (db n)"
  let ?r = "\<lparr>ae_term = currentTerm n, ae_leaderId = replicaId n, ae_prevLogIndex = lastIndex (db n),
     ae_prevLogTerm = lastTerm (db n), ae_entries = [], ae_leaderCommit = commitIndex n\<rparr>"
  have l: "role n = LEADER" "(p, c) \<in> set (outbox n) \<or> c = ReadCall ?r"
    using False assms(2) by (auto simp: readIndex_begin_def broadcast_eq split: if_splits)
  have "copies ?L ?r"
    by (cases ?L rule: rev_cases) (auto simp: copies_def f(4,5) last_term_def)
  then have "fresh_call n (ReadCall ?r)" by (simp add: fresh_call_def)
  with l show ?thesis by blast
qed

text \<open>
  The invariant: the logs of leaders are closed under prefixes, numbered from 0, with non-negative terms
  of which the last is the highest; of two that end in the same term the shorter is a prefix of the other;
  every node's log is one of them (or empty), a leader's log is the longest that ends in its term; calls
  copy them.
\<close>

definition lines_ok :: "cluster \<Rightarrow> bool" where
  "lines_ok C \<longleftrightarrow>
     (\<forall>l \<in> leader_logs C. l \<noteq> [] \<and> positions l \<and> 0 \<le> last_term l \<and> (\<exists>u. (u, last_term l) \<in> leaders C)) \<and>
     (\<forall>l \<in> leader_logs C. \<forall>k. 0 < k \<longrightarrow> take k l \<in> leader_logs C \<and> last_term (take k l) \<le> last_term l) \<and>
     (\<forall>l \<in> leader_logs C. \<forall>l' \<in> leader_logs C. last_term l = last_term l' \<and> length l \<le> length l' \<longrightarrow> prefix l l')"

definition held_ok :: "cluster \<Rightarrow> bool" where
  "held_ok C \<longleftrightarrow>
     (\<forall>u \<in> set (urls C). (log_of C u = [] \<or> log_of C u \<in> leader_logs C) \<and> 0 \<le> currentTerm (nodes C u) \<and>
        last_term (log_of C u) \<le> currentTerm (nodes C u) \<and> (\<forall>p. 0 \<le> next_of (nodes C u) p)) \<and>
     (\<forall>u \<in> set (urls C). role (nodes C u) = LEADER \<longrightarrow> log_of C u \<noteq> [] \<and>
        last_term (log_of C u) = currentTerm (nodes C u) \<and>
        (\<forall>l \<in> leader_logs C. last_term l = currentTerm (nodes C u) \<longrightarrow> length l \<le> length (log_of C u)))"

definition calls_ok :: "cluster \<Rightarrow> bool" where
  "calls_ok C \<longleftrightarrow>
     (\<forall>u p r. append_call C u p r \<longrightarrow> dud r \<or> (\<exists>l \<in> leader_logs C. replicates l r)) \<and>
     (\<forall>u p r. (u, p, SnapshotCall r) \<notin> calls C) \<and>
     (\<forall>u p r. (u, p, VoteCall r) \<in> calls C \<longrightarrow> rv_term r \<le> currentTerm (nodes C u) \<and>
        (\<exists>l. (l = [] \<or> l \<in> leader_logs C) \<and> describes l r \<and>
          (role (nodes C u) = CANDIDATE \<and> currentTerm (nodes C u) = rv_term r \<longrightarrow> log_of C u = l)))"

definition line_inv :: "cluster \<Rightarrow> bool" where
  "line_inv C \<longleftrightarrow> lines_ok C \<and> held_ok C \<and> calls_ok C"

lemma lines_match:
  assumes "lines_ok C" "l = [] \<or> l \<in> leader_logs C" "m = [] \<or> m \<in> leader_logs C"
    and "j < length l" "j < length m" "e_term (l ! j) = e_term (m ! j)"
  shows "take (Suc j) l = take (Suc j) m"
proof -
  have lm: "l \<in> leader_logs C" "m \<in> leader_logs C" using assms(2-5) by auto
  have t: "last_term (take (Suc j) x) = e_term (x ! j)" if "j < length x" for x
    using that by (simp add: last_term_def take_Suc_conv_app_nth)
  have in_: "take (Suc j) l \<in> leader_logs C" "take (Suc j) m \<in> leader_logs C"
    using assms(1) lm unfolding lines_ok_def by blast+
  have ext: "prefix x y" if "x \<in> leader_logs C" "y \<in> leader_logs C" "last_term x = last_term y"
      "length x \<le> length y" for x y
    using that assms(1) unfolding lines_ok_def by blast
  have "prefix (take (Suc j) l) (take (Suc j) m)"
    by (rule ext[OF in_]) (use assms(4-6) t in simp_all)
  with assms(4,5) show ?thesis by (simp add: prefix_def) (metis Suc_leI append_eq_conv_conj length_take min.absorb2 take_all order_refl)
qed

lemma held_plain:
  assumes "cluster_inv C" "line_inv C" "quiet C" "u \<in> set (urls C)"
  shows "plain (db (nodes C u))"
proof -
  have "db_ok (db (nodes C u))" using assms(1,4) by (simp add: cluster_inv_def vote_inv_def sound_def)
  moreover have "log_of C u = [] \<or> log_of C u \<in> leader_logs C"
    using assms(2,4) by (simp add: line_inv_def held_ok_def)
  then have "positions (log_of C u)" using assms(2) by (auto simp: line_inv_def lines_ok_def positions_def)
  ultimately show ?thesis using assms(3,4) by (simp add: plain_def quiet_def)
qed

text \<open>What a node makes of a replication call it accepts.\<close>

lemma accepted_start:
  assumes "lines_ok C" "plain d" "log_entries d = [] \<or> log_entries d \<in> leader_logs C"
    and "dud r \<or> (\<exists>l \<in> leader_logs C. replicates l r)"
    and "ae_prevLogIndex r < 0 \<or> prev_matches d (ae_prevLogIndex r) (ae_prevLogTerm r)"
  obtains l k where "l \<in> leader_logs C" "replicates l r" "ae_entries r = drop k l" "k \<le> length (log_entries d)"
    "k \<le> length l" "take k (log_entries d) = take k l" "positions l"
    "\<forall>j. j < length (log_entries d) \<and> j < length l \<and> e_term (log_entries d ! j) = e_term (l ! j) \<longrightarrow>
       take (Suc j) (log_entries d) = take (Suc j) l"
proof -
  let ?L = "log_entries d" and ?p = "ae_prevLogIndex r"
  note f = plain_facts[OF assms(2)]
  have pm: "0 \<le> ?p \<Longrightarrow> ?p < int (length ?L) \<and> e_term (?L ! nat ?p) = ae_prevLogTerm r"
    using assms(5) by (auto simp: prev_matches_def loadMeta_def Let_def f(1) f(7) split: if_splits)
  have "\<not> dud r"
  proof
    assume "dud r"
    with pm have p: "0 \<le> ?p" "nat ?p < length ?L" "e_term (?L ! nat ?p) = -1" by (auto simp: dud_def)
    then have "take (Suc (nat ?p)) ?L \<in> leader_logs C" using assms(1,3) by (auto simp: lines_ok_def)
    then have "0 \<le> last_term (take (Suc (nat ?p)) ?L)" using assms(1) by (simp add: lines_ok_def)
    with p show False by (simp add: last_term_def take_Suc_conv_app_nth)
  qed
  with assms(4) obtain l where l: "l \<in> leader_logs C" "replicates l r" by blast
  then have c: "-1 \<le> ?p" "?p < int (length l)" "ae_entries r = drop (nat (?p + 1)) l"
    "0 \<le> ?p \<Longrightarrow> ae_prevLogTerm r = e_term (l ! nat ?p)" by (auto simp: replicates_def copies_def)
  have pos: "positions l" using l(1) assms(1) by (simp add: lines_ok_def)
  have match: "take (Suc j) ?L = take (Suc j) l"
    if "j < length ?L" "j < length l" "e_term (?L ! j) = e_term (l ! j)" for j
    using lines_match[OF assms(1,3) _ that] l(1) by blast
  let ?k = "nat (?p + 1)"
  have k: "?k \<le> length ?L \<and> ?k \<le> length l \<and> take ?k ?L = take ?k l"
  proof (cases "0 \<le> ?p")
    case True
    then have "?k = Suc (nat ?p)" by (simp add: nat_add_distrib)
    moreover have "nat ?p < length ?L" "nat ?p < length l" using True pm c(2) by auto
    ultimately show ?thesis using match[of "nat ?p"] pm[OF True] c(4)[OF True] by simp
  next
    case False
    with c(1) have "?p = -1" by simp
    then show ?thesis by simp
  qed
  then show thesis using match by (intro that[OF l c(3) _ _ _ pos]) blast+
qed

lemma accepted_log:
  assumes "lines_ok C" "plain d" "log_entries d = [] \<or> log_entries d \<in> leader_logs C"
    and "dud r \<or> (\<exists>l \<in> leader_logs C. replicates l r)"
    and "ae_prevLogIndex r < 0 \<or> prev_matches d (ae_prevLogIndex r) (ae_prevLogTerm r)"
  shows "\<exists>l \<in> leader_logs C. replicates l r \<and>
    log_entries (store_entries (ae_entries r) d) = (if prefix l (log_entries d) then log_entries d else l)"
proof -
  obtain l k where l: "l \<in> leader_logs C" "replicates l r" "ae_entries r = drop k l" "k \<le> length (log_entries d)"
    "k \<le> length l" "take k (log_entries d) = take k l" "positions l"
    "\<forall>j. j < length (log_entries d) \<and> j < length l \<and> e_term (log_entries d ! j) = e_term (l ! j) \<longrightarrow>
       take (Suc j) (log_entries d) = take (Suc j) l"
    by (rule accepted_start[OF assms])
  from store_copy[OF assms(2) l(7,4,5,6) l(8)] l(1-3) show ?thesis by auto
qed

text \<open>
  The files that it leaves on the way, after the cut and after the batch: one of the logs of leaders, with
  all that the old log has in common with the leader's.
\<close>

lemma accepted_files:
  assumes "lines_ok C" "plain d" "log_entries d = [] \<or> log_entries d \<in> leader_logs C"
    and "dud r \<or> (\<exists>l \<in> leader_logs C. replicates l r)"
    and "ae_prevLogIndex r < 0 \<or> prev_matches d (ae_prevLogIndex r) (ae_prevLogTerm r)"
    and "f \<in> set (store_files (ae_entries r) d)"
  shows "\<exists>l \<in> leader_logs C. replicates l r \<and> \<not> prefix l (log_entries d) \<and>
    (log_entries f = [] \<or> log_entries f \<in> leader_logs C) \<and> last_term (log_entries f) \<le> last_term l \<and>
    (\<forall>x. prefix x l \<and> prefix x (log_entries d) \<longrightarrow> prefix x (log_entries f))"
proof -
  obtain l k where l: "l \<in> leader_logs C" "replicates l r" "ae_entries r = drop k l" "k \<le> length (log_entries d)"
    "k \<le> length l" "take k (log_entries d) = take k l" "positions l"
    "\<forall>j. j < length (log_entries d) \<and> j < length l \<and> e_term (log_entries d ! j) = e_term (l ! j) \<longrightarrow>
       take (Suc j) (log_entries d) = take (Suc j) l"
    by (rule accepted_start[OF assms(1-5)])
  have f: "find_write_start d (drop k l) \<ge> 0" "f = truncateFrom (find_write_start d (drop k l)) d \<or> f = store_entries (drop k l) d"
    using assms(6) l(3) by (auto simp: store_files_def split: if_splits)
  have tk: "(take j l = [] \<or> take j l \<in> leader_logs C) \<and> last_term (take j l) \<le> last_term l" for j
    using assms(1) l(1) by (cases "j = 0") (auto simp: lines_ok_def last_term_def)
  show ?thesis
  proof (cases rule: write_start[OF assms(2) l(7,4,5,6) l(8), case_names held cut])
    case held
    with f(1) show ?thesis by simp
  next
    case (cut j)
    note cc = cut_common[OF cut(4,3,5,6)]
    from f(2) have "log_entries f = take j (log_entries d) \<or> log_entries f = l"
      using plain_cut[OF assms(2), of j] store_copy[OF assms(2) l(7,4,5,6) l(8)] cc(1) by (auto simp: cut(1))
    then show ?thesis
    proof
      assume "log_entries f = l"
      with l(1,2) cc(1) show ?thesis by auto
    next
      assume "log_entries f = take j (log_entries d)"
      with l(1,2) cc tk[of j] cut(5) show ?thesis by auto
    qed
  qed
qed

subsection \<open>What a step changes\<close>

definition quorum :: "cluster \<Rightarrow> string set \<Rightarrow> bool" where
  "quorum C Q \<longleftrightarrow> Q \<subseteq> set (urls C) \<and> card (set (urls C)) < 2 * card Q"

text \<open>
  How a node moves: its log stays, or becomes a leader's log \<open>l\<close> (after a crash on the way, a log with all that
  it had in common with \<open>l\<close>), or it stands, wins or appends.
\<close>

inductive change :: "cluster \<Rightarrow> string \<Rightarrow> node \<Rightarrow> bool" for C u where
  stays: "log_entries (db n) = log_of C u \<Longrightarrow> currentTerm (nodes C u) \<le> currentTerm n \<Longrightarrow>
    role n = FOLLOWER \<or> role n = role (nodes C u) \<and> currentTerm n = currentTerm (nodes C u) \<Longrightarrow>
    (\<And>p c. (p, c) \<in> set (outbox n) \<Longrightarrow>
       (p, c) \<in> set (outbox (nodes C u)) \<or> role (nodes C u) = LEADER \<and> fresh_call (nodes C u) c) \<Longrightarrow>
    \<forall>p. 0 \<le> next_of n p \<Longrightarrow> change C u n"
| adopts: "l \<in> leader_logs C \<Longrightarrow> last_term l = currentTerm n \<Longrightarrow> currentTerm (nodes C u) \<le> currentTerm n \<Longrightarrow>
    \<not> prefix l (log_of C u) \<Longrightarrow> log_entries (db n) = [] \<or> log_entries (db n) \<in> leader_logs C \<Longrightarrow>
    last_term (log_entries (db n)) \<le> currentTerm n \<Longrightarrow>
    \<forall>x. prefix x l \<and> prefix x (log_of C u) \<longrightarrow> prefix x (log_entries (db n)) \<Longrightarrow> role n = FOLLOWER \<Longrightarrow>
    set (outbox n) \<subseteq> set (outbox (nodes C u)) \<Longrightarrow> \<forall>p. 0 \<le> next_of n p \<Longrightarrow> change C u n"
| stands: "n = startElection (nodes C u) \<Longrightarrow> change C u n"
| wins: "role (nodes C u) = CANDIDATE \<Longrightarrow> quorum C Q \<Longrightarrow>
    (\<And>v. v \<in> Q \<Longrightarrow> v = u \<or> (\<exists>r b. (v, u, r, b) \<in> vote_answers C \<and> vr_granted b \<and>
        rv_term r = currentTerm (nodes C u) \<and> (u, v, VoteCall r) \<in> calls C)) \<Longrightarrow>
    n = becomeLeader (nodes C u) \<Longrightarrow> change C u n"
| appends: "role (nodes C u) = LEADER \<Longrightarrow>
    n = sendAppendEntriesToAll (fst (appendLocal ty p (nodes C u))) \<Longrightarrow> change C u n"

definition up_to_date :: "request_vote \<Rightarrow> entry list \<Rightarrow> bool" where
  "up_to_date r l \<longleftrightarrow> last_term l < rv_lastLogTerm r \<or>
     rv_lastLogTerm r = last_term l \<and> int (length l) - 1 \<le> rv_lastLogIndex r"

text \<open>The answers that a step may record, for a granted vote and for an accepted replication call.\<close>

definition vote_recorded :: "cluster \<Rightarrow> string \<Rightarrow> node \<Rightarrow> cluster \<Rightarrow> bool" where
  "vote_recorded C u n C' \<longleftrightarrow> vote_answers C \<subseteq> vote_answers C' \<and>
     (\<forall>v w r b. (v, w, r, b) \<in> vote_answers C' \<and> (v, w, r, b) \<notin> vote_answers C \<and> vr_granted b \<longrightarrow>
        v = u \<and> (w, u, VoteCall r) \<in> calls C \<and> currentTerm n = rv_term r \<and> up_to_date r (log_of C u) \<and>
        log_entries (db n) = log_of C u)"

definition append_recorded :: "cluster \<Rightarrow> string \<Rightarrow> node \<Rightarrow> cluster \<Rightarrow> bool" where
  "append_recorded C u n C' \<longleftrightarrow> append_answers C \<subseteq> append_answers C' \<and>
     (\<forall>v w r b. (v, w, r, b) \<in> append_answers C' \<and> (v, w, r, b) \<notin> append_answers C \<and> ar_success b \<longrightarrow>
        v = u \<and> append_call C w u r \<and> currentTerm n = ae_term r \<and>
        (\<exists>l \<in> leader_logs C. replicates l r \<and> prefix l (log_entries (db n))))"

definition qstep :: "cluster \<Rightarrow> cluster \<Rightarrow> string \<Rightarrow> node \<Rightarrow> bool" where
  "qstep C C' u n \<longleftrightarrow> u \<in> set (urls C) \<and> change C u n \<and> urls C' = urls C \<and> nodes C' = (nodes C)(u := n) \<and>
     calls C' = calls C \<union> {(u, p, c) |p c. (p, c) \<in> set (outbox n)} \<and>
     leaders C' = leaders C \<union> {(u, t) |t. role n = LEADER \<and> t = currentTerm n} \<and>
     leader_logs C' = leader_logs C \<union> {l. role n = LEADER \<and> l = log_entries (db n)} \<and>
     vote_recorded C u n C' \<and> append_recorded C u n C'"

lemma qstep_put:
  assumes "u \<in> set (urls C)" "change C u n"
  shows "qstep C (put_node u n C) u n"
  using assms by (auto simp: qstep_def vote_recorded_def append_recorded_def)

text \<open>No step takes the snapshot of a node away.\<close>

lemma torn_snapshots:
  assumes "cluster_inv C" "u \<in> set (urls C)" "torn C u f" "snapshots f = []"
  shows "snapshots (db (nodes C u)) = []"
proof -
  have n: "durable (nodes C u)" "db_ok (db (nodes C u))"
    using assms(1,2) by (simp_all add: cluster_inv_def vote_inv_def sound_def)
  show ?thesis
    using assms(3,4) vote_files_ok(3)[OF n] append_files_ok(3)[OF n] install_files_ok(3)[OF n] reply_files_ok(3)[OF n]
    unfolding torn_def by metis
qed

lemma snapshots_back:
  assumes "step C C'" "quiet C'" "cluster_inv C"
  shows "quiet C"
proof -
  have put: "quiet C" if "quiet (put_node u n C)" "snapshots (db n) = [] \<Longrightarrow> snapshots (db (nodes C u)) = []" for u n
    using that by (auto simp: quiet_def split: if_splits)
  have ans: "quiet (D\<lparr>vote_answers := V\<rparr>) = quiet D" "quiet (D\<lparr>append_answers := A\<rparr>) = quiet D"
    "quiet (D\<lparr>snapshot_answers := S\<rparr>) = quiet D" for D V A S by (simp_all add: quiet_def)
  from assms(1) show ?thesis
  proof cases
    case (deliver_vote u v r n b)
    with assms(2) put[of v n] vote_none(1)[of r "nodes C v"] show ?thesis by (simp add: ans)
  next
    case (deliver_append u v c r n b)
    with assms(2) put[of v n] append_none(1)[of r "nodes C v"] show ?thesis by (simp add: ans)
  next
    case (deliver_snapshot u v r n t)
    have "snapshots (db (fst (handleInstallSnapshot r (nodes C v)))) = [] \<Longrightarrow> snapshots (db (nodes C v)) = []"
      by (cases r "nodes C v" rule: handleInstallSnapshot_cases) auto
    with deliver_snapshot assms(2) put[of v n] show ?thesis by (simp add: ans)
  next
    case (vote_round u t rs)
    have "snapshots (db (electionResults t rs (nodes C u))) = snapshots (db (nodes C u))"
      by (cases rule: electionResults_cases[where n = "nodes C u" and t = t and rs = rs])
        (simp_all add: node_frame db_simps)
    with vote_round assms(2) put show ?thesis by metis
  next
    case (read_round u t rs)
    have "snapshots (db (fst (readIndex_results t rs (nodes C u)))) = snapshots (db (nodes C u))"
      using readIndex_results_fst[of t rs "nodes C u"] by (auto simp: node_frame db_simps)
    with read_round assms(2) put show ?thesis by metis
  next
    case (append_answer u p r b)
    with assms(2) put append_answer_none(1) show ?thesis by metis
  next
    case (restart u mx t x)
    with assms(2) put show ?thesis by (metis reboot_facts(4))
  next
    case (client_submit u p)
    have "snapshots (db (fst (submit_begin STROKE p (nodes C u)))) = snapshots (db (nodes C u))"
      by (auto simp: submit_begin_def Let_def case_prod_beta node_frame db_simps split: option.splits)
    with client_submit assms(2) put show ?thesis by metis
  next
    case (snapshot_answer u p r t)
    have "snapshots (db (snapshotReply p r t (nodes C u))) = snapshots (db (nodes C u))"
      by (simp add: snapshotReply_def node_frame db_simps)
    with snapshot_answer assms(2) put show ?thesis by metis
  next
    case (heartbeat u)
    with assms(2) put show ?thesis by (metis frame_sendAppendEntriesToAll(4))
  next
    case (client_read u)
    with assms(2) put show ?thesis by (metis readIndex_begin_none(1))
  next
    case (election_timeout u)
    have "snapshots (db (startElection (nodes C u))) = snapshots (db (nodes C u))"
      by (simp add: node_frame db_simps)
    with election_timeout assms(2) put show ?thesis by metis
  next
    case (halt u)
    have "snapshots (db (stop (nodes C u))) = snapshots (db (nodes C u))"
      by (simp add: stop_def node_frame)
    with halt assms(2) put show ?thesis by metis
  next
    case (clock u x t)
    with assms(2) put[of u "(nodes C u)\<lparr>now := t, rnd := x\<rparr>"] show ?thesis by simp
  next
    case (power_loss u f mx t x)
    have "snapshots f = [] \<Longrightarrow> snapshots (db (nodes C u)) = []" by (rule torn_snapshots[OF assms(3) power_loss(2,3)])
    with power_loss assms(2) put[of u "reboot mx t x ((nodes C u)\<lparr>db := f\<rparr>)"] show ?thesis by (simp add: reboot_facts)
  qed
qed


lemma stays_same:
  assumes "log_entries (db n) = log_of C u" "role n = role (nodes C u)" "currentTerm n = currentTerm (nodes C u)"
    and "outbox n = outbox (nodes C u)" "\<forall>p. 0 \<le> next_of n p"
  shows "change C u n"
  using assms by (intro stays) auto

lemma stays_follower:
  assumes "\<forall>p. 0 \<le> next_of (nodes C u) p"
  shows "change C u (becomeFollower t l (nodes C u))"
  using assms by (intro stays) (auto simp: node_frame db_simps next_of_def)

lemma call_or_dud:
  assumes "line_inv C" "append_call C u p r"
  shows "dud r \<or> (\<exists>l \<in> leader_logs C. replicates l r)"
  using assms by (simp add: line_inv_def calls_ok_def)

lemma call_bounds:
  assumes "line_inv C" "append_call C u p r"
  shows "-1 \<le> ae_prevLogIndex r" "\<forall>e \<in> set (ae_entries r). 0 \<le> e_index e"
proof -
  note c = call_or_dud[OF assms]
  then show "-1 \<le> ae_prevLogIndex r" by (auto simp: dud_def replicates_def copies_def)
  have "0 \<le> e_index e" if l: "l \<in> leader_logs C" "e \<in> set l" for l e
  proof -
    have "positions l" using l(1) assms(1) by (simp add: line_inv_def lines_ok_def)
    with l(2) show ?thesis by (auto simp: positions_def in_set_conv_nth)
  qed
  moreover have "\<exists>l \<in> leader_logs C. e \<in> set l" if "e \<in> set (ae_entries r)" for e
    using c that in_set_dropD[of e] by (fastforce simp: dud_def replicates_def copies_def)
  ultimately show "\<forall>e \<in> set (ae_entries r). 0 \<le> e_index e" by blast
qed

lemma append_change:
  assumes L: "line_inv C" and pl: "plain (db (nodes C v))" and v: "v \<in> set (urls C)"
    and call: "append_call C u v r" and q: "snapshots (db (fst (handleAppendEntries r (nodes C v)))) = []"
  shows "change C v (fst (handleAppendEntries r (nodes C v)))"
    and "ar_success (snd (handleAppendEntries r (nodes C v))) \<Longrightarrow>
      currentTerm (fst (handleAppendEntries r (nodes C v))) = ae_term r \<and>
      (\<exists>l \<in> leader_logs C. replicates l r \<and> prefix l (log_entries (db (fst (handleAppendEntries r (nodes C v))))))"
proof -
  let ?n = "nodes C v" and ?b = "snd (handleAppendEntries r (nodes C v))"
  let ?n' = "fst (handleAppendEntries r ?n)"
  have h: "\<forall>p. 0 \<le> next_of ?n p" "log_of C v = [] \<or> log_of C v \<in> leader_logs C"
    using L v by (simp_all add: line_inv_def held_ok_def)
  note f = append_none[OF q] handleAppendEntries_role handler_outbox(2)
  have le: "currentTerm ?n \<le> currentTerm ?n'" by (simp add: f)
  have ok: "\<exists>l \<in> leader_logs C. replicates l r \<and>
      log_entries (db ?n') = (if prefix l (log_of C v) then log_of C v else l) \<and> currentTerm ?n' = ae_term r \<and>
      role ?n' = FOLLOWER" if "ar_success ?b"
  proof (cases r "?n" rule: handleAppendEntries_cases)
    case (success n2)
    from accepted_log[OF _ pl h(2) call_or_dud[OF L call] success(2)] L
    obtain l where "l \<in> leader_logs C" "replicates l r"
      "log_entries (store_entries (ae_entries r) (db ?n)) = (if prefix l (log_of C v) then log_of C v else l)"
      by (auto simp: line_inv_def)
    with success(1,5) f show ?thesis by auto
  qed (use that in simp_all)
  then show "ar_success ?b \<Longrightarrow> currentTerm ?n' = ae_term r \<and>
      (\<exists>l \<in> leader_logs C. replicates l r \<and> prefix l (log_entries (db ?n')))" by auto
  show "change C v ?n'"
  proof (cases "ar_success ?b")
    case False
    with h f show ?thesis by (intro stays) auto
  next
    case True
    with ok obtain l where l: "l \<in> leader_logs C" "replicates l r" "currentTerm ?n' = ae_term r" "role ?n' = FOLLOWER"
      "log_entries (db ?n') = (if prefix l (log_of C v) then log_of C v else l)" by blast
    show ?thesis
    proof (cases "prefix l (log_of C v)")
      case True
      with l h f show ?thesis by (intro stays) auto
    next
      case False
      with l le h f show ?thesis by (intro adopts[of l]) (auto simp: replicates_def)
    qed
  qed
qed

text \<open>The votes that make a leader.\<close>

lemma granted_voters:
  assumes "cluster_inv C" "u \<in> set (urls C)" "vote_results C u (currentTerm (nodes C u)) rs"
    and "majority (nodes C u) \<le> 1 + int (length (filter vr_granted (answers rs)))"
  obtains Q where "quorum C Q"
    "\<And>v. v \<in> Q \<Longrightarrow> v = u \<or> (\<exists>r b. (v, u, r, b) \<in> vote_answers C \<and> vr_granted b \<and>
        rv_term r = currentTerm (nodes C u) \<and> (u, v, VoteCall r) \<in> calls C)"
proof -
  let ?n = "nodes C u"
  let ?G = "{p. \<exists>b. (p, Some b) \<in> set (zip (peers ?n) rs) \<and> vr_granted b}"
  have ps: "distinct (peers ?n)" "set (peers ?n) = set (urls C) - {u}" and d: "distinct (urls C)"
    using assms(1,2) by (auto simp: cluster_inv_def vote_inv_def conf_def)
  have lst: "list_all2 (\<lambda>p x. case x of None \<Rightarrow> True | Some b \<Rightarrow>
         \<exists>r. rv_term r = currentTerm ?n \<and> (u, p, VoteCall r) \<in> calls C \<and> (p, u, r, b) \<in> vote_answers C)
       (peers ?n) rs" using assms(3) by (simp add: vote_results_def)
  note G = card_granted[OF lst ps(1), of vr_granted]
  have fin: "finite ?G" "u \<notin> ?G" using G ps(2) finite_subset by auto
  have "card (set (urls C)) = length (peers ?n) + 1"
    using distinct_card[OF ps(1)] ps(2) assms(2) by (metis List.finite_set Suc_eq_plus1 card_Suc_Diff1)
  then have "card (set (urls C)) < 2 * card (insert u ?G)"
    using assms(4) G fin by (simp add: majority_def card_insert_if)
  then have "quorum C (insert u ?G)" using assms(2) G ps(2) by (auto simp: quorum_def)
  moreover have "v = u \<or> (\<exists>r b. (v, u, r, b) \<in> vote_answers C \<and> vr_granted b \<and>
        rv_term r = currentTerm (nodes C u) \<and> (u, v, VoteCall r) \<in> calls C)" if "v \<in> insert u ?G" for v
  proof (cases "v = u")
    case False
    with that obtain b where b: "(v, Some b) \<in> set (zip (peers ?n) rs)" "vr_granted b" by auto
    with lst show ?thesis by (fastforce simp: list_all2_iff)
  qed simp
  ultimately show thesis by (rule that)
qed


lemma reboot_next: "next_of (reboot mx t x n) p = 0"
  by (simp add: next_of_def reboot_def start_def Let_def node_frame new_node_def split: option.split)

text \<open>A crash at a write: the log is the old one, or on its way to a leader's.\<close>

lemma torn_change:
  assumes I: "cluster_inv C" and L: "line_inv C" and Q: "quiet C" and u: "u \<in> set (urls C)"
    and f: "torn C u f" and s: "snapshots f = []"
  shows "change C u (reboot mx t x ((nodes C u)\<lparr>db := f\<rparr>))"
proof -
  have n: "durable (nodes C u)" "db_ok (db (nodes C u))"
    using I u by (simp_all add: cluster_inv_def vote_inv_def sound_def)
  have le: "currentTerm (nodes C u) \<le> current_term f" using torn_file(1)[OF I u f] by (simp add: file_le_def)
  have same: ?thesis if "log_entries f = log_of C u"
    using that le by (intro stays) (simp_all add: reboot_facts reboot_next)
  from f consider (vote) r where "f \<in> set (vote_files r (nodes C u))"
    | (append) w r where "append_call C w u r" "f \<in> set (append_files r (nodes C u))"
    | (install) w r where "(w, u, SnapshotCall r) \<in> calls C"
    | (reply) p r b where "f \<in> set (reply_files p r b (nodes C u))"
    unfolding torn_def append_call_def by blast
  then show ?thesis
  proof cases
    case vote
    from same[OF vote_files_ok(2)[OF n this]] show ?thesis .
  next
    case install
    with L show ?thesis by (auto simp: line_inv_def calls_ok_def)
  next
    case reply
    with same reply_files_ok(3)[OF n reply s] show ?thesis by blast
  next
    case (append w r)
    have t: "current_term f = ae_term r" by (rule append_files_ok(4)[OF n append(2)])
    show ?thesis
    proof (cases rule: append_files_cases[OF append(2), case_names newer stored snapshot])
      case newer
      from same[OF term_files_ok(2)[OF n(2) newer]] show ?thesis .
    next
      case (stored d)
      have pl: "plain (db (nodes C u))" by (rule held_plain[OF I L Q u])
      have d: "log_entries d = log_of C u" "plain d" "prev_matches d = prev_matches (db (nodes C u))"
        using pl accept_file(1,3)[OF n stored(1), of "ae_leaderId r"]
        by (auto simp: stored(2) plain_def file_le_def node_frame fun_eq_iff)
      obtain l where "l \<in> leader_logs C" "replicates l r" "\<not> prefix l (log_of C u)"
        "log_entries f = [] \<or> log_entries f \<in> leader_logs C" "last_term (log_entries f) \<le> last_term l"
        "\<forall>x. prefix x l \<and> prefix x (log_of C u) \<longrightarrow> prefix x (log_entries f)"
        using accepted_files[OF _ d(2) _ call_or_dud[OF L append(1)] _ stored(4)] stored(3) L u
        by (auto simp: d line_inv_def held_ok_def)
      then show ?thesis
        using le t by (intro adopts[of l]) (simp_all add: reboot_facts reboot_next replicates_def)
    next
      case (snapshot m)
      from snapshot_files_ok(5)[OF snapshot(3)] s show ?thesis by simp
    qed
  qed
qed

lemma step_changes:
  assumes I: "cluster_inv C" and L: "line_inv C" and "step C C'" and "quiet C'"
  obtains u n where "qstep C C' u n"
proof -
  have Q: "quiet C" by (rule snapshots_back[OF assms(3,4) I])
  note pl = held_plain[OF I L Q]
  have nx: "\<forall>p. 0 \<le> next_of (nodes C u) p" if "u \<in> set (urls C)" for u
    using that L by (simp add: line_inv_def held_ok_def)
  have put: thesis if "C' = put_node u n C" "u \<in> set (urls C)" "change C u n" for u n
    using that qstep_put that(1) \<open>\<And>u n. qstep C C' u n \<Longrightarrow> thesis\<close> by blast
  have same: "change C u n" if "u \<in> set (urls C)" "log_entries (db n) = log_of C u"
      "role n = role (nodes C u)" "currentTerm n = currentTerm (nodes C u)"
      "outbox n = outbox (nodes C u)" "nextIndex n = nextIndex (nodes C u)" for u n
    using that nx[OF that(1)] by (intro stays_same) (simp_all add: next_of_def)
  from assms(3) show thesis
  proof cases
    case (clock u t x)
    then show thesis by (intro put[OF clock(1)] same) simp_all
  next
    case (election_timeout u)
    then show thesis by (intro put[OF election_timeout(1)] stands) simp_all
  next
    case (heartbeat u)
    have "change C u (sendAppendEntriesToAll (nodes C u))"
      using nx[OF heartbeat(2)] requests_fresh[OF pl[OF heartbeat(2)] nx[OF heartbeat(2)]]
      by (intro stays) (auto simp: sendAppendEntriesToAll_eq next_of_def)
    with heartbeat show thesis by (intro put)
  next
    case (deliver_vote u v r n b)
    have n: "n = fst (handleRequestVote r (nodes C v))" "b = snd (handleRequestVote r (nodes C v))"
      using deliver_vote(4) by simp_all
    have ch: "change C v n"
      using nx[OF deliver_vote(3)] unfolding n
      by (intro stays) (auto simp: handleRequestVote_role handleRequestVote_db handler_outbox vote_none)
    have "up_to_date r (log_of C v)" "currentTerm n = rv_term r" if "vr_granted b"
      using that granted_up_to_date[of r "nodes C v"] handleRequestVote_granted[of r "nodes C v"]
        plain_facts(4,5)[OF pl[OF deliver_vote(3)]] by (auto simp: n up_to_date_def)
    then have "qstep C C' v n"
      using deliver_vote(1,2,3) ch
      by (auto simp: qstep_def vote_recorded_def append_recorded_def n handleRequestVote_db)
    then show thesis by (rule that)
  next
    case (vote_round u t rs)
    show thesis
    proof (cases rule: electionResults_cases[where n = "nodes C u" and t = t and rs = rs, case_names ignored newer lost won])
      case won
      with vote_round granted_voters[OF I vote_round(2), of rs] obtain Q where Q: "quorum C Q"
        "\<And>v. v \<in> Q \<Longrightarrow> v = u \<or> (\<exists>r b. (v, u, r, b) \<in> vote_answers C \<and> vr_granted b \<and>
          rv_term r = currentTerm (nodes C u) \<and> (u, v, VoteCall r) \<in> calls C)" by metis
      have "change C u (becomeLeader (nodes C u))" by (rule wins[OF won(2) Q refl])
      with vote_round(1,2) won(6) show thesis by (intro put) simp_all
    next
      case (newer b)
      with vote_round(1,2) stays_follower[OF nx[OF vote_round(2)]] show thesis by (intro put) simp_all
    qed (use vote_round(1,2) same in \<open>auto intro: put\<close>)
  next
    case (deliver_append u v c r n b)
    have n: "n = fst (handleAppendEntries r (nodes C v))" "b = snd (handleAppendEntries r (nodes C v))"
      using deliver_append(5) by simp_all
    have call: "append_call C u v r" using deliver_append(2,3) by (auto simp: append_call_def)
    have q: "snapshots (db (fst (handleAppendEntries r (nodes C v)))) = []"
      using assms(4) deliver_append(1,4) n by (simp add: quiet_def) (metis fun_upd_same)
    note a = append_change[OF L pl[OF deliver_append(4)] deliver_append(4) call q, folded n]
    have "qstep C C' v n"
      using deliver_append(1,4) a call by (auto simp: qstep_def vote_recorded_def append_recorded_def)
    then show thesis by (rule that)
  next
    case (append_answer u p r b)
    have q: "snapshots (db (appendReply p r b (nodes C u))) = []"
      using assms(4) append_answer(1,2) by (simp add: quiet_def) (metis fun_upd_same)
    have call: "append_call C u p r" using append_answer(3) by (simp add: append_call_def)
    have "change C u (appendReply p r b (nodes C u))"
    proof (cases "appendReply p r b (nodes C u) = becomeFollower (ar_term b) None (nodes C u)")
      case True
      with stays_follower[OF nx[OF append_answer(2)]] show ?thesis by simp
    next
      case False
      then have "role (appendReply p r b (nodes C u)) = role (nodes C u) \<and>
          currentTerm (appendReply p r b (nodes C u)) = currentTerm (nodes C u) \<and>
          outbox (appendReply p r b (nodes C u)) = outbox (nodes C u)"
        by (auto simp: appendReply_def Let_def node_frame split: if_splits)
      then show ?thesis
        using append_answer_none(2)[OF q] append_answer_next[OF call_bounds[OF L call] nx[OF append_answer(2)]]
        by (intro stays_same) simp_all
    qed
    with append_answer(1,2) show thesis by (intro put)
  next
    case (deliver_snapshot u v r n t)
    then show thesis using L by (auto simp: line_inv_def calls_ok_def)
  next
    case (snapshot_answer u p r t)
    then show thesis using L by (auto simp: line_inv_def calls_ok_def)
  next
    case (client_submit u p)
    show thesis
    proof (cases "fst (submit_begin STROKE p (nodes C u)) = nodes C u")
      case True
      with client_submit same show thesis by (auto intro: put)
    next
      case False
      then have "role (nodes C u) = LEADER" "fst (submit_begin STROKE p (nodes C u)) =
          sendAppendEntriesToAll (fst (appendLocal STROKE p (nodes C u)))"
        by (auto simp: submit_begin_def Let_def case_prod_beta split: option.splits if_splits)
      with client_submit show thesis by (intro put[OF client_submit(1)] appends)
    qed
  next
    case (client_read u)
    have "change C u (fst (readIndex_begin (nodes C u)))"
      using nx[OF client_read(2)] read_fresh[OF pl[OF client_read(2)]]
      by (intro stays) (auto simp: readIndex_begin_none)
    with client_read show thesis by (intro put)
  next
    case (read_round u t rs)
    have "change C u (fst (readIndex_results t rs (nodes C u)))"
      using readIndex_results_fst[of t rs "nodes C u"] same[OF read_round(2)] stays_follower[OF nx[OF read_round(2)]]
      by auto
    with read_round show thesis by (intro put)
  next
    case (halt u)
    then show thesis by (intro put[OF halt(1)] same) (simp_all add: stop_def node_frame)
  next
    case (restart u mx t x)
    have "sound (nodes C u)" using I restart(2) by (simp add: cluster_inv_def vote_inv_def)
    then have "current_term (db (nodes C u)) = currentTerm (nodes C u)" by (simp add: sound_def durable_def)
    then have "change C u (reboot mx t x (nodes C u))"
      by (intro stays) (simp_all add: reboot_facts reboot_next)
    with restart show thesis by (intro put)
  next
    case (power_loss u f mx t x)
    have "snapshots f = []" using assms(4) power_loss(1,2) by (auto simp: quiet_def reboot_facts)
    from torn_change[OF I L Q power_loss(2,3) this] power_loss(1,2) show thesis by (intro put)
  qed
qed

subsection \<open>The invariant is kept\<close>

lemma append_plain:
  assumes "plain d" "e_index e = int (length (log_entries d))"
  shows "log_entries (appendEntries [e] d) = log_entries d @ [e]" "plain (appendEntries [e] d)"
proof -
  have "db_ok d" "e_index e = lastIndex d + 1" using assms plain_facts(4)[OF assms(1)] by (simp_all add: plain_def)
  from append_one(1)[OF this] show l: "log_entries (appendEntries [e] d) = log_entries d @ [e]" .
  show "plain (appendEntries [e] d)"
    using assms by (auto simp: plain_def l positions_snoc db_simps)
qed

text \<open>A node that wins or appends has its old log with one entry of its term at the end.\<close>

lemma leader_grows:
  assumes "plain (db (nodes C u))" "n = becomeLeader (nodes C u) \<or>
      role (nodes C u) = LEADER \<and> n = sendAppendEntriesToAll (fst (appendLocal ty p (nodes C u)))"
    and "\<forall>p. 0 \<le> next_of (nodes C u) p"
  obtains e where "log_entries (db n) = log_of C u @ [e]" "e_term e = currentTerm (nodes C u)"
    "e_index e = int (length (log_of C u))" "role n = LEADER" "currentTerm n = currentTerm (nodes C u)"
    "commitIndex n = commitIndex (nodes C u)" "\<forall>p. 0 \<le> next_of n p"
    "\<forall>p c. (p, c) \<in> set (outbox n) \<longrightarrow> (p, c) \<in> set (outbox (nodes C u)) \<or> fresh_call n c"
proof -
  let ?u = "nodes C u"
  note f = plain_facts[OF assms(1)]
  have fresh: "fresh_call n c" if "(p, c) \<in> set (requests m)" "plain (db m)" "\<forall>p. 0 \<le> next_of m p"
      "db n = db m" "currentTerm n = currentTerm m" "commitIndex n = commitIndex m" for m p c
    using requests_fresh[OF that(2,3,1)] that(4-6) by (auto simp: fresh_call_def)
  from assms(2) show thesis
  proof
    assume n: "n = becomeLeader ?u"
    let ?e = "\<lparr>e_index = lastIndex (db ?u) + 1, e_term = currentTerm ?u, e_type = NOOP, e_payload = None\<rparr>"
    let ?m = "fst (appendLocal NOOP None (emit (RoleEv LEADER)
     ((clearElectionTimer ?u)\<lparr>role := LEADER, leaderId := Some (replicaId ?u),
        nextIndex := fold (\<lambda>p. map_set p (lastIndex (db ?u) + 1)) (peers ?u) [],
        matchIndex := fold (\<lambda>p. map_set p (-1)) (peers ?u) []\<rparr>)))"
    have ix: "e_index ?e = int (length (log_of C u))" by (simp add: f)
    have bl: "n = (sendAppendEntriesToAll ?m)\<lparr>heartbeatTimer := Some (heartbeatMs (config ?u))\<rparr>"
      by (simp add: n becomeLeader_def Let_def node_frame)
    have nm: "0 \<le> map_default" if "map_default = next_of ?m p" for p map_default
      using that f(4) by (auto simp: next_of_def node_frame map_get_fold_set)
    have "plain (db ?m)" using append_plain(2)[OF assms(1) ix] by (simp add: node_frame)
    moreover have "\<forall>p. 0 \<le> next_of ?m p" using nm by blast
    ultimately have fr: "fresh_call n c" if "(p, c) \<in> set (requests ?m)" for p c
      using fresh[OF that] by (simp add: bl node_frame)
    have "\<forall>p. 0 \<le> next_of n p" using \<open>\<forall>p. 0 \<le> next_of ?m p\<close> by (simp add: bl sendAppendEntriesToAll_eq next_of_def)
    moreover have "\<forall>p c. (p, c) \<in> set (outbox n) \<longrightarrow> (p, c) \<in> set (outbox ?u) \<or> fresh_call n c"
      using fr by (auto simp: bl sendAppendEntriesToAll_eq node_frame)
    ultimately show thesis
      using append_plain(1)[OF assms(1) ix] ix by (intro that[of ?e]) (simp_all add: n node_frame)
  next
    assume n: "role ?u = LEADER \<and> n = sendAppendEntriesToAll (fst (appendLocal ty p ?u))"
    let ?m = "fst (appendLocal ty p ?u)" and ?e = "snd (appendLocal ty p ?u)"
    have ix: "e_index ?e = int (length (log_of C u))" by (simp add: f node_frame)
    have m: "plain (db ?m)" "\<forall>p. 0 \<le> next_of ?m p"
      using append_plain(2)[OF assms(1) ix] assms(3) by (simp_all add: node_frame next_of_def)
    then have "fresh_call n c" if "(p, c) \<in> set (requests ?m)" for p c
      using fresh[OF that] n by (simp add: node_frame)
    then have "\<forall>p c. (p, c) \<in> set (outbox n) \<longrightarrow> (p, c) \<in> set (outbox ?u) \<or> fresh_call n c"
      using n by (auto simp: sendAppendEntriesToAll_eq node_frame)
    moreover have "\<forall>p. 0 \<le> next_of n p" using m(2) n by (simp add: sendAppendEntriesToAll_eq next_of_def)
    ultimately show thesis
      using append_plain(1)[OF assms(1) ix] ix n by (intro that[of ?e]) (simp_all add: node_frame)
  qed
qed

text \<open>The three outcomes of a change that the invariants distinguish.\<close>

lemma change_cases:
  assumes I: "cluster_inv C" "cluster_inv C'" and L: "line_inv C" and Q: "quiet C" and S: "qstep C C' u n"
  obtains (same) "log_entries (db n) = log_of C u" "leader_logs C' = leader_logs C"
      "role n = FOLLOWER \<or> role n = role (nodes C u) \<and> currentTerm n = currentTerm (nodes C u) \<or> n = startElection (nodes C u)"
      "\<forall>p. 0 \<le> next_of n p"
      "\<forall>p c. (p, c) \<in> set (outbox n) \<longrightarrow> (u, p, c) \<in> calls C \<or> role (nodes C u) = LEADER \<and> fresh_call (nodes C u) c \<or>
         n = startElection (nodes C u) \<and> c = VoteCall \<lparr>rv_term = currentTerm n, rv_candidateId = replicaId n,
          rv_lastLogIndex = int (length (log_of C u)) - 1, rv_lastLogTerm = last_term (log_of C u)\<rparr>"
  | (adopted) l where "l \<in> leader_logs C" "last_term l = currentTerm n" "leader_logs C' = leader_logs C"
      "\<not> prefix l (log_of C u)" "log_entries (db n) = [] \<or> log_entries (db n) \<in> leader_logs C"
      "last_term (log_entries (db n)) \<le> currentTerm n"
      "\<forall>x. prefix x l \<and> prefix x (log_of C u) \<longrightarrow> prefix x (log_entries (db n))" "role n = FOLLOWER" "\<forall>p. 0 \<le> next_of n p"
      "\<forall>p c. (p, c) \<in> set (outbox n) \<longrightarrow> (u, p, c) \<in> calls C"
  | (grown) e where "log_entries (db n) = log_of C u @ [e]" "e_term e = currentTerm n" "e_index e = int (length (log_of C u))"
      "leader_logs C' = insert (log_of C u @ [e]) (leader_logs C)" "role n = LEADER"
      "currentTerm n = currentTerm (nodes C u)" "commitIndex n = commitIndex (nodes C u)"
      "\<forall>l \<in> leader_logs C. last_term l = currentTerm n \<longrightarrow> prefix l (log_of C u)"
      "\<forall>p. 0 \<le> next_of n p"
      "\<forall>p c. (p, c) \<in> set (outbox n) \<longrightarrow> (u, p, c) \<in> calls C \<or> fresh_call n c"
      "role (nodes C u) = LEADER \<or> role (nodes C u) = CANDIDATE \<and> n = becomeLeader (nodes C u) \<and>
         (\<exists>Q. quorum C Q \<and> (\<forall>v \<in> Q. v = u \<or> (\<exists>r b. (v, u, r, b) \<in> vote_answers C \<and> vr_granted b \<and>
            rv_term r = currentTerm (nodes C u) \<and> (u, v, VoteCall r) \<in> calls C)))"
proof -
  have u: "u \<in> set (urls C)" and lines: "leader_logs C' = leader_logs C \<union> {l. role n = LEADER \<and> l = log_entries (db n)}"
    and lead: "leaders C' = leaders C \<union> {(u, t) |t. role n = LEADER \<and> t = currentTerm n}"
    using S by (simp_all add: qstep_def)
  note pl = held_plain[OF I(1) L Q u]
  have H: "\<forall>p. 0 \<le> next_of (nodes C u) p" and HL: "role (nodes C u) = LEADER \<Longrightarrow> log_of C u \<in> leader_logs C \<and>
        last_term (log_of C u) = currentTerm (nodes C u) \<and>
        (\<forall>l \<in> leader_logs C. last_term l = currentTerm (nodes C u) \<longrightarrow> length l \<le> length (log_of C u))"
    using L u by (auto simp: line_inv_def held_ok_def)
  have out: "(u, p, c) \<in> calls C" if "(p, c) \<in> set (outbox (nodes C u))" for p c
    using that I(1) u by (simp add: cluster_inv_def call_inv_def)
  have "change C u n" using S by (simp add: qstep_def)
  then show thesis
  proof cases
    case stays
    have "leader_logs C' = leader_logs C" using stays(1,3) HL lines by auto
    then show thesis by (rule same[OF stays(1)]) (use stays(3-5) out in blast)+
  next
    case (adopts l)
    with lines out show thesis by (intro adopted[of l]) auto
  next
    case stands
    with lines out H show thesis
      by (intro same) (auto simp: node_frame db_simps plain_facts[OF pl] next_of_def)
  next
    case (wins R)
    obtain e where e: "log_entries (db n) = log_of C u @ [e]" "e_term e = currentTerm (nodes C u)"
      "e_index e = int (length (log_of C u))" "role n = LEADER" "currentTerm n = currentTerm (nodes C u)"
      "commitIndex n = commitIndex (nodes C u)" "\<forall>p. 0 \<le> next_of n p"
      "\<forall>p c. (p, c) \<in> set (outbox n) \<longrightarrow> (p, c) \<in> set (outbox (nodes C u)) \<or> fresh_call n c"
      using leader_grows[OF pl _ H, of n] wins(4) by blast
    have none: "last_term l \<noteq> currentTerm n" if l: "l \<in> leader_logs C" for l
    proof
      assume t: "last_term l = currentTerm n"
      obtain w where w: "(w, currentTerm n) \<in> leaders C"
        using l t L unfolding line_inv_def lines_ok_def by metis
      have "w = u"
        using one_leader[of C' w "currentTerm n" u] I(2) w lead e(4) by (simp add: cluster_inv_def)
      with w e(5) wins(1) I(1) show False by (auto simp: cluster_inv_def vote_inv_def leader_inv_def)
    qed
    have o: "\<forall>p c. (p, c) \<in> set (outbox n) \<longrightarrow> (u, p, c) \<in> calls C \<or> fresh_call n c" using e(8) out by blast
    have w: "role (nodes C u) = LEADER \<or> role (nodes C u) = CANDIDATE \<and> n = becomeLeader (nodes C u) \<and>
         (\<exists>Q. quorum C Q \<and> (\<forall>v \<in> Q. v = u \<or> (\<exists>r b. (v, u, r, b) \<in> vote_answers C \<and> vr_granted b \<and>
            rv_term r = currentTerm (nodes C u) \<and> (u, v, VoteCall r) \<in> calls C)))" using wins by blast
    show thesis
      by (rule grown[OF e(1) _ e(3) _ e(4,5,6) _ e(7) o w]) (use e(1,2,4,5) lines none in \<open>simp_all\<close>)
  next
    case (appends ty p)
    obtain e where e: "log_entries (db n) = log_of C u @ [e]" "e_term e = currentTerm (nodes C u)"
      "e_index e = int (length (log_of C u))" "role n = LEADER" "currentTerm n = currentTerm (nodes C u)"
      "commitIndex n = commitIndex (nodes C u)" "\<forall>p. 0 \<le> next_of n p"
      "\<forall>p c. (p, c) \<in> set (outbox n) \<longrightarrow> (p, c) \<in> set (outbox (nodes C u)) \<or> fresh_call n c"
      using leader_grows[OF pl _ H, of n ty p] appends by blast
    have "prefix l (log_of C u)" if "l \<in> leader_logs C" "last_term l = currentTerm n" for l
      using that HL[OF appends(1)] e(5) L unfolding line_inv_def lines_ok_def by simp
    moreover have "\<forall>p c. (p, c) \<in> set (outbox n) \<longrightarrow> (u, p, c) \<in> calls C \<or> fresh_call n c"
      using e(8) out by blast
    ultimately show thesis
      by (intro grown[OF e(1) _ e(3) _ e(4,5,6) _ e(7)]) (use e(1,2,4,5) lines appends(1) in \<open>simp_all\<close>)
  qed
qed

lemma last_term_take: "j < length l \<Longrightarrow> last_term (take (Suc j) l) = e_term (l ! j)"
  by (simp add: last_term_def take_Suc_conv_app_nth)

lemma lines_kept:
  assumes I: "cluster_inv C" "cluster_inv C'" and L: "line_inv C" and Q: "quiet C" and S: "qstep C C' u n"
  shows "lines_ok C'"
proof -
  have u: "u \<in> set (urls C)" and more: "leaders C \<subseteq> leaders C'" using S by (auto simp: qstep_def)
  have old: "lines_ok C" using L by (simp add: line_inv_def)
  have h: "log_of C u = [] \<or> log_of C u \<in> leader_logs C" "0 \<le> currentTerm (nodes C u)"
    "last_term (log_of C u) \<le> currentTerm (nodes C u)" using L u by (auto simp: line_inv_def held_ok_def)
  show ?thesis
  proof (cases rule: change_cases[OF I L Q S, case_names same adopted grown])
    case same
    with old more show ?thesis unfolding lines_ok_def by (metis subsetD)
  next
    case adopted
    with old more show ?thesis unfolding lines_ok_def by (metis subsetD)
  next
    case (grown e)
    let ?l = "log_of C u @ [e]"
    have "positions (log_of C u)" using h(1) old by (auto simp: lines_ok_def) (simp add: positions_def)
    with grown(3) have pos: "positions ?l" by (simp add: positions_snoc)
    have t: "last_term ?l = currentTerm n" using grown(2) by (simp add: last_term_def)
    have led: "(u, currentTerm n) \<in> leaders C'" using S grown(5) by (auto simp: qstep_def)
    have tk: "take k ?l \<in> leader_logs C' \<and> last_term (take k ?l) \<le> last_term ?l" if k: "0 < k" for k
    proof (cases "k \<le> length (log_of C u)")
      case True
      with k have "log_of C u \<in> leader_logs C" using h(1) by auto
      with k old have "take k (log_of C u) \<in> leader_logs C"
          "last_term (take k (log_of C u)) \<le> last_term (log_of C u)" unfolding lines_ok_def by blast+
      with True h(3) t grown(4,6) show ?thesis by simp
    qed (use grown(4) in simp)
    have cmp: "prefix l ?l \<and> length l < length ?l" if "l \<in> leader_logs C" "last_term l = last_term ?l" for l
      using that grown(8) t prefix_length_le[of l "log_of C u"] by (auto intro: prefix_order.trans)
    have ext: "prefix l l'" if "l \<in> leader_logs C'" "l' \<in> leader_logs C'" "last_term l = last_term l'"
        "length l \<le> length l'" for l l'
    proof (cases "l = ?l")
      case True
      with that cmp[of l'] grown(4) show ?thesis by auto
    next
      case False
      with that(1) grown(4) have l: "l \<in> leader_logs C" by simp
      show ?thesis
      proof (cases "l' = ?l")
        case True
        with l cmp that(3) show ?thesis by simp
      next
        case False
        with that(2) grown(4) have "l' \<in> leader_logs C" by simp
        with l that(3,4) old show ?thesis unfolding lines_ok_def by blast
      qed
    qed
    have one: "l \<noteq> [] \<and> positions l \<and> 0 \<le> last_term l \<and> (\<exists>w. (w, last_term l) \<in> leaders C')"
      if "l \<in> leader_logs C'" for l
    proof (cases "l = ?l")
      case True
      with pos t led h(2) grown(6) show ?thesis by auto
    next
      case False
      with that grown(4) have "l \<in> leader_logs C" by simp
      with old more show ?thesis unfolding lines_ok_def by blast
    qed
    have two: "take k l \<in> leader_logs C' \<and> last_term (take k l) \<le> last_term l"
      if "l \<in> leader_logs C'" "0 < k" for l k
    proof (cases "l = ?l")
      case False
      with that(1) grown(4) have "l \<in> leader_logs C" by simp
      with old that(2) grown(4) show ?thesis unfolding lines_ok_def by blast
    qed (use tk[OF that(2)] in simp)
    show ?thesis unfolding lines_ok_def using one two ext by blast
  qed
qed

lemma held_kept:
  assumes I: "cluster_inv C" "cluster_inv C'" and L: "line_inv C" and Q: "quiet C" and S: "qstep C C' u n"
  shows "held_ok C'"
proof -
  have u: "u \<in> set (urls C)" and N: "urls C' = urls C" "nodes C' = (nodes C)(u := n)"
    and lead: "leaders C' = leaders C \<union> {(u, t) |t. role n = LEADER \<and> t = currentTerm n}"
    using S by (simp_all add: qstep_def)
  have le: "currentTerm (nodes C u) \<le> currentTerm n"
  proof -
    have "change C u n" using S by (simp add: qstep_def)
    then show ?thesis by cases (simp_all add: node_frame)
  qed
  have old: "log_of C v = [] \<or> log_of C v \<in> leader_logs C" "0 \<le> currentTerm (nodes C v)"
    "last_term (log_of C v) \<le> currentTerm (nodes C v)" "\<forall>p. 0 \<le> next_of (nodes C v) p"
    "role (nodes C v) = LEADER \<Longrightarrow> log_of C v \<noteq> [] \<and> last_term (log_of C v) = currentTerm (nodes C v) \<and>
        (\<forall>l \<in> leader_logs C. last_term l = currentTerm (nodes C v) \<longrightarrow> length l \<le> length (log_of C v))"
    if "v \<in> set (urls C)" for v using that L by (simp_all add: line_inv_def held_ok_def)
  note ou = old[OF u]
  have sub: "leader_logs C \<subseteq> leader_logs C'" using S by (auto simp: qstep_def)
  have me: "(log_entries (db n) = [] \<or> log_entries (db n) \<in> leader_logs C') \<and> last_term (log_entries (db n)) \<le> currentTerm n
      \<and> (\<forall>p. 0 \<le> next_of n p)
      \<and> (role n = LEADER \<longrightarrow> log_entries (db n) \<noteq> [] \<and> last_term (log_entries (db n)) = currentTerm n \<and>
          (\<forall>l \<in> leader_logs C'. last_term l = currentTerm n \<longrightarrow> length l \<le> length (log_entries (db n))))"
  proof (cases rule: change_cases[OF I L Q S, case_names same adopted grown])
    case same
    from same(3) have "role n \<noteq> LEADER \<or> role (nodes C u) = LEADER \<and> currentTerm n = currentTerm (nodes C u)"
      by (auto simp: node_frame)
    with ou le sub same(1,2,4) show ?thesis by auto
  next
    case adopted
    with sub show ?thesis by auto
  next
    case (grown e)
    have t: "last_term (log_entries (db n)) = currentTerm n" using grown(1,2) by (simp add: last_term_def)
    have "length l \<le> length (log_entries (db n))" if "l \<in> leader_logs C'" "last_term l = currentTerm n" for l
      using that grown(1,4,8) prefix_length_le[of l "log_of C u"] by auto
    with t grown show ?thesis by simp
  qed
  have other: "(\<forall>l \<in> leader_logs C'. last_term l = currentTerm (nodes C v) \<longrightarrow> length l \<le> length (log_of C v))"
    if v: "v \<in> set (urls C)" "v \<noteq> u" "role (nodes C v) = LEADER" for v
  proof (intro ballI impI)
    fix l assume l: "l \<in> leader_logs C'" "last_term l = currentTerm (nodes C v)"
    show "length l \<le> length (log_of C v)"
    proof (cases "l \<in> leader_logs C")
      case True
      with l v old show ?thesis by simp
    next
      case False
      with l(1) S have n: "role n = LEADER" "l = log_entries (db n)" by (auto simp: qstep_def)
      then have "currentTerm n = currentTerm (nodes C v)" using me l(2) by simp
      moreover have "(v, currentTerm (nodes C v)) \<in> leaders C'"
        using v I(1) lead by (simp add: cluster_inv_def vote_inv_def leader_inv_def)
      ultimately have "v = u" using one_leader[of C' v "currentTerm n" u] I(2) lead n(1) by (simp add: cluster_inv_def)
      with v(2) show ?thesis by simp
    qed
  qed
  have "(log_of C' v = [] \<or> log_of C' v \<in> leader_logs C') \<and> 0 \<le> currentTerm (nodes C' v) \<and>
        last_term (log_of C' v) \<le> currentTerm (nodes C' v) \<and> (\<forall>p. 0 \<le> next_of (nodes C' v) p) \<and>
       (role (nodes C' v) = LEADER \<longrightarrow> log_of C' v \<noteq> [] \<and> last_term (log_of C' v) = currentTerm (nodes C' v) \<and>
        (\<forall>l \<in> leader_logs C'. last_term l = currentTerm (nodes C' v) \<longrightarrow> length l \<le> length (log_of C' v)))"
    if "v \<in> set (urls C')" for v
  proof (cases "v = u")
    case True
    with me ou(2) le show ?thesis by (simp add: N)
  next
    case False
    with that old[of v] other[of v] sub show ?thesis by (simp add: N) blast
  qed
  then show ?thesis unfolding held_ok_def by blast
qed

lemma copies_replicates:
  assumes "role n = LEADER \<Longrightarrow> log_entries (db n) \<noteq> [] \<and> last_term (log_entries (db n)) = currentTerm n"
    and "role n = LEADER" "fresh_call n (AppendCall r) \<or> fresh_call n (ReadCall r)"
  shows "dud r \<or> replicates (log_entries (db n)) r"
  using assms by (auto simp: fresh_call_def replicates_def)

lemma calls_kept:
  assumes I: "cluster_inv C" "cluster_inv C'" and L: "line_inv C" and Q: "quiet C" and S: "qstep C C' u n"
  shows "calls_ok C'"
proof -
  have u: "u \<in> set (urls C)" and N: "urls C' = urls C" "nodes C' = (nodes C)(u := n)"
    and cl: "calls C' = calls C \<union> {(u, p, c) |p c. (p, c) \<in> set (outbox n)}"
    using S by (simp_all add: qstep_def)
  have ch: "change C u n" using S by (simp add: qstep_def)
  then have le: "currentTerm (nodes C u) \<le> currentTerm n" by cases (simp_all add: node_frame)
  have sub: "leader_logs C \<subseteq> leader_logs C'" using S by (auto simp: qstep_def)
  have K: "calls_ok C" and lu: "role (nodes C u) = LEADER \<Longrightarrow> log_of C u \<noteq> [] \<and> last_term (log_of C u) = currentTerm (nodes C u)"
    and hu: "log_of C u = [] \<or> log_of C u \<in> leader_logs C"
    using L u by (simp_all add: line_inv_def held_ok_def)
  have hn: "role n = LEADER \<Longrightarrow> log_entries (db n) \<noteq> [] \<and> last_term (log_entries (db n)) = currentTerm n"
      "log_entries (db n) = [] \<or> log_entries (db n) \<in> leader_logs C'"
  proof -
    have "u \<in> set (urls C')" using u by (simp add: N)
    with held_kept[OF assms] have "log_of C' u = [] \<or> log_of C' u \<in> leader_logs C'"
      "role (nodes C' u) = LEADER \<Longrightarrow> log_of C' u \<noteq> [] \<and> last_term (log_of C' u) = currentTerm (nodes C' u)"
      by (simp_all add: held_ok_def)
    then show "role n = LEADER \<Longrightarrow> log_entries (db n) \<noteq> [] \<and> last_term (log_entries (db n)) = currentTerm n"
      "log_entries (db n) = [] \<or> log_entries (db n) \<in> leader_logs C'" by (simp_all add: N)
  qed
  define standing where "standing = (\<lambda>c. n = startElection (nodes C u) \<and> c = VoteCall \<lparr>rv_term = currentTerm n,
      rv_candidateId = replicaId n, rv_lastLogIndex = int (length (log_of C u)) - 1, rv_lastLogTerm = last_term (log_of C u)\<rparr>)"
  have new: "(u, p, c) \<in> calls C \<or> role (nodes C u) = LEADER \<and> fresh_call (nodes C u) c \<or> role n = LEADER \<and> fresh_call n c
      \<or> standing c" if "(p, c) \<in> set (outbox n)" for p c
    by (cases rule: change_cases[OF assms, case_names same adopted grown])
      (use that in \<open>auto simp: standing_def\<close>)
  have "dud r \<or> (\<exists>l \<in> leader_logs C'. replicates l r)" if "append_call C' w p r" for w p r
  proof (cases "append_call C w p r")
    case True
    with K sub show ?thesis unfolding calls_ok_def by blast
  next
    case False
    with that have "w = u \<and> ((p, AppendCall r) \<in> set (outbox n) \<or> (p, ReadCall r) \<in> set (outbox n))"
      by (auto simp: append_call_def cl)
    with False new[of p "AppendCall r"] new[of p "ReadCall r"]
    have "role (nodes C u) = LEADER \<and> (fresh_call (nodes C u) (AppendCall r) \<or> fresh_call (nodes C u) (ReadCall r)) \<or>
        role n = LEADER \<and> (fresh_call n (AppendCall r) \<or> fresh_call n (ReadCall r))"
      by (auto simp: append_call_def standing_def)
    then show ?thesis
      using copies_replicates[OF lu, of r] copies_replicates[OF hn(1), of r] hu hn(2) sub lu hn(1) by blast
  qed
  moreover have "(w, p, SnapshotCall r) \<notin> calls C'" for w p r
    using K new[of p "SnapshotCall r"] by (auto simp: cl calls_ok_def fresh_call_def standing_def)
  moreover have "rv_term r \<le> currentTerm (nodes C' w) \<and>
        (\<exists>l. (l = [] \<or> l \<in> leader_logs C') \<and> describes l r \<and>
          (role (nodes C' w) = CANDIDATE \<and> currentTerm (nodes C' w) = rv_term r \<longrightarrow> log_of C' w = l))"
    if "(w, p, VoteCall r) \<in> calls C'" for w p r
  proof (cases "(w, p, VoteCall r) \<in> calls C")
    case True
    with K obtain l where l: "rv_term r \<le> currentTerm (nodes C w)" "l = [] \<or> l \<in> leader_logs C" "describes l r"
        "role (nodes C w) = CANDIDATE \<and> currentTerm (nodes C w) = rv_term r \<longrightarrow> log_of C w = l"
      unfolding calls_ok_def by blast
    have "role n = CANDIDATE \<and> currentTerm n = rv_term r \<longrightarrow> log_entries (db n) = l" if "w = u"
      using ch
    proof cases
      case stays
      with l that show ?thesis by auto
    next
      case stands
      with l that show ?thesis by (auto simp: node_frame)
    qed (use that in \<open>simp_all add: node_frame\<close>)
    with l sub le show ?thesis by (auto simp: N intro!: exI[of _ l])
  next
    case False
    with that have w: "w = u" "(p, VoteCall r) \<in> set (outbox n)" by (auto simp: cl)
    with False new[of p "VoteCall r"] have s: "n = startElection (nodes C u)" "rv_term r = currentTerm n" "describes (log_of C u) r"
      by (auto simp: fresh_call_def standing_def describes_def)
    then have "log_entries (db n) = log_of C u" by (simp add: node_frame db_simps)
    with s w hu sub show ?thesis by (auto simp: N intro!: exI[of _ "log_of C u"])
  qed
  ultimately show ?thesis unfolding calls_ok_def by blast
qed

lemma line_inv_step:
  assumes "cluster_inv C" "line_inv C" "step C C'" "quiet C'"
  shows "line_inv C'"
proof -
  have I: "cluster_inv C'" by (rule step_inv[OF assms(1,3)])
  have Q: "quiet C" by (rule snapshots_back[OF assms(3,4,1)])
  obtain u n where S: "qstep C C' u n" by (rule step_changes[OF assms])
  show ?thesis
    using lines_kept[OF assms(1) I assms(2) Q S] held_kept[OF assms(1) I assms(2) Q S]
      calls_kept[OF assms(1) I assms(2) Q S] by (simp add: line_inv_def)
qed

lemma initial_line_inv:
  assumes "initial C"
  shows "line_inv C"
proof -
  have "log_of C u = [] \<and> currentTerm (nodes C u) = 0 \<and> role (nodes C u) = FOLLOWER \<and> next_of (nodes C u) p = 0"
    if "u \<in> set (urls C)" for u p
  proof -
    have "started_fresh (nodes C u)" using assms that by (simp add: initial_def list_all_iff)
    then obtain rid ps cfg mx t x where n: "nodes C u = start (new_node rid ps cfg fresh_db (new_state_machine mx) t x)"
      unfolding started_fresh_def by blast
    have "next_of (nodes C u) p = 0"
      by (simp add: n start_def Let_def node_frame new_node_def next_of_def split: option.split)
    with n show ?thesis by (simp add: start_fresh) (simp add: fresh_db_def)
  qed
  moreover have "leader_logs C = {}" "calls C = {}" using assms by (simp_all add: initial_def)
  ultimately show ?thesis
    by (simp add: line_inv_def lines_ok_def held_ok_def calls_ok_def append_call_def last_term_def)
qed

lemma reachable_line_inv: "reachable C \<Longrightarrow> quiet C \<Longrightarrow> line_inv C"
proof (induction rule: reachable_if.induct)
  case (reach_step C C')
  then show ?case using line_inv_step[OF reachable_inv] snapshots_back[OF _ _ reachable_inv] by blast
qed (rule initial_line_inv)

subsection \<open>Properties\<close>

text \<open>A run of the demonstration cluster holds under any condition on answers, as it has none.\<close>

lemma demo_quiet: "quiet cluster4"
proof -
  have "list_all (\<lambda>u. snapshots (db (nodes cluster4 u)) = []) (urls cluster4)" by code_simp
  then show ?thesis by (simp add: quiet_def list_all_iff)
qed

text \<open>
  C4: log matching. As long as no node has taken a snapshot, every log is without gaps from index 0
  to its last index, and two logs that hold an entry of the same index and term agree on every
  entry up to it, payloads included. This needs nothing of the network or of the answers.
\<close>

theorem log_matching:
  assumes "reachable C" "quiet C" "u \<in> set (urls C)" "v \<in> set (urls C)"
  shows "(getEntry (db (nodes C u)) j \<noteq> None \<longleftrightarrow> 0 \<le> j \<and> j \<le> lastIndex (db (nodes C u)))
       \<and> (getEntry (db (nodes C u)) i = Some e \<and> getEntry (db (nodes C v)) i = Some e' \<and> e_term e = e_term e'
            \<and> j \<le> i \<longrightarrow> getEntry (db (nodes C u)) j = getEntry (db (nodes C v)) j)"
proof -
  have L: "line_inv C" by (rule reachable_line_inv[OF assms(1,2)])
  note pl = held_plain[OF reachable_inv[OF assms(1)] L assms(2)]
  note fu = plain_facts[OF pl[OF assms(3)]] and fv = plain_facts[OF pl[OF assms(4)]]
  have h: "log_of C w = [] \<or> log_of C w \<in> leader_logs C" if "w \<in> set (urls C)" for w
    using that L by (simp add: line_inv_def held_ok_def)
  have "getEntry (db (nodes C u)) j = getEntry (db (nodes C v)) j"
    if e: "getEntry (db (nodes C u)) i = Some e" "getEntry (db (nodes C v)) i = Some e'" "e_term e = e_term e'" "j \<le> i"
  proof -
    from e have i: "0 \<le> i" "nat i < length (log_of C u)" "nat i < length (log_of C v)"
      "e = log_of C u ! nat i" "e' = log_of C v ! nat i"
      by (auto simp: fu(7) fv(7) split: if_splits)
    have "take (Suc (nat i)) (log_of C u) = take (Suc (nat i)) (log_of C v)"
      using lines_match[OF _ h[OF assms(3)] h[OF assms(4)] i(2,3)] L e(3) i(4,5) by (simp add: line_inv_def)
    then have "log_of C u ! nat j = log_of C v ! nat j" if "0 \<le> j"
      using that e(4) by (metis nth_take nat_mono le_imp_less_Suc)
    with i e(4) show ?thesis by (auto simp: fu(7) fv(7))
  qed
  then show ?thesis by (auto simp: fu(4) fu(7))
qed

theorem log_matching_witness:
  "(getEntry (db (nodes cluster4 ''a'')) 1 \<noteq> None) = (0 \<le> (1 :: int) \<and> 1 \<le> lastIndex (db (nodes cluster4 ''a'')))
   \<and> lastIndex (db (nodes cluster4 ''a'')) = 1"
proof -
  have "''a'' \<in> set (urls cluster4)" by (simp add: demo_cluster_facts(1))
  moreover have "lastIndex (db (nodes cluster4 ''a'')) = 1" by code_simp
  ultimately show ?thesis using log_matching[OF demo_reachable(4) demo_quiet, of "''a''" "''a''" 1] by blast
qed

end
