(* ===== verification/Leader_Completeness.thy ===== *)
theory Leader_Completeness imports Log_Matching begin

text \<open>
  Leader completeness: a log that more than half of the nodes have acknowledged in its term is part of
  the log of every later leader. As in \<open>Log_Matching\<close> the runs are those in which no node has
  taken a snapshot; nothing is asked of the network or of the answers.
\<close>

subsection \<open>Acknowledged, chosen and blocked logs\<close>

text \<open>
  A node has acknowledged a log \<open>l\<close> in the term of its last entry when it led that term or answered a
  call of that term that reaches as far with success; \<open>l\<close> is chosen when more than half of the nodes
  have. It is blocked when more than half have not and are past its term: then it is never chosen.
\<close>

definition reach :: "append_entries \<Rightarrow> int" where
  "reach r = ae_prevLogIndex r + 1 + int (length (ae_entries r))"

definition acked :: "cluster \<Rightarrow> string \<Rightarrow> entry list \<Rightarrow> bool" where
  "acked C v l \<longleftrightarrow> (v, last_term l) \<in> leaders C \<or>
     (\<exists>u r b. (v, u, r, b) \<in> append_answers C \<and> ar_success b \<and> ae_term r = last_term l \<and>
        int (length l) \<le> reach r)"

definition chosen :: "cluster \<Rightarrow> entry list \<Rightarrow> bool" where
  "chosen C l \<longleftrightarrow> l \<in> leader_logs C \<and> (\<exists>Q. quorum C Q \<and> (\<forall>v \<in> Q. acked C v l))"

definition blocked :: "cluster \<Rightarrow> entry list \<Rightarrow> bool" where
  "blocked C l \<longleftrightarrow> (\<exists>Q. quorum C Q \<and> (\<forall>v \<in> Q. last_term l < currentTerm (nodes C v) \<and> \<not> acked C v l))"

definition covered :: "cluster \<Rightarrow> entry list \<Rightarrow> entry list \<Rightarrow> bool" where
  "covered C l m \<longleftrightarrow> prefix l m \<or> blocked C l"

lemma reach_replicates: "replicates l r \<Longrightarrow> reach r = int (length l)"
  by (auto simp: replicates_def copies_def reach_def)

lemma chosen_not_blocked: "chosen C l \<Longrightarrow> \<not> blocked C l"
proof
  assume "chosen C l" "blocked C l"
  then obtain Q R where "quorum C Q" "\<forall>v \<in> Q. acked C v l" "quorum C R" "\<forall>v \<in> R. \<not> acked C v l"
    by (auto simp: chosen_def blocked_def)
  with ballots.majorities_meet[of "set (urls C)" Q R] show False by (auto simp: quorum_def)
qed

text \<open>
  The invariant. A log is covered by every log of a later term, by the logs of the nodes that
  acknowledged it, and by the logs for which those nodes have voted in later terms.
\<close>

definition later_ok :: "cluster \<Rightarrow> bool" where
  "later_ok C \<longleftrightarrow> (\<forall>l \<in> leader_logs C. \<forall>l' \<in> leader_logs C. last_term l < last_term l' \<longrightarrow> covered C l l')"

definition holders_ok :: "cluster \<Rightarrow> bool" where
  "holders_ok C \<longleftrightarrow> (\<forall>v \<in> set (urls C). \<forall>l \<in> leader_logs C. acked C v l \<longrightarrow> covered C l (log_of C v))"

definition voters_ok :: "cluster \<Rightarrow> bool" where
  "voters_ok C \<longleftrightarrow> (\<forall>v u r b. (v, u, r, b) \<in> vote_answers C \<and> vr_granted b \<longrightarrow>
     v \<in> set (urls C) \<and> (u, v, VoteCall r) \<in> calls C \<and> rv_term r \<le> currentTerm (nodes C v) \<and>
     (\<forall>l \<in> leader_logs C. last_term l < rv_term r \<and> acked C v l \<longrightarrow>
        (\<forall>m. (m = [] \<or> m \<in> leader_logs C) \<and> describes m r \<longrightarrow> covered C l m)))"

definition acks_ok :: "cluster \<Rightarrow> bool" where
  "acks_ok C \<longleftrightarrow> (\<forall>v u r b. (v, u, r, b) \<in> append_answers C \<and> ar_success b \<longrightarrow>
     v \<in> set (urls C) \<and> append_call C u v r \<and> ae_term r \<le> currentTerm (nodes C v) \<and>
     (\<exists>l \<in> leader_logs C. replicates l r))"

definition safety_inv :: "cluster \<Rightarrow> bool" where
  "safety_inv C \<longleftrightarrow> later_ok C \<and> holders_ok C \<and> voters_ok C \<and> acks_ok C"

text \<open>The setting of a step, shared by the lemmas on how it keeps the invariant.\<close>

definition safe_step :: "cluster \<Rightarrow> cluster \<Rightarrow> string \<Rightarrow> node \<Rightarrow> bool" where
  "safe_step C C' u n \<longleftrightarrow> cluster_inv C \<and> cluster_inv C' \<and> line_inv C \<and> line_inv C' \<and> quiet C \<and>
     qstep C C' u n \<and> safety_inv C"

lemma safe_frame:
  assumes "safe_step C C' u n"
  shows "u \<in> set (urls C)" "urls C' = urls C" "nodes C' = (nodes C)(u := n)"
    "calls C \<subseteq> calls C'" "leaders C \<subseteq> leaders C'" "leader_logs C \<subseteq> leader_logs C'"
    "vote_answers C \<subseteq> vote_answers C'" "append_answers C \<subseteq> append_answers C'"
    "currentTerm (nodes C v) \<le> currentTerm (nodes C' v)"
    "quorum C' Q = quorum C Q"
proof -
  have ch: "change C u n" using assms by (simp add: safe_step_def qstep_def)
  then have le: "currentTerm (nodes C u) \<le> currentTerm n" by cases (simp_all add: node_frame)
  show N: "u \<in> set (urls C)" "urls C' = urls C" "nodes C' = (nodes C)(u := n)"
    "calls C \<subseteq> calls C'" "leaders C \<subseteq> leaders C'" "leader_logs C \<subseteq> leader_logs C'"
    "vote_answers C \<subseteq> vote_answers C'" "append_answers C \<subseteq> append_answers C'"
    using assms by (auto simp: safe_step_def qstep_def vote_recorded_def append_recorded_def)
  show "currentTerm (nodes C v) \<le> currentTerm (nodes C' v)" using le by (simp add: N(3))
  show "quorum C' Q = quorum C Q" by (simp add: quorum_def N(2))
qed

lemma acked_mono: "safe_step C C' u n \<Longrightarrow> acked C v l \<Longrightarrow> acked C' v l"
  using safe_frame(5,8)[of C C' u n] unfolding acked_def by blast

lemma line_prefix:
  "lines_ok C \<Longrightarrow> l \<in> leader_logs C \<Longrightarrow> m \<in> leader_logs C \<Longrightarrow> last_term l = last_term m \<Longrightarrow>
   length l \<le> length m \<Longrightarrow> prefix l m"
  unfolding lines_ok_def by blast

lemma acked_term:
  assumes "cluster_inv C" "acks_ok C" "acked C v l"
  shows "v \<in> set (urls C) \<and> last_term l \<le> currentTerm (nodes C v)"
  using assms unfolding acked_def acks_ok_def cluster_inv_def vote_inv_def leader_inv_def by metis

text \<open>An acknowledgement that is new in a step is one of the node that moved, in its term.\<close>

lemma acked_new:
  assumes S: "safe_step C C' u n" and "acked C' v l" "\<not> acked C v l"
  shows "v = u \<and> currentTerm n = last_term l \<and> (l \<in> leader_logs C' \<longrightarrow> prefix l (log_entries (db n)))"
proof -
  note fr = safe_frame[OF S]
  have Q: "leaders C' = leaders C \<union> {(u, t) |t. role n = LEADER \<and> t = currentTerm n}" "append_recorded C u n C'"
    and L': "line_inv C'" using S by (auto simp: safe_step_def qstep_def)
  have u': "u \<in> set (urls C')" using fr by simp
  consider (lead) "v = u" "role n = LEADER" "currentTerm n = last_term l"
    | (ans) w r b where "(v, w, r, b) \<in> append_answers C'" "(v, w, r, b) \<notin> append_answers C" "ar_success b"
        "ae_term r = last_term l" "int (length l) \<le> reach r"
  proof -
    have nl: "(v, last_term l) \<notin> leaders C"
      "\<not> (\<exists>w r b. (v, w, r, b) \<in> append_answers C \<and> ar_success b \<and> ae_term r = last_term l \<and>
         int (length l) \<le> reach r)" using assms(3) by (simp_all add: acked_def)
    from assms(2) show thesis unfolding acked_def
    proof
      assume "(v, last_term l) \<in> leaders C'"
      with nl(1) Q(1) show thesis by (intro lead) auto
    next
      assume "\<exists>w r b. (v, w, r, b) \<in> append_answers C' \<and> ar_success b \<and> ae_term r = last_term l \<and>
         int (length l) \<le> reach r"
      with nl(2) ans show thesis by blast
    qed
  qed
  then show ?thesis
  proof cases
    case lead
    have "role (nodes C' u) = LEADER" "nodes C' u = n" using lead fr by simp_all
    then have "log_of C' u \<in> leader_logs C' \<and> last_term (log_of C' u) = currentTerm n \<and>
        (\<forall>m \<in> leader_logs C'. last_term m = currentTerm n \<longrightarrow> length m \<le> length (log_of C' u))"
      using L' u' by (auto simp: line_inv_def held_ok_def)
    then have "prefix l (log_entries (db n))" if "l \<in> leader_logs C'"
      using that line_prefix[of C' l "log_of C' u"] L' lead(3) \<open>nodes C' u = n\<close> by (simp add: line_inv_def)
    with lead show ?thesis by simp
  next
    case ans
    then obtain m where m: "v = u" "currentTerm n = ae_term r" "m \<in> leader_logs C" "replicates m r"
        "prefix m (log_entries (db n))"
      using Q(2) unfolding append_recorded_def by blast
    have "prefix l m" if "l \<in> leader_logs C'"
      using that line_prefix[of C' l m] L' fr(6) m(3,4) ans(4,5) reach_replicates[OF m(4)]
      by (auto simp: line_inv_def replicates_def)
    with m ans(4) show ?thesis by (auto intro: prefix_order.trans)
  qed
qed

lemma blocked_mono:
  assumes S: "safe_step C C' u n" and "blocked C l"
  shows "blocked C' l"
proof -
  obtain Q where Q: "quorum C Q" "\<forall>v \<in> Q. last_term l < currentTerm (nodes C v) \<and> \<not> acked C v l"
    using assms(2) by (auto simp: blocked_def)
  note fr = safe_frame[OF S]
  have "last_term l < currentTerm (nodes C' v) \<and> \<not> acked C' v l" if "v \<in> Q" for v
  proof
    show lt: "last_term l < currentTerm (nodes C' v)" using Q(2) that fr(9)[of v] by fastforce
    show "\<not> acked C' v l"
    proof
      assume "acked C' v l"
      with Q(2) that acked_new[OF S this] have "v = u" "currentTerm n = last_term l" by auto
      with lt fr(3) show False by simp
    qed
  qed
  with Q(1) fr(10) show ?thesis unfolding blocked_def by blast
qed

lemma covered_mono: "safe_step C C' u n \<Longrightarrow> covered C l m \<Longrightarrow> covered C' l m"
  using blocked_mono unfolding covered_def by blast

lemma covered_trans: "covered C l m \<Longrightarrow> prefix m m' \<Longrightarrow> covered C l m'"
  unfolding covered_def by (auto intro: prefix_order.trans)

subsection \<open>The invariant is kept\<close>

lemma acks_kept:
  assumes S: "safe_step C C' u n"
  shows "acks_ok C'"
proof -
  note fr = safe_frame[OF S]
  have A: "acks_ok C" and R: "append_recorded C u n C'"
    using S by (simp_all add: safe_step_def safety_inv_def qstep_def)
  have "v \<in> set (urls C') \<and> append_call C' w v r \<and> ae_term r \<le> currentTerm (nodes C' v) \<and>
      (\<exists>l \<in> leader_logs C'. replicates l r)"
    if "(v, w, r, b) \<in> append_answers C'" "ar_success b" for v w r b
  proof (cases "(v, w, r, b) \<in> append_answers C")
    case True
    with A that(2) have "v \<in> set (urls C)" "append_call C w v r" "ae_term r \<le> currentTerm (nodes C v)"
      "\<exists>l \<in> leader_logs C. replicates l r" unfolding acks_ok_def by blast+
    moreover have "ae_term r \<le> currentTerm (nodes C' v)" using calculation(3) fr(9)[of v] by linarith
    ultimately show ?thesis using fr(2,4,6) by (auto simp: append_call_def)
  next
    case False
    with R that have "v = u" "append_call C w u r" "currentTerm n = ae_term r" "\<exists>l \<in> leader_logs C. replicates l r"
      unfolding append_recorded_def by blast+
    with fr show ?thesis by (auto simp: append_call_def)
  qed
  then show ?thesis unfolding acks_ok_def by blast
qed

text \<open>A log that a step adds is acknowledged by its leader alone.\<close>

lemma grown_acked:
  assumes S: "safe_step C C' u n" and g: "role n = LEADER" "last_term l = currentTerm n"
    "\<forall>m \<in> leader_logs C. last_term m = currentTerm n \<longrightarrow> length m < length l" and a: "acked C' v l"
  shows "v = u"
proof (rule ccontr)
  assume "v \<noteq> u"
  with acked_new[OF S a] have "acked C v l" by blast
  then show False unfolding acked_def
  proof
    assume "(v, last_term l) \<in> leaders C"
    moreover have "(u, last_term l) \<in> leaders C'" using S g by (auto simp: safe_step_def qstep_def)
    moreover have "vote_inv C'" using S by (simp add: safe_step_def cluster_inv_def)
    ultimately have "v = u" using one_leader safe_frame(5)[OF S] by blast
    with \<open>v \<noteq> u\<close> show False ..
  next
    assume "\<exists>w r b. (v, w, r, b) \<in> append_answers C \<and> ar_success b \<and> ae_term r = last_term l \<and> int (length l) \<le> reach r"
    then obtain r m where "ae_term r = last_term l" "int (length l) \<le> reach r" "m \<in> leader_logs C" "replicates m r"
      using S unfolding safe_step_def safety_inv_def acks_ok_def by blast
    with g(2,3) show False using reach_replicates[of m r] by (auto simp: replicates_def)
  qed
qed

text \<open>What \<open>change_cases\<close> says in the setting of a step, with the added log \<open>l0\<close> spelled out.\<close>

lemma safe_cases:
  assumes S: "safe_step C C' u n"
  obtains (same) "log_entries (db n) = log_of C u" "leader_logs C' = leader_logs C"
  | (adopted) l where "l \<in> leader_logs C" "last_term l = currentTerm n"
      "leader_logs C' = leader_logs C" "\<not> prefix l (log_of C u)"
      "\<forall>x. prefix x l \<and> prefix x (log_of C u) \<longrightarrow> prefix x (log_entries (db n))"
  | (grown) l0 where "log_entries (db n) = l0" "prefix (log_of C u) l0" "last_term l0 = currentTerm n"
      "leader_logs C' = insert l0 (leader_logs C)" "currentTerm n = currentTerm (nodes C u)"
      "\<forall>l \<in> leader_logs C. last_term l = currentTerm n \<longrightarrow> prefix l (log_of C u) \<and> length l < length l0"
      "\<And>v. acked C' v l0 \<Longrightarrow> v = u" "log_of C u \<noteq> l0"
      "role (nodes C u) = LEADER \<or> role (nodes C u) = CANDIDATE \<and>
         (\<exists>Q. quorum C Q \<and> (\<forall>v \<in> Q. v = u \<or> (\<exists>r b. (v, u, r, b) \<in> vote_answers C \<and> vr_granted b \<and>
            rv_term r = currentTerm (nodes C u) \<and> (u, v, VoteCall r) \<in> calls C)))"
proof -
  have I: "cluster_inv C" "cluster_inv C'" "line_inv C" "quiet C" "qstep C C' u n"
    using S by (simp_all add: safe_step_def)
  show thesis
  proof (cases rule: change_cases[OF I, case_names same adopted grown])
    case same
    then show thesis by (intro that(1))
  next
    case adopted
    then show thesis by (intro that(2))
  next
    case (grown e)
    let ?l = "log_of C u @ [e]"
    have t: "last_term ?l = currentTerm n" using grown(2) by (simp add: last_term_def)
    have cmp: "\<forall>l \<in> leader_logs C. last_term l = currentTerm n \<longrightarrow> prefix l (log_of C u) \<and> length l < length ?l"
      using grown(8) prefix_length_le by fastforce
    have a: "v = u" if "acked C' v ?l" for v
      by (rule grown_acked[OF S grown(5) t _ that]) (use cmp in blast)
    show thesis
      by (rule that(3)[OF grown(1) _ t grown(4,6) cmp a]) (use grown(11) in \<open>auto\<close>)
  qed
qed

lemma holders_kept:
  assumes S: "safe_step C C' u n"
  shows "holders_ok C'"
  unfolding holders_ok_def
proof (intro ballI impI)
  fix v l assume v: "v \<in> set (urls C')" and l: "l \<in> leader_logs C'" and a: "acked C' v l"
  note fr = safe_frame[OF S]
  have Lo: "lines_ok C" and inv: "later_ok C" "holders_ok C" "acks_ok C" "cluster_inv C"
    using S by (simp_all add: safe_step_def line_inv_def safety_inv_def)
  show "covered C' l (log_of C' v)"
  proof (cases "acked C v l \<and> l \<in> leader_logs C")
    case False
    show ?thesis
    proof (cases "acked C v l")
      case False
      with acked_new[OF S a] l fr(3) show ?thesis by (auto simp: covered_def)
    next
      case True
      with False have new: "l \<notin> leader_logs C" by simp
      show ?thesis
      proof (cases rule: safe_cases[OF S, case_names same adopted grown])
        case (grown l0)
        with new l have "l = l0" by simp
        with grown(1) grown(7)[of v] a fr(3) show ?thesis by (simp add: covered_def)
      qed (use new l in simp_all)
    qed
  next
    case True
    then have c: "covered C l (log_of C v)" using inv(2) v fr(2) unfolding holders_ok_def by simp
    have "covered C l (log_of C' v)"
    proof (cases "v = u")
      case False
      with c fr(3) show ?thesis by simp
    next
      case u: True
      show ?thesis
      proof (cases rule: safe_cases[OF S, case_names same adopted grown])
        case same
        with c u fr(3) show ?thesis by simp
      next
        case (grown l0)
        with c u fr(3) covered_trans show ?thesis by simp
      next
        case (adopted m)
        have "last_term l \<le> currentTerm (nodes C u)" using acked_term[OF inv(4,3)] True u by blast
        then have "last_term l \<le> last_term m" using adopted(2) fr(9)[of u] fr(3) by simp
        moreover have "covered C l m" if "last_term l < last_term m"
          using that inv(1) True adopted(1) unfolding later_ok_def by blast
        moreover have "covered C l m" if "last_term l = last_term m"
        proof (cases "length l \<le> length m")
          case len: True
          with line_prefix[OF Lo] True adopted(1) that show ?thesis by (simp add: covered_def)
        next
          case False
          with line_prefix[OF Lo adopted(1), of l] True that have "prefix m l" by simp
          with c u adopted(4) show ?thesis by (auto simp: covered_def intro: prefix_order.trans)
        qed
        ultimately have "covered C l m" by fastforce
        with c u adopted(5) fr(3) show ?thesis by (auto simp: covered_def)
      qed
    qed
    then show ?thesis by (rule covered_mono[OF S])
  qed
qed

text \<open>The voters of a leader are past every earlier term.\<close>

lemma voters_past:
  assumes "cluster_inv C" "(w, t) \<in> leaders C"
  obtains Q where "quorum C Q" "\<forall>v \<in> Q. t \<le> currentTerm (nodes C v)"
proof -
  obtain Q c where "quorum C Q" "\<forall>v \<in> Q. (v, t, c) \<in> ballots C"
    using assms unfolding cluster_inv_def vote_inv_def leader_inv_def quorum_def by blast
  moreover have "t \<le> currentTerm (nodes C v)" if "(v, t, c) \<in> ballots C" for v c
    using that assms(1) unfolding cluster_inv_def vote_inv_def ballot_inv_def by blast
  ultimately show thesis by (intro that) blast+
qed

lemma candidate_log:
  assumes "calls_ok C" "(u, v, VoteCall r) \<in> calls C" "role (nodes C u) = CANDIDATE"
    "rv_term r = currentTerm (nodes C u)"
  shows "describes (log_of C u) r"
  using assms unfolding calls_ok_def by metis

lemma later_kept:
  assumes S: "safe_step C C' u n"
  shows "later_ok C'"
  unfolding later_ok_def
proof (intro ballI impI)
  fix l l' assume l: "l \<in> leader_logs C'" "l' \<in> leader_logs C'" "last_term l < last_term l'"
  note fr = safe_frame[OF S]
  have inv: "later_ok C" "holders_ok C" "voters_ok C" "cluster_inv C" "lines_ok C" "held_ok C" "calls_ok C"
    using S by (simp_all add: safe_step_def line_inv_def safety_inv_def)
  show "covered C' l l'"
  proof (cases "l \<in> leader_logs C \<and> l' \<in> leader_logs C")
    case True
    with inv(1) l(3) covered_mono[OF S] show ?thesis unfolding later_ok_def by blast
  next
    case False
    show ?thesis
    proof (cases rule: safe_cases[OF S, case_names same adopted grown])
      case (grown l0)
      have hu: "log_of C u = [] \<or> log_of C u \<in> leader_logs C" using inv(6) fr(1) by (simp add: held_ok_def)
      show ?thesis
      proof (cases "l' = l0")
        case True
        with l grown(4) have ol: "l \<in> leader_logs C" "last_term l < currentTerm (nodes C u)" using grown(3,5) by auto
        have "covered C l (log_of C u) \<or> blocked C' l"
          using grown(9)
        proof
          assume ld: "role (nodes C u) = LEADER"
          then have "log_of C u \<in> leader_logs C" "last_term (log_of C u) = currentTerm (nodes C u)"
            using inv(6) fr(1) hu by (auto simp: held_ok_def)
          with ol inv(1) show ?thesis unfolding later_ok_def by metis
        next
          assume "role (nodes C u) = CANDIDATE \<and> (\<exists>Q. quorum C Q \<and> (\<forall>v \<in> Q. v = u \<or>
             (\<exists>r b. (v, u, r, b) \<in> vote_answers C \<and> vr_granted b \<and>
            rv_term r = currentTerm (nodes C u) \<and> (u, v, VoteCall r) \<in> calls C)))"
          then obtain Q where Q: "quorum C Q" and cand: "role (nodes C u) = CANDIDATE"
            and vote: "\<And>v. v \<in> Q \<Longrightarrow> v = u \<or> (\<exists>r b. (v, u, r, b) \<in> vote_answers C \<and> vr_granted b \<and>
            rv_term r = currentTerm (nodes C u) \<and> (u, v, VoteCall r) \<in> calls C)" by blast
          show ?thesis
          proof (cases "\<exists>v \<in> Q. acked C v l")
            case True
            then obtain v where v: "v \<in> Q" "acked C v l" by blast
            show ?thesis
            proof (cases "v = u")
              case True
              with v(2) ol(1) inv(2) fr(1) show ?thesis unfolding holders_ok_def by blast
            next
              case False
              with vote[OF v(1)] obtain r b where r: "(v, u, r, b) \<in> vote_answers C" "vr_granted b"
                "rv_term r = currentTerm (nodes C u)" "(u, v, VoteCall r) \<in> calls C" by blast
              have "describes (log_of C u) r" by (rule candidate_log[OF inv(7) r(4) cand r(3)])
              with inv(3) r v(2) ol hu show ?thesis unfolding voters_ok_def by metis
            qed
          next
            case none: False
            have "last_term l < currentTerm (nodes C' v) \<and> \<not> acked C' v l" if v: "v \<in> Q" for v
            proof
              have "currentTerm (nodes C u) \<le> currentTerm (nodes C v)"
                using vote[OF v] inv(3) unfolding voters_ok_def by fastforce
              with ol(2) fr(9)[of v] show lt: "last_term l < currentTerm (nodes C' v)" by linarith
              show "\<not> acked C' v l"
              proof
                assume "acked C' v l"
                with none v acked_new[OF S this] have "currentTerm n = last_term l" by blast
                with ol(2) grown(5) show False by simp
              qed
            qed
            with Q fr(10) show ?thesis unfolding blocked_def by blast
          qed
        qed
        then show ?thesis
        proof
          assume "covered C l (log_of C u)"
          then have "covered C l l'" using grown(2) True by (auto intro: covered_trans)
          then show ?thesis by (rule covered_mono[OF S])
        qed (simp add: covered_def)
      next
        case old: False
        with l grown(4) False have "l = l0" "l' \<in> leader_logs C" by auto
        then obtain w where w: "(w, last_term l') \<in> leaders C" using inv(5) unfolding lines_ok_def by blast
        obtain Q where Q: "quorum C Q" "\<forall>v \<in> Q. last_term l' \<le> currentTerm (nodes C v)"
          by (rule voters_past[OF inv(4) w])
        have "last_term l < currentTerm (nodes C' v) \<and> \<not> acked C' v l" if v: "v \<in> Q" for v
        proof
          show "last_term l < currentTerm (nodes C' v)"
            using Q(2) v l(3) fr(9)[of v] by fastforce
          show "\<not> acked C' v l"
          proof
            assume "acked C' v l"
            with grown(7) \<open>l = l0\<close> have "v = u" by blast
            with Q(2) v l(3) grown(3,5) \<open>l = l0\<close> show False by fastforce
          qed
        qed
        with Q(1) fr(10) show ?thesis unfolding covered_def blocked_def by blast
      qed
    qed (use False l in simp_all)
  qed
qed

lemma describes_unique:
  assumes "lines_ok C" "l = [] \<or> l \<in> leader_logs C" "m = [] \<or> m \<in> leader_logs C" "describes l r" "describes m r"
  shows "l = m"
proof -
  have "int (length l) - 1 = int (length m) - 1"
    using assms(4) assms(5) unfolding describes_def by metis
  then have len: "length l = length m" by simp
  have tm: "last_term l = last_term m" using assms(4,5) unfolding describes_def by metis
  show ?thesis
  proof (cases "l = []")
    case True
    with len show ?thesis by simp
  next
    case False
    from False len have "m \<noteq> []" by auto
    with False assms(2,3) have in_: "l \<in> leader_logs C" "m \<in> leader_logs C" by blast+
    have "prefix l m" by (rule line_prefix[OF assms(1) in_ tm]) (simp add: len)
    moreover have "prefix m l" by (rule line_prefix[OF assms(1) in_(2,1) tm[symmetric]]) (simp add: len)
    ultimately show ?thesis by (rule prefix_order.antisym)
  qed
qed

lemma voters_kept:
  assumes S: "safe_step C C' u n"
  shows "voters_ok C'"
proof -
  note fr = safe_frame[OF S]
  have inv: "later_ok C" "holders_ok C" "voters_ok C" "cluster_inv C" "lines_ok C" "held_ok C" "calls_ok C" "acks_ok C"
    and lo': "lines_ok C'"
    and V: "vote_recorded C u n C'"
    using S by (simp_all add: safe_step_def line_inv_def safety_inv_def qstep_def)
  text \<open>A log that is acknowledged by a node past its term was there and acknowledged before.\<close>
  have before: "l \<in> leader_logs C \<and> acked C v l"
    if "l \<in> leader_logs C'" "acked C' v l" "last_term l < t" "t \<le> currentTerm (nodes C v) \<or> v = u \<and> t \<le> currentTerm n" for l v t
  proof -
    have a: "acked C v l"
      using acked_new[OF S that(2)] that(3,4) fr(9)[of u] fr(3) by (cases "acked C v l") auto
    have "l \<in> leader_logs C"
    proof (rule ccontr)
      assume new: "l \<notin> leader_logs C"
      show False
      proof (cases rule: safe_cases[OF S, case_names same adopted grown])
        case (grown l0)
        with new that(1) have l: "l = l0" by simp
        with grown(7) that(2) have "v = u" by blast
        with l grown(3,5) that(3,4) show False by auto
      qed (use new that(1) in simp_all)
    qed
    with a show ?thesis by simp
  qed
  have "v \<in> set (urls C') \<and> (w, v, VoteCall r) \<in> calls C' \<and> rv_term r \<le> currentTerm (nodes C' v) \<and>
     (\<forall>l \<in> leader_logs C'. last_term l < rv_term r \<and> acked C' v l \<longrightarrow>
        (\<forall>m. (m = [] \<or> m \<in> leader_logs C') \<and> describes m r \<longrightarrow> covered C' l m))"
    if g: "(v, w, r, b) \<in> vote_answers C'" "vr_granted b" for v w r b
  proof -
    have call: "(w, v, VoteCall r) \<in> calls C" and v: "v \<in> set (urls C)" and t: "rv_term r \<le> currentTerm (nodes C' v)"
      and t': "rv_term r \<le> currentTerm (nodes C v) \<or> v = u \<and> rv_term r \<le> currentTerm n"
    proof -
      have "(w, v, VoteCall r) \<in> calls C \<and> v \<in> set (urls C) \<and> rv_term r \<le> currentTerm (nodes C' v) \<and>
          (rv_term r \<le> currentTerm (nodes C v) \<or> v = u \<and> rv_term r \<le> currentTerm n)"
      proof (cases "(v, w, r, b) \<in> vote_answers C")
        case True
        with inv(3) g(2) fr(9)[of v] show ?thesis unfolding voters_ok_def by fastforce
      next
        case False
        with V g have "v = u" "(w, u, VoteCall r) \<in> calls C" "currentTerm n = rv_term r"
          unfolding vote_recorded_def by blast+
        with fr(1,3) show ?thesis by simp
      qed
      then show "(w, v, VoteCall r) \<in> calls C" "v \<in> set (urls C)" "rv_term r \<le> currentTerm (nodes C' v)"
        "rv_term r \<le> currentTerm (nodes C v) \<or> v = u \<and> rv_term r \<le> currentTerm n" by blast+
    qed
    obtain m0 where m0: "m0 = [] \<or> m0 \<in> leader_logs C" "describes m0 r"
      using call inv(7) unfolding calls_ok_def by blast
    have cov: "covered C' l m"
      if l: "l \<in> leader_logs C'" "last_term l < rv_term r" "acked C' v l"
        and m: "m = [] \<or> m \<in> leader_logs C'" "describes m r" for l m
    proof -
      have "m = m0" using describes_unique[OF lo' m(1) _ m(2) m0(2)] m0(1) fr(6) by blast
      moreover have lc: "l \<in> leader_logs C" "acked C v l" using before[OF l(1,3,2) t'] by simp_all
      moreover have "covered C l m0"
      proof (cases "(v, w, r, b) \<in> vote_answers C")
        case True
        with inv(3) g(2) lc l(2) m0 show ?thesis unfolding voters_ok_def by blast
      next
        case False
        with V g have n: "v = u" "up_to_date r (log_of C u)" unfolding vote_recorded_def by blast+
        have c: "covered C l (log_of C u)" using inv(2) n(1) lc fr(1) unfolding holders_ok_def by blast
        show ?thesis
        proof (cases "blocked C l")
          case False
          with c have pre: "prefix l (log_of C u)" by (simp add: covered_def)
          have ne: "l \<noteq> []" using lc(1) inv(5) by (auto simp: lines_ok_def)
          with pre have L: "log_of C u \<in> leader_logs C" using inv(6) fr(1) by (auto simp: held_ok_def)
          have le: "last_term l \<le> last_term (log_of C u)"
          proof -
            have "l = take (length l) (log_of C u)" using pre by (auto simp: prefix_def)
            then show ?thesis using L ne inv(5) unfolding lines_ok_def by (metis length_greater_0_conv)
          qed
          have pos: "0 \<le> last_term (log_of C u)" using L inv(5) by (simp add: lines_ok_def)
          have up: "last_term (log_of C u) < last_term m0 \<or>
              last_term m0 = last_term (log_of C u) \<and> length (log_of C u) \<le> length m0"
            using n(2) m0(2) by (auto simp: up_to_date_def describes_def)
          with pos have "m0 \<noteq> []" by (auto simp: last_term_def)
          with m0(1) have m0': "m0 \<in> leader_logs C" by simp
          show ?thesis
          proof (cases "last_term (log_of C u) < last_term m0")
            case True
            with le have "last_term l < last_term m0" by simp
            with inv(1) lc(1) m0' show ?thesis unfolding later_ok_def by blast
          next
            case False
            with up line_prefix[OF inv(5) L m0'] have "prefix (log_of C u) m0" by simp
            with c show ?thesis by (rule covered_trans)
          qed
        qed (simp add: covered_def)
      qed
      ultimately show ?thesis using covered_mono[OF S] by simp
    qed
    have "v \<in> set (urls C')" "(w, v, VoteCall r) \<in> calls C'" using call v fr(2,4) by auto
    with t cov show ?thesis by simp
  qed
  then show ?thesis unfolding voters_ok_def by blast
qed

lemma safety_step:
  assumes "cluster_inv C" "line_inv C" "safety_inv C" "step C C'" "quiet C'"
  obtains u n where "safe_step C C' u n" "safety_inv C'"
proof -
  obtain u n where "qstep C C' u n" by (rule step_changes[OF assms(1,2,4,5)])
  then have S: "safe_step C C' u n"
    using assms step_inv[OF assms(1,4)] line_inv_step[OF assms(1,2,4,5)] snapshots_back[OF assms(4,5,1)]
    by (simp add: safe_step_def)
  then have "safety_inv C'"
    by (simp add: safety_inv_def later_kept holders_kept voters_kept acks_kept)
  with S show thesis by (rule that)
qed

lemma reachable_safety: "reachable C \<Longrightarrow> quiet C \<Longrightarrow> safety_inv C"
proof (induction rule: reachable_if.induct)
  case (reach_init C)
  then have "leader_logs C = {}" "vote_answers C = {}" "append_answers C = {}" by (simp_all add: initial_def)
  then show ?case by (simp add: safety_inv_def later_ok_def holders_ok_def voters_ok_def acks_ok_def)
next
  case (reach_step C C')
  have q: "quiet C" by (rule snapshots_back[OF reach_step.hyps(2) reach_step.prems reachable_inv[OF reach_step.hyps(1)]])
  show ?case
    using safety_step[OF reachable_inv[OF reach_step.hyps(1)] reachable_line_inv[OF reach_step.hyps(1) q]
        reach_step.IH[OF q] reach_step.hyps(2) reach_step.prems] by blast
qed

text \<open>A chosen log is part of every log of its term or a later one that is long enough, and of every leader's.\<close>

lemma chosen_covers:
  assumes "line_inv C" "safety_inv C" "chosen C l" "m \<in> leader_logs C" "last_term l \<le> last_term m"
  shows "prefix l m \<or> last_term l = last_term m \<and> prefix m l"
proof (cases "last_term l < last_term m")
  case True
  with assms chosen_not_blocked[OF assms(3)] show ?thesis
    by (auto simp: safety_inv_def later_ok_def covered_def chosen_def)
next
  case False
  with assms(5) have "last_term l = last_term m" by simp
  moreover have "l \<in> leader_logs C" "lines_ok C" using assms(1,3) by (simp_all add: chosen_def line_inv_def)
  ultimately show ?thesis using line_prefix[of C l m] line_prefix[of C m l] assms(4) by (metis linear)
qed

lemma chosen_leader:
  assumes "line_inv C" "safety_inv C" "chosen C l" "u \<in> set (urls C)" "role (nodes C u) = LEADER"
    "last_term l \<le> currentTerm (nodes C u)"
  shows "prefix l (log_of C u)"
proof -
  have h: "log_of C u \<in> leader_logs C" "last_term (log_of C u) = currentTerm (nodes C u)"
    "\<forall>m \<in> leader_logs C. last_term m = currentTerm (nodes C u) \<longrightarrow> length m \<le> length (log_of C u)"
    using assms(1,4,5) by (auto simp: line_inv_def held_ok_def)
  have l: "l \<in> leader_logs C" "lines_ok C" using assms(1,3) by (simp_all add: chosen_def line_inv_def)
  show ?thesis
  proof (cases "last_term l = last_term (log_of C u)")
    case True
    with h l show ?thesis by (intro line_prefix) simp_all
  next
    case False
    with chosen_covers[OF assms(1-3) h(1)] assms(6) h(2) show ?thesis by simp
  qed
qed

subsection \<open>A longer run of the demonstration cluster\<close>

text \<open>
  The leader's entries reach \<open>''b''\<close>, its answer lets the leader commit them, and the next heartbeat
  tells \<open>''b''\<close>. Every answer is taken in the term of its call.
\<close>

definition timely :: "append_entries \<Rightarrow> node \<Rightarrow> bool" where
  "timely r n \<longleftrightarrow> ae_term r = currentTerm n"

definition demo_noop :: entry where
  "demo_noop = \<lparr>e_index = 0, e_term = 1, e_type = NOOP, e_payload = None\<rparr>"

definition demo_stroke :: entry where
  "demo_stroke = \<lparr>e_index = 1, e_term = 1, e_type = STROKE, e_payload = Some demo_payload\<rparr>"

definition demo_two :: append_entries where
  "demo_two = \<lparr>ae_term = 1, ae_leaderId = ''a'', ae_prevLogIndex = -1, ae_prevLogTerm = -1,
     ae_entries = [demo_noop, demo_stroke], ae_leaderCommit = -1\<rparr>"

definition demo_heartbeat :: append_entries where
  "demo_heartbeat = \<lparr>ae_term = 1, ae_leaderId = ''a'', ae_prevLogIndex = 1, ae_prevLogTerm = 1,
     ae_entries = [], ae_leaderCommit = 1\<rparr>"

definition demo_ack :: append_reply where
  "demo_ack = \<lparr>ar_term = 1, ar_success = True, ar_logLength = None\<rparr>"

definition cluster5 :: cluster where
  "cluster5 = (put_node ''b'' (fst (handleAppendEntries demo_two (nodes cluster4 ''b''))) cluster4)
     \<lparr>append_answers := insert (''b'', ''a'', demo_two, snd (handleAppendEntries demo_two (nodes cluster4 ''b'')))
        (append_answers cluster4)\<rparr>"

definition cluster6 :: cluster where
  "cluster6 = put_node ''a'' (appendReply ''b'' demo_two demo_ack (nodes cluster5 ''a'')) cluster5"

definition cluster7 :: cluster where
  "cluster7 = put_node ''a'' (sendAppendEntriesToAll (nodes cluster6 ''a'')) cluster6"

definition cluster8 :: cluster where
  "cluster8 = (put_node ''b'' (fst (handleAppendEntries demo_heartbeat (nodes cluster7 ''b''))) cluster7)
     \<lparr>append_answers := insert (''b'', ''a'', demo_heartbeat, snd (handleAppendEntries demo_heartbeat (nodes cluster7 ''b'')))
        (append_answers cluster7)\<rparr>"

lemma demo_longer_frame:
  "urls cluster8 = [''a'', ''b'', ''c'']"
  "nodes cluster7 ''a'' = sendAppendEntriesToAll (nodes cluster6 ''a'')" "nodes cluster8 ''a'' = nodes cluster7 ''a''"
  "nodes cluster8 ''b'' = fst (handleAppendEntries demo_heartbeat (nodes cluster5 ''b''))"
  "nodes cluster8 ''c'' = nodes cluster4 ''c''"
  "leaders cluster4 \<subseteq> leaders cluster8" "leader_logs cluster4 \<subseteq> leader_logs cluster8"
  "append_answers cluster5 \<subseteq> append_answers cluster8"
  using demo_cluster_facts(1) by (auto simp: cluster8_def cluster7_def cluster6_def cluster5_def)

lemma demo_commit_facts:
  "role (nodes cluster6 ''a'') = LEADER" "currentTerm (nodes cluster6 ''a'') = 1"
  "log_of cluster6 ''a'' = [demo_noop, demo_stroke]" "commitIndex (nodes cluster6 ''a'') = 1"
  "snapshots (db (nodes cluster6 ''a'')) = []" "heartbeatTimer (nodes cluster6 ''a'') \<noteq> None"
  "(''b'', AppendCall demo_heartbeat) \<in> set (outbox (nodes cluster7 ''a''))"
  subgoal by code_simp
  subgoal by code_simp
  subgoal by code_simp
  subgoal by code_simp
  subgoal by code_simp
  subgoal by code_simp
  subgoal unfolding demo_longer_frame(2) by code_simp
  done

lemma demo_longer_reachable:
  "reachable_if timely cluster5" "reachable_if timely cluster6" "reachable_if timely cluster7"
  "reachable_if timely cluster8" "step_if timely cluster7 cluster8"
  "(''b'', ''a'', demo_two, demo_ack) \<in> append_answers cluster5"
  "step_if timely cluster4 cluster5" "step_if timely cluster5 cluster6" "step_if timely cluster6 cluster7"
proof -
  note defs = cluster7_def cluster6_def cluster5_def
  have u: "urls cluster4 = [''a'', ''b'', ''c'']" by (rule demo_cluster_facts(1))
  have c: "(''a'', ''b'', AppendCall demo_two) \<in> calls cluster4" by code_simp
  show s5: "step_if timely cluster4 cluster5"
    unfolding cluster5_def by (rule deliver_append[OF c]) (simp_all add: u)
  from demo_reachable(4) s5 show r5: "reachable_if timely cluster5" by (rule reach_step)
  have "(''a'', ''b'', AppendCall demo_two) \<in> calls cluster5" using c by (simp add: cluster5_def)
  moreover show "(''b'', ''a'', demo_two, demo_ack) \<in> append_answers cluster5" by code_simp
  moreover have "timely demo_two (nodes cluster5 ''a'')" by code_simp
  ultimately show s6: "step_if timely cluster5 cluster6"
    unfolding cluster6_def by (intro append_answer) (simp_all add: cluster5_def u)
  from r5 s6 show r6: "reachable_if timely cluster6" by (rule reach_step)
  show s7: "step_if timely cluster6 cluster7"
    unfolding cluster7_def using demo_commit_facts(6) by (intro heartbeat) (simp_all add: cluster6_def cluster5_def u)
  from r6 s7 show r7: "reachable_if timely cluster7" by (rule reach_step)
  have "(''a'', ''b'', AppendCall demo_heartbeat) \<in> calls cluster7"
    using demo_commit_facts(7) by (simp add: cluster7_def)
  then show s8: "step_if timely cluster7 cluster8"
    unfolding cluster8_def by (rule deliver_append) (simp_all add: defs u)
  from r7 s8 show "reachable_if timely cluster8" by (rule reach_step)
qed

lemma demo_longer_facts:
  "role (nodes cluster8 ''a'') = LEADER" "currentTerm (nodes cluster8 ''a'') = 1"
  "log_of cluster8 ''a'' = [demo_noop, demo_stroke]" "commitIndex (nodes cluster8 ''a'') = 1"
  "commitIndex (nodes cluster8 ''b'') = 1" "snapshots (db (nodes cluster8 ''b'')) = []"
  "(''a'', 1) \<in> leaders cluster8" "(''b'', ''a'', demo_two, demo_ack) \<in> append_answers cluster8"
  "[demo_noop, demo_stroke] \<in> leader_logs cluster8"
proof -
  show "role (nodes cluster8 ''a'') = LEADER" "currentTerm (nodes cluster8 ''a'') = 1"
    "log_of cluster8 ''a'' = [demo_noop, demo_stroke]" "commitIndex (nodes cluster8 ''a'') = 1"
    using demo_commit_facts(1-4) by (simp_all add: demo_longer_frame(2,3) node_frame)
  show "commitIndex (nodes cluster8 ''b'') = 1" "snapshots (db (nodes cluster8 ''b'')) = []"
    unfolding demo_longer_frame(4) by code_simp+
  show "(''a'', 1) \<in> leaders cluster8" using demo_cluster_facts(5) demo_longer_frame(6) by blast
  show "(''b'', ''a'', demo_two, demo_ack) \<in> append_answers cluster8"
    using demo_longer_reachable(6) demo_longer_frame(8) by blast
  have "[demo_noop, demo_stroke] \<in> leader_logs cluster4" by code_simp
  then show "[demo_noop, demo_stroke] \<in> leader_logs cluster8" using demo_longer_frame(7) by blast
qed

lemma demo_longer_quiet: "quiet cluster7" "quiet cluster8"
proof -
  have "snapshots (db (nodes cluster8 ''a'')) = []"
    using demo_commit_facts(5) by (simp add: demo_longer_frame(2,3) node_frame)
  moreover have "snapshots (db (nodes cluster8 ''c'')) = []" unfolding demo_longer_frame(5) by code_simp
  ultimately show q: "quiet cluster8" using demo_longer_facts(6) by (simp add: quiet_def demo_longer_frame(1))
  have "reachable cluster7" by (rule reachable_if_mono[OF demo_longer_reachable(3)]) simp
  then show "quiet cluster7" by (intro snapshots_back[OF step_if_mono[OF demo_longer_reachable(5)] q reachable_inv]) simp_all
qed

lemma demo_chosen: "chosen cluster8 [demo_noop, demo_stroke]"
proof -
  have t: "last_term [demo_noop, demo_stroke] = 1" by code_simp
  have "acked cluster8 ''a'' [demo_noop, demo_stroke]" using demo_longer_facts(7) by (simp add: acked_def t)
  moreover have "ar_success demo_ack \<and> ae_term demo_two = 1 \<and> int (length [demo_noop, demo_stroke]) \<le> reach demo_two"
    by code_simp
  then have "acked cluster8 ''b'' [demo_noop, demo_stroke]"
    using demo_longer_facts(8) unfolding acked_def t by blast
  moreover have "quorum cluster8 {''a'', ''b''}" by (simp add: quorum_def demo_longer_frame(1))
  ultimately show ?thesis using demo_longer_facts(9) unfolding chosen_def by blast
qed

subsection \<open>Properties\<close>

text \<open>
  No election loses what a majority has acknowledged. As long as no node has taken a snapshot, a log that was
  acknowledged by a majority in the term of its last entry (\<open>chosen\<close>) is the beginning of the log of every leader of
  that term or a later one. This too needs nothing of the network; that what a node commits is of this kind is
  shown in \<open>Commit_Safety\<close>.
\<close>

theorem acknowledged_in_later_leaders:
  assumes "reachable C" "quiet C" "chosen C l" "u \<in> set (urls C)" "role (nodes C u) = LEADER"
    and "last_term l \<le> currentTerm (nodes C u)"
  shows "prefix l (log_entries (db (nodes C u)))
       \<and> (i < length l \<longrightarrow> getEntry (db (nodes C u)) (int i) = Some (l ! i))"
proof -
  have L: "line_inv C" by (rule reachable_line_inv[OF assms(1,2)])
  have p: "prefix l (log_of C u)" by (rule chosen_leader[OF L reachable_safety[OF assms(1,2)] assms(3-6)])
  have "getEntry (db (nodes C u)) (int i) = Some (l ! i)" if i: "i < length l"
  proof -
    have "i < length (log_of C u)" "log_of C u ! i = l ! i"
      using p i by (auto simp: prefix_def nth_append)
    then show ?thesis using plain_facts(7)[OF held_plain[OF reachable_inv[OF assms(1)] L assms(2,4)], of "int i"] by simp
  qed
  with p show ?thesis by blast
qed

theorem acknowledged_in_later_leaders_witness:
  "getEntry (db (nodes cluster8 ''a'')) 1 = Some demo_stroke"
proof -
  have "reachable cluster8" by (rule reachable_if_mono[OF demo_longer_reachable(4)]) simp
  moreover have "last_term [demo_noop, demo_stroke] \<le> currentTerm (nodes cluster8 ''a'')" by code_simp
  ultimately show ?thesis
    using acknowledged_in_later_leaders[OF _ demo_longer_quiet(2) demo_chosen _ demo_longer_facts(1), of 1]
    by (simp add: demo_longer_frame(1))
qed

end
