(* ===== verification/Commit_Safety.thy ===== *)
theory Commit_Safety imports Leader_Completeness begin

text \<open>
  What was committed stays committed: state machine safety and the agreement of the replicas' canvases.
  As in \<open>Log_Matching\<close> the runs are those in which no node has taken a snapshot. What is
  committed rests on the answers that a leader counts, so these properties are about runs in which a
  leader takes an answer only in the term of its call (\<open>timely\<close>), the check that
  \<open>_sendAppendEntriesTo\<close> leaves out.
\<close>

subsection \<open>Commit indices and applied entries\<close>

definition secured :: "cluster \<Rightarrow> int \<Rightarrow> entry list \<Rightarrow> bool" where
  "secured C t m \<longleftrightarrow> m = [] \<or> (\<exists>l. chosen C l \<and> last_term l \<le> t \<and> prefix m l)"

definition committed :: "node \<Rightarrow> entry list" where
  "committed n = take (nat (commitIndex n + 1)) (log_entries (db n))"

definition commit_ok :: "cluster \<Rightarrow> string \<Rightarrow> bool" where
  "commit_ok C v \<longleftrightarrow> -1 \<le> commitIndex (nodes C v) \<and> commitIndex (nodes C v) < int (length (log_of C v)) \<and>
     secured C (currentTerm (nodes C v)) (committed (nodes C v))"

definition calls_commit :: "cluster \<Rightarrow> bool" where
  "calls_commit C \<longleftrightarrow> (\<forall>u p r l. append_call C u p r \<and> l \<in> leader_logs C \<and> replicates l r \<longrightarrow>
     ae_leaderCommit r < int (length l) \<and> secured C (ae_term r) (take (nat (ae_leaderCommit r + 1)) l))"

definition match_ok :: "cluster \<Rightarrow> bool" where
  "match_ok C \<longleftrightarrow> (\<forall>u \<in> set (urls C). role (nodes C u) = LEADER \<longrightarrow> (\<forall>p. 0 \<le> match_of (nodes C u) p \<longrightarrow>
     (\<exists>r b. (p, u, r, b) \<in> append_answers C \<and> ar_success b \<and> ae_term r = currentTerm (nodes C u) \<and>
        match_of (nodes C u) p < reach r)))"

definition applied_ok :: "node \<Rightarrow> bool" where
  "applied_ok n \<longleftrightarrow> lastApplied (sm n) = commitIndex n \<and>
     sm n = apply_log (take (nat (lastApplied (sm n) + 1)) (log_entries (db n)))
       (new_state_machine (dedupeMaxClients (sm n)))"

definition commit_inv :: "cluster \<Rightarrow> bool" where
  "commit_inv C \<longleftrightarrow> (\<forall>v \<in> set (urls C). commit_ok C v \<and> applied_ok (nodes C v)) \<and> calls_commit C \<and> match_ok C"

text \<open>How a step moves the commit index, the state machine and the match indices of a node.\<close>

definition applies :: "node \<Rightarrow> node \<Rightarrow> bool" where
  "applies m n \<longleftrightarrow> (\<exists>k. db k = db n \<and> sm k = sm m \<and> commitIndex k = commitIndex n \<and> sm n = sm (apply_loop k))"

inductive cchange :: "cluster \<Rightarrow> string \<Rightarrow> node \<Rightarrow> bool" for C v n where
  keeps: "commitIndex n = commitIndex (nodes C v) \<Longrightarrow> sm n = sm (nodes C v) \<Longrightarrow>
    (role n = LEADER \<Longrightarrow> role (nodes C v) = LEADER \<and> currentTerm n = currentTerm (nodes C v) \<and>
       matchIndex n = matchIndex (nodes C v) \<or> (\<forall>p. match_of n p = -1)) \<Longrightarrow> cchange C v n"
| resets: "commitIndex n = -1 \<Longrightarrow> sm n = new_state_machine mx \<Longrightarrow> role n = FOLLOWER \<Longrightarrow> cchange C v n"
| follows: "append_call C w v r \<Longrightarrow> l \<in> leader_logs C \<Longrightarrow> replicates l r \<Longrightarrow> prefix l (log_entries (db n)) \<Longrightarrow>
    currentTerm n = ae_term r \<Longrightarrow> role n = FOLLOWER \<Longrightarrow> commitIndex (nodes C v) < ae_leaderCommit r \<Longrightarrow>
    commitIndex n = min (ae_leaderCommit r) (int (length (log_entries (db n))) - 1) \<Longrightarrow>
    applies (nodes C v) n \<Longrightarrow> cchange C v n"
| counts: "(p, v, r, b) \<in> append_answers C \<Longrightarrow> ar_success b \<Longrightarrow> ae_term r = currentTerm (nodes C v) \<Longrightarrow>
    m < reach r \<Longrightarrow> matchIndex n = map_set p m (matchIndex (nodes C v)) \<Longrightarrow>
    role (nodes C v) = LEADER \<Longrightarrow> role n = LEADER \<Longrightarrow> currentTerm n = currentTerm (nodes C v) \<Longrightarrow>
    log_entries (db n) = log_of C v \<Longrightarrow>
    commitIndex n = commitIndex (nodes C v) \<and> sm n = sm (nodes C v) \<or>
    commitIndex (nodes C v) < commitIndex n \<and> committable n (commitIndex n) \<and> applies (nodes C v) n \<Longrightarrow>
    cchange C v n"

lemma keeps_follower:
  "cchange C v (becomeFollower t l (nodes C v))"
  by (intro keeps) (simp_all add: node_frame)

lemma append_cchange:
  assumes pl: "plain (db (fst (handleAppendEntries r (nodes C v))))" and call: "append_call C w v r"
    and ok: "ar_success (snd (handleAppendEntries r (nodes C v))) \<Longrightarrow>
      currentTerm (fst (handleAppendEntries r (nodes C v))) = ae_term r \<and>
      (\<exists>l \<in> leader_logs C. replicates l r \<and> prefix l (log_entries (db (fst (handleAppendEntries r (nodes C v))))))"
  shows "cchange C v (fst (handleAppendEntries r (nodes C v)))"
proof (cases r "nodes C v" rule: handleAppendEntries_cases)
  case stale
  then show ?thesis by (intro keeps) simp_all
next
  case mismatch
  then show ?thesis by (intro keeps) (simp_all add: node_frame)
next
  case (success n2)
  let ?n = "fst (handleAppendEntries r (nodes C v))"
  show ?thesis
  proof (cases "commitIndex (nodes C v) < ae_leaderCommit r")
    case False
    then have n: "?n = n2" using success(4) by simp
    have "commitIndex n2 = commitIndex (nodes C v)" "sm n2 = sm (nodes C v)" "role n2 = FOLLOWER"
      using success(1) by (simp_all add: success(3) node_frame)
    then show ?thesis unfolding n by (intro keeps) simp_all
  next
    case True
    let ?k = "n2\<lparr>commitIndex := min (ae_leaderCommit r) (lastIndex (db n2))\<rparr>"
    have n: "?n = applyCommitted ?k" using success(4) True by simp
    then have d: "db ?n = db n2" using applyCommitted_none(2)[of ?k] pl by (simp add: plain_def)
    from ok[OF success(5)] obtain l where l: "l \<in> leader_logs C" "replicates l r"
      "prefix l (log_entries (db ?n))" "currentTerm ?n = ae_term r" by blast
    have ci: "commitIndex ?n = min (ae_leaderCommit r) (int (length (log_entries (db ?n))) - 1)"
      using plain_facts(4)[OF pl] d by (simp add: n node_frame)
    have sm: "sm ?k = sm (nodes C v)" "sm ?n = sm (apply_loop ?k)"
    proof -
      show "sm ?k = sm (nodes C v)" by (simp add: success(3) node_frame)
      show "sm ?n = sm (apply_loop ?k)" unfolding n by (rule sm_applyCommitted)
    qed
    have "commitIndex ?k = commitIndex ?n" by (simp add: n node_frame)
    then have ap: "applies (nodes C v) ?n" using d sm unfolding applies_def by (intro exI[of _ ?k]) simp
    have "role ?n = FOLLOWER" using success(1) by (simp add: handleAppendEntries_role)
    then show ?thesis by (rule follows[OF call l(1,2,3,4) _ True ci ap])
  qed
qed

lemma committable_cong:
  "db n = db m \<Longrightarrow> peers n = peers m \<Longrightarrow> matchIndex n = matchIndex m \<Longrightarrow> currentTerm n = currentTerm m \<Longrightarrow>
   committable n i = committable m i"
  by (auto simp: committable_def replica_count_def match_of_def majority_def split: option.split)

lemma maybeAdvance_applies:
  assumes "snapshots (db (maybeAdvanceCommitIndex k)) = []"
  shows "commitIndex (maybeAdvanceCommitIndex k) = commitIndex k \<and> sm (maybeAdvanceCommitIndex k) = sm k \<or>
    commitIndex k < commitIndex (maybeAdvanceCommitIndex k) \<and>
    committable (maybeAdvanceCommitIndex k) (commitIndex (maybeAdvanceCommitIndex k)) \<and>
    applies k (maybeAdvanceCommitIndex k)"
proof (cases k rule: maybeAdvance_cases)
  case (yes i)
  let ?n = "maybeAdvanceCommitIndex k"
  note d = maybeAdvance_none[OF assms]
  have ci: "commitIndex ?n = i" by (simp add: yes(6) node_frame)
  have "sm ?n = sm (apply_loop (k\<lparr>commitIndex := i\<rparr>))" by (simp add: yes(6) emit_def sm_applyCommitted)
  then have "applies k ?n" using d ci unfolding applies_def by (intro exI[of _ "k\<lparr>commitIndex := i\<rparr>"]) simp
  moreover have "committable ?n i = committable k i"
    by (rule committable_cong[OF d]) (simp_all add: node_frame)
  ultimately show ?thesis using yes(2,4) ci by simp
qed simp

lemma append_answer_cchange:
  assumes "plain (db (appendReply p r b (nodes C v)))" and t: "ae_term r = currentTerm (nodes C v)"
    and ans: "(p, v, r, b) \<in> append_answers C" and reach: "ar_success b \<Longrightarrow>
      (if ae_entries r \<noteq> [] then e_index (last (ae_entries r)) else ae_prevLogIndex r) < reach r"
  shows "cchange C v (appendReply p r b (nodes C v))"
proof -
  let ?n = "appendReply p r b (nodes C v)"
  let ?m = "if ae_entries r \<noteq> [] then e_index (last (ae_entries r)) else ae_prevLogIndex r"
  let ?k = "(nodes C v)\<lparr>matchIndex := map_set p ?m (matchIndex (nodes C v)),
               nextIndex := map_set p (?m + 1) (nextIndex (nodes C v))\<rparr>"
  consider (nothing) "?n = nodes C v" | (down) "?n = becomeFollower (ar_term b) None (nodes C v)"
    | (count) "role (nodes C v) = LEADER" "ar_success b" "?n = maybeAdvanceCommitIndex ?k"
    | (behind) x where "?n = (nodes C v)\<lparr>nextIndex := x\<rparr>"
    by (simp add: appendReply_def Let_def) metis
  then show ?thesis
  proof cases
    case nothing
    then show ?thesis by (intro keeps) simp_all
  next
    case down
    then show ?thesis by (simp add: keeps_follower)
  next
    case (behind x)
    then show ?thesis by (intro keeps) simp_all
  next
    case count
    have d: "db ?n = db (nodes C v)"
      using maybeAdvance_none[of ?k] assms(1) by (simp add: count(3) plain_def)
    have fr: "peers ?n = peers ?k" "matchIndex ?n = matchIndex ?k" "currentTerm ?n = currentTerm ?k" "role ?n = role ?k"
      unfolding count(3) by (rule frame_maybeAdvance)+
    have "snapshots (db (maybeAdvanceCommitIndex ?k)) = []" using assms(1) by (simp only: count(3) plain_def)
    from maybeAdvance_applies[OF this, folded count(3)]
    have "commitIndex ?n = commitIndex (nodes C v) \<and> sm ?n = sm (nodes C v) \<or>
        commitIndex (nodes C v) < commitIndex ?n \<and> committable ?n (commitIndex ?n) \<and> applies (nodes C v) ?n"
      by (simp add: applies_def)
    moreover have "matchIndex ?n = map_set p ?m (matchIndex (nodes C v))" "role ?n = LEADER"
      "currentTerm ?n = currentTerm (nodes C v)" "log_entries (db ?n) = log_of C v"
      using fr count(1) d by simp_all
    ultimately show ?thesis
      using count(1) by (intro counts[OF ans count(2) t reach[OF count(2)]]) simp_all
  qed
qed

lemma winner_match: "role (becomeLeader n) = LEADER \<Longrightarrow> match_of (becomeLeader n) p = -1"
  by (simp add: match_of_def node_frame map_get_fold_set)

lemma keeps_same:
  "commitIndex n = commitIndex (nodes C v) \<Longrightarrow> sm n = sm (nodes C v) \<Longrightarrow>
   role n = role (nodes C v) \<and> currentTerm n = currentTerm (nodes C v) \<and> matchIndex n = matchIndex (nodes C v)
     \<or> role n \<noteq> LEADER \<Longrightarrow> cchange C v n"
  by (intro keeps) auto

lemma step_cchange:
  assumes I: "cluster_inv C" and L: "line_inv C" and A: "acks_ok C"
    and st: "step_if timely C C'" and Q: "quiet C'" and v: "v \<in> set (urls C)"
  shows "cchange C v (nodes C' v)"
proof -
  have step: "step C C'" by (rule step_if_mono[OF st]) simp
  note I' = step_inv[OF I step] and L' = line_inv_step[OF I L step Q] and QC = snapshots_back[OF step Q I]
  have plC: "plain (db (nodes C w))" if "w \<in> set (urls C)" for w by (rule held_plain[OF I L QC that])
  have plC': "plain (db (nodes C' w))" if "w \<in> set (urls C')" for w by (rule held_plain[OF I' L' Q that])
  have put: "cchange C v (nodes C' v)" if "nodes C' = (nodes C)(u := n)" "cchange C u n" for u n
    using that by (cases "v = u") (auto intro: keeps_same)
  from st show ?thesis
  proof cases
    case (clock u x t)
    then show ?thesis by (intro put[of u "(nodes C u)\<lparr>now := x, rnd := t\<rparr>"] keeps_same) simp_all
  next
    case (election_timeout u)
    show ?thesis
      by (intro put[of u "startElection (nodes C u)"] keeps_same) (simp_all add: election_timeout(1) node_frame)
  next
    case (heartbeat u)
    show ?thesis
      by (intro put[of u "sendAppendEntriesToAll (nodes C u)"] keeps_same) (simp_all add: heartbeat(1) node_frame)
  next
    case (deliver_vote u w r n b)
    have n: "n = fst (handleRequestVote r (nodes C w))" using deliver_vote(4) by simp
    have "commitIndex n = commitIndex (nodes C w) \<and> sm n = sm (nodes C w) \<and> matchIndex n = matchIndex (nodes C w)"
      by (auto simp: n handleRequestVote_def node_frame Let_def)
    then show ?thesis
      using handleRequestVote_role[of r "nodes C w"] n
      by (intro put[of w n] keeps_same) (auto simp: deliver_vote(1))
  next
    case (vote_round u t rs)
    show ?thesis
    proof (cases rule: electionResults_cases[where n = "nodes C u" and t = t and rs = rs, case_names ignored newer lost won])
      case (newer b)
      then show ?thesis by (intro put[of u "electionResults t rs (nodes C u)"]) (simp_all add: vote_round(1) keeps_follower)
    next
      case won
      have "cchange C u (becomeLeader (nodes C u))"
        by (intro keeps) (simp_all add: winner_match, simp_all add: node_frame)
      with won show ?thesis by (intro put[of u "electionResults t rs (nodes C u)"]) (simp_all add: vote_round(1))
    qed (intro put[of u "electionResults t rs (nodes C u)"]; simp add: vote_round(1) keeps_same)+
  next
    case (deliver_append u w c r n b)
    have n: "n = fst (handleAppendEntries r (nodes C w))" using deliver_append(5) by simp
    have call: "append_call C u w r" using deliver_append(2,3) by (auto simp: append_call_def)
    have pn: "plain (db n)" using plC'[of w] deliver_append(1,4) by simp
    have "cchange C w n"
      unfolding n
      by (rule append_cchange[OF _ call append_change(2)[OF L plC[OF deliver_append(4)] deliver_append(4) call]])
        (use pn n in \<open>simp_all add: plain_def\<close>)
    then show ?thesis by (intro put[of w n]) (simp add: deliver_append(1))
  next
    case (append_answer u p r b)
    let ?n = "appendReply p r b (nodes C u)"
    have pn: "plain (db ?n)" using plC'[of u] append_answer(1,2) by simp
    have "(if ae_entries r \<noteq> [] then e_index (last (ae_entries r)) else ae_prevLogIndex r) < reach r" if ok: "ar_success b"
    proof -
      obtain l where l: "l \<in> leader_logs C" "replicates l r"
        using A append_answer(4) ok unfolding acks_ok_def by blast
      then have "positions l" using L by (simp add: line_inv_def lines_ok_def)
      moreover have "last (ae_entries r) = l ! (length l - 1)" if "ae_entries r \<noteq> []"
        using that l(2) by (auto simp: replicates_def copies_def last_conv_nth)
      ultimately have "e_index (last (ae_entries r)) = int (length l) - 1" if "ae_entries r \<noteq> []"
        using that l(2) by (auto simp: positions_def replicates_def of_nat_diff Suc_leI)
      then show ?thesis using reach_replicates[OF l(2)] l(2) by (simp add: replicates_def copies_def)
    qed
    then have "cchange C u ?n"
      using append_answer(5) by (intro append_answer_cchange[OF pn _ append_answer(4)]) (simp_all add: timely_def)
    then show ?thesis by (intro put[of u ?n]) (simp add: append_answer(1))
  next
    case (deliver_snapshot u w r n t)
    then show ?thesis using L by (auto simp: line_inv_def calls_ok_def)
  next
    case (snapshot_answer u p r t)
    then show ?thesis using L by (auto simp: line_inv_def calls_ok_def)
  next
    case (client_submit u p)
    let ?n = "fst (submit_begin STROKE p (nodes C u))"
    have "cchange C u ?n"
      by (intro keeps_same; simp add: submit_begin_def Let_def case_prod_beta node_frame split: option.split)
    then show ?thesis by (intro put[of u ?n]) (simp add: client_submit(1))
  next
    case (client_read u)
    let ?n = "fst (readIndex_begin (nodes C u))"
    have "cchange C u ?n" by (intro keeps_same; simp add: readIndex_begin_def broadcast_eq)
    then show ?thesis by (intro put[of u ?n]) (simp add: client_read(1))
  next
    case (read_round u t rs)
    let ?n = "fst (readIndex_results t rs (nodes C u))"
    have "cchange C u ?n"
      using readIndex_results_fst[of t rs "nodes C u"] by (auto intro: keeps_same keeps_follower)
    then show ?thesis by (intro put[of u ?n]) (simp add: read_round(1))
  next
    case (halt u)
    have "cchange C u (stop (nodes C u))" by (intro keeps_same; simp add: stop_def node_frame)
    then show ?thesis by (intro put[of u "stop (nodes C u)"]) (simp add: halt(1))
  next
    case (restart u mx t x)
    have "snapshots (db (nodes C u)) = []" using QC restart(2) by (simp add: quiet_def)
    then have "cchange C u (reboot mx t x (nodes C u))"
      by (intro resets) (simp_all add: reboot_facts reboot_state loadLatestSnapshot_def)
    then show ?thesis by (intro put[of u "reboot mx t x (nodes C u)"]) (simp add: restart(1))
  next
    case (power_loss u f mx t x)
    let ?n = "reboot mx t x ((nodes C u)\<lparr>db := f\<rparr>)"
    have "snapshots f = []" using Q power_loss(1,2) by (auto simp: quiet_def reboot_facts)
    then have "cchange C u ?n" by (intro resets) (simp_all add: reboot_facts reboot_state loadLatestSnapshot_def)
    then show ?thesis by (intro put[of u ?n]) (simp add: power_loss(1))
  qed
qed

subsection \<open>The commit invariant is kept\<close>

lemma chosen_mono: "safe_step C C' u n \<Longrightarrow> chosen C l \<Longrightarrow> chosen C' l"
  using acked_mono safe_frame(6,10) unfolding chosen_def by (metis subsetD)

lemma secured_mono: "safe_step C C' u n \<Longrightarrow> secured C t m \<Longrightarrow> t \<le> t' \<Longrightarrow> secured C' t' m"
  using chosen_mono unfolding secured_def by (meson order_trans)

lemma prefix_take: "prefix (take k l) m \<Longrightarrow> k \<le> length l \<Longrightarrow> take k m = take k l \<and> k \<le> length m"
  by (metis append_eq_conv_conj length_take min.absorb2 prefix_def prefix_length_le)

text \<open>A step leaves a secured beginning of a node's log there, so also what the node has committed.\<close>

lemma prefix_kept:
  assumes S: "safe_step C C' u n" and sec: "secured C (currentTerm (nodes C v)) P" and P: "prefix P (log_of C v)"
  shows "prefix P (log_of C' v)"
proof -
  note fr = safe_frame[OF S]
  show ?thesis
  proof (cases "v = u")
    case False
    with P fr(3) show ?thesis by simp
  next
    case True
    show ?thesis
    proof (cases rule: safe_cases[OF S, case_names same adopted grown])
      case same
      with P True fr(3) show ?thesis by simp
    next
      case (grown l0)
      with P True fr(3) show ?thesis by (auto intro: prefix_order.trans)
    next
      case (adopted m)
      have inv: "line_inv C" "safety_inv C" using S by (simp_all add: safe_step_def)
      show ?thesis using sec unfolding secured_def
      proof
        assume "P = []"
        then show ?thesis by simp
      next
        assume "\<exists>l. chosen C l \<and> last_term l \<le> currentTerm (nodes C v) \<and> prefix P l"
        then obtain l where l: "chosen C l" "last_term l \<le> currentTerm (nodes C u)" "prefix P l" using True by blast
        have "last_term l \<le> last_term m" using l(2) adopted(2) fr(9)[of u] fr(3) by simp
        from chosen_covers[OF inv l(1) adopted(1) this] have "prefix P m"
        proof
          assume "prefix l m"
          with l(3) show ?thesis by (rule prefix_order.trans)
        next
          assume "last_term l = last_term m \<and> prefix m l"
          with l(3) prefix_same_cases[of P l m] have "prefix P m \<or> prefix m P" by blast
          moreover have "\<not> prefix m P" using adopted(4) P True by (auto intro: prefix_order.trans)
          ultimately show ?thesis by blast
        qed
        with P True adopted(5) fr(3) show ?thesis by simp
      qed
    qed
  qed
qed

lemma retained:
  assumes S: "safe_step C C' u n" and ok: "commit_ok C v"
  shows "prefix (committed (nodes C v)) (log_of C' v)"
  using ok by (intro prefix_kept[OF S]) (simp_all add: commit_ok_def committed_def take_is_prefix)

lemma retained_take:
  assumes "safe_step C C' u n" "v \<in> set (urls C)" "commit_ok C v" "k \<le> commitIndex (nodes C v)"
  shows "take (nat (k + 1)) (log_of C' v) = take (nat (k + 1)) (log_of C v)"
    and "commitIndex (nodes C v) < int (length (log_of C' v))"
proof -
  have c: "-1 \<le> commitIndex (nodes C v)" "commitIndex (nodes C v) < int (length (log_of C v))"
    using assms(3) by (simp_all add: commit_ok_def)
  define x where "x = nat (commitIndex (nodes C v) + 1)"
  have x: "x \<le> length (log_of C v)" "nat (k + 1) \<le> x" using c assms(4) by (simp_all add: x_def)
  have "prefix (take x (log_of C v)) (log_of C' v)"
    using retained[OF assms(1,3)] by (simp only: committed_def x_def)
  from prefix_take[OF this x(1)] have t: "take x (log_of C' v) = take x (log_of C v)" "x \<le> length (log_of C' v)"
    by (rule conjunct1, rule conjunct2)
  from t(2) c show "commitIndex (nodes C v) < int (length (log_of C' v))" unfolding x_def by linarith
  have "take (nat (k + 1)) (take x (log_of C' v)) = take (nat (k + 1)) (take x (log_of C v))"
    by (rule arg_cong[OF t(1)])
  then show "take (nat (k + 1)) (log_of C' v) = take (nat (k + 1)) (log_of C v)"
    using x(2) by (simp only: take_take min.absorb1)
qed

lemma match_kept:
  assumes S: "safe_step C C' u n" and M: "match_ok C" and ch: "\<And>v. v \<in> set (urls C) \<Longrightarrow> cchange C v (nodes C' v)"
  shows "match_ok C'"
  unfolding match_ok_def
proof (intro ballI allI impI)
  fix v q assume v: "v \<in> set (urls C')" and ld: "role (nodes C' v) = LEADER" and q: "0 \<le> match_of (nodes C' v) q"
  note fr = safe_frame[OF S]
  have vC: "v \<in> set (urls C)" using v fr(2) by simp
  have old: "\<exists>r b. (q, v, r, b) \<in> append_answers C' \<and> ar_success b \<and> ae_term r = currentTerm (nodes C v) \<and>
        match_of (nodes C v) q < reach r" if "role (nodes C v) = LEADER" "0 \<le> match_of (nodes C v) q"
    using M vC that fr(8) unfolding match_ok_def by blast
  from ch[OF vC] show "\<exists>r b. (q, v, r, b) \<in> append_answers C' \<and> ar_success b \<and>
      ae_term r = currentTerm (nodes C' v) \<and> match_of (nodes C' v) q < reach r"
  proof cases
    case keeps
    with ld q old show ?thesis by (auto simp: match_of_def)
  next
    case (counts p r b m)
    show ?thesis
    proof (cases "q = p")
      case True
      with counts have "match_of (nodes C' v) q = m" by (simp add: match_of_def update_conv')
      with counts True fr(8) show ?thesis by auto
    next
      case False
      with counts(5) have "match_of (nodes C' v) q = match_of (nodes C v) q" by (simp add: match_of_def update_conv')
      with old counts q show ?thesis by simp
    qed
  qed (use ld in simp_all)
qed

text \<open>An index that a leader finds on a majority is the end of a chosen log.\<close>


lemma committable_chosen:
  assumes I: "cluster_inv C" and L: "line_inv C" and Q: "quiet C" and M: "match_ok C"
    and v: "v \<in> set (urls C)" and ld: "role (nodes C v) = LEADER" and cm: "committable (nodes C v) k"
  shows "0 \<le> k \<and> k < int (length (log_of C v)) \<and> chosen C (take (nat (k + 1)) (log_of C v)) \<and>
    last_term (take (nat (k + 1)) (log_of C v)) = currentTerm (nodes C v)"
proof -
  let ?n = "nodes C v" and ?l = "take (nat (k + 1)) (log_of C v)"
  note pl = plain_facts[OF held_plain[OF I L Q v]]
  obtain e where e: "getEntry (db ?n) k = Some e" "e_term e = currentTerm ?n" "replica_count ?n k \<ge> majority ?n"
    using cm by (auto simp: committable_def split: option.splits)
  have k: "0 \<le> k" "k < int (length (log_of C v))" "e = log_of C v ! nat k"
    using e(1) unfolding pl(7) by (simp_all split: if_splits)
  have sk: "nat (k + 1) = Suc (nat k)" using k(1) by simp
  have "nat k < length (log_of C v)" using k by linarith
  then have t: "last_term ?l = currentTerm ?n" using e(2) k(3) last_term_take by (simp only: sk)
  have len: "int (length ?l) = k + 1" using k by simp
  have "log_of C v \<in> leader_logs C" using L v ld by (auto simp: line_inv_def held_ok_def)
  then have line: "?l \<in> leader_logs C" using L k(1) by (simp add: line_inv_def lines_ok_def)
  let ?R = "{p \<in> set (peers ?n). k \<le> match_of ?n p}"
  have conf: "distinct (peers ?n)" "set (peers ?n) = set (urls C) - {v}" "distinct (urls C)"
    using I v by (auto simp: cluster_inv_def vote_inv_def conf_def)
  have "acked C p ?l" if "p \<in> insert v ?R" for p
  proof (cases "p = v")
    case True
    then show ?thesis using I v ld t by (auto simp: acked_def cluster_inv_def vote_inv_def leader_inv_def)
  next
    case False
    with that have m: "k \<le> match_of ?n p" by simp
    with k(1) have "0 \<le> match_of ?n p" by simp
    with M v ld obtain r b where r: "(p, v, r, b) \<in> append_answers C" "ar_success b"
      "ae_term r = currentTerm ?n" "match_of ?n p < reach r" unfolding match_ok_def by blast
    have "ae_term r = last_term ?l" "int (length ?l) \<le> reach r" using r(3,4) t len m by linarith+
    with r(1,2) show ?thesis unfolding acked_def by blast
  qed
  moreover have "quorum C (insert v ?R)"
  proof -
    have "card (set (urls C)) = length (peers ?n) + 1"
      using distinct_card[OF conf(1)] conf(2) v by (metis List.finite_set Suc_eq_plus1 card_Suc_Diff1)
    moreover have "card ?R = length (filter (\<lambda>p. k \<le> match_of ?n p) (peers ?n))"
      using distinct_card[OF distinct_filter[OF conf(1)], of "\<lambda>p. k \<le> match_of ?n p"] by simp
    moreover have "v \<notin> ?R" using conf(2) by simp
    ultimately have "card (insert v ?R) = length (filter (\<lambda>p. k \<le> match_of ?n p) (peers ?n)) + 1"
      "card (set (urls C)) = length (peers ?n) + 1" by (simp_all only: card_insert_disjoint finite_set finite_Collect_conjI) simp_all
    then have "card (set (urls C)) < 2 * card (insert v ?R)"
      using e(3) unfolding replica_count_def majority_def by linarith
    moreover have "insert v ?R \<subseteq> set (urls C)" using conf(2) v by blast
    ultimately show ?thesis unfolding quorum_def by blast
  qed
  ultimately have "chosen C ?l" using line unfolding chosen_def by blast
  with k t show ?thesis by simp
qed

lemma commit_kept:
  assumes S: "safe_step C C' u n" and Q: "quiet C'" and inv: "commit_inv C"
    and ch: "\<And>v. v \<in> set (urls C) \<Longrightarrow> cchange C v (nodes C' v)" and v: "v \<in> set (urls C)"
  shows "commit_ok C' v"
proof -
  note fr = safe_frame[OF S]
  have old: "commit_ok C v" and M: "match_ok C'" and cc: "calls_commit C"
    using inv v match_kept[OF S _ ch] by (simp_all add: commit_inv_def)
  have I': "cluster_inv C'" "line_inv C'" and v': "v \<in> set (urls C')" using S v fr(2) by (simp_all add: safe_step_def)
  have stay: "commit_ok C' v" if ci: "commitIndex (nodes C' v) = commitIndex (nodes C v)"
  proof -
    have "committed (nodes C' v) = committed (nodes C v)"
      using retained_take(1)[OF S v old order_refl] by (simp add: committed_def ci)
    moreover have "secured C' (currentTerm (nodes C' v)) (committed (nodes C v))"
      using old by (intro secured_mono[OF S _ fr(9)]) (simp add: commit_ok_def)
    ultimately show ?thesis
      using old retained_take(2)[OF S v old order_refl] by (simp add: commit_ok_def ci)
  qed
  from ch[OF v] show ?thesis
  proof cases
    case keeps
    then show ?thesis by (intro stay)
  next
    case (resets mx)
    then show ?thesis by (simp add: commit_ok_def committed_def secured_def)
  next
    case (follows w r l)
    have lc: "ae_leaderCommit r < int (length l)" "secured C (ae_term r) (take (nat (ae_leaderCommit r + 1)) l)"
      using cc follows(1-3) unfolding calls_commit_def by blast+
    have len: "length l \<le> length (log_of C' v)" using follows(4) by (rule prefix_length_le)
    have ci: "commitIndex (nodes C' v) = ae_leaderCommit r" using follows(8) lc(1) len by simp
    have lo: "-1 \<le> ae_leaderCommit r" using follows(7) old by (simp add: commit_ok_def)
    have "committed (nodes C' v) = take (nat (ae_leaderCommit r + 1)) l"
    proof -
      obtain zs where z: "log_of C' v = l @ zs" using follows(4) by (auto simp: prefix_def)
      have "nat (ae_leaderCommit r + 1) \<le> length l" using lc(1) by linarith
      then show ?thesis by (simp only: committed_def ci z take_append diff_is_0_eq[THEN iffD2] take_0 append_Nil2)
    qed
    moreover have "secured C' (currentTerm (nodes C' v)) (take (nat (ae_leaderCommit r + 1)) l)"
      using secured_mono[OF S lc(2)] follows(5) by simp
    ultimately show ?thesis using ci lo lc(1) len by (simp add: commit_ok_def)
  next
    case (counts p r b m)
    show ?thesis
    proof (cases "commitIndex (nodes C' v) = commitIndex (nodes C v)")
      case True
      then show ?thesis by (rule stay)
    next
      case False
      then have cm: "committable (nodes C' v) (commitIndex (nodes C' v))" using counts(10) by blast
      note c = committable_chosen[OF I' Q M v' counts(7) cm]
      then have "secured C' (currentTerm (nodes C' v)) (committed (nodes C' v))"
        unfolding secured_def committed_def
        by (intro disjI2 exI[of _ "take (nat (commitIndex (nodes C' v) + 1)) (log_of C' v)"]) simp
      with c show ?thesis by (simp add: commit_ok_def)
    qed
  qed
qed

text \<open>A call determines the log it carries.\<close>

lemma replicates_unique:
  assumes "lines_ok C" "l \<in> leader_logs C" "m \<in> leader_logs C" "replicates l r" "replicates m r"
  shows "l = m"
proof -
  have len: "length l = length m" using reach_replicates[OF assms(4)] reach_replicates[OF assms(5)] by linarith
  have tm: "last_term l = last_term m" using assms(4,5) by (simp add: replicates_def)
  have "prefix l m" by (rule line_prefix[OF assms(1-3) tm]) (simp add: len)
  moreover have "prefix m l" by (rule line_prefix[OF assms(1,3,2) tm[symmetric]]) (simp add: len)
  ultimately show ?thesis by (rule prefix_order.antisym)
qed

lemma dud_not_replicates:
  assumes "lines_ok C" "l \<in> leader_logs C" "dud r"
  shows "\<not> replicates l r"
proof
  assume r: "replicates l r"
  let ?i = "nat (ae_prevLogIndex r)"
  have i: "0 \<le> ae_prevLogIndex r" "e_term (l ! ?i) = -1" "?i < length l"
    using r assms(3) by (auto simp: dud_def replicates_def copies_def)
  have "take (Suc ?i) l \<in> leader_logs C" using assms(1,2) by (simp add: lines_ok_def)
  then have "0 \<le> last_term (take (Suc ?i) l)" using assms(1) by (simp add: lines_ok_def)
  with i(2,3) show False by (simp add: last_term_take)
qed

lemma calls_commit_kept:
  assumes S: "safe_step C C' u n" and cc: "calls_commit C"
    and ok: "commit_ok C u" "commit_ok C' u"
  shows "calls_commit C'"
  unfolding calls_commit_def
proof (intro allI impI, elim conjE)
  fix w p r l assume call: "append_call C' w p r" and l: "l \<in> leader_logs C'" "replicates l r"
  note fr = safe_frame[OF S]
  have L: "line_inv C" "line_inv C'" "lines_ok C'" using S by (simp_all add: safe_step_def line_inv_def)
  show "ae_leaderCommit r < int (length l) \<and> secured C' (ae_term r) (take (nat (ae_leaderCommit r + 1)) l)"
  proof (cases "append_call C w p r")
    case True
    have "\<not> dud r" using dud_not_replicates[OF L(3) l(1)] l(2) by blast
    with call_or_dud[OF L(1) True] obtain m where m: "m \<in> leader_logs C" "replicates m r" by blast
    have "l = m" using replicates_unique[OF L(3) l(1) _ l(2) m(2)] m(1) fr(6) by blast
    with cc True m have "ae_leaderCommit r < int (length l)" "secured C (ae_term r) (take (nat (ae_leaderCommit r + 1)) l)"
      unfolding calls_commit_def by blast+
    with secured_mono[OF S] show ?thesis by blast
  next
    case False
    have calls: "calls C' = calls C \<union> {(u, p, c) |p c. (p, c) \<in> set (outbox n)}"
      and I: "cluster_inv C" "cluster_inv C'" "line_inv C" "quiet C" "qstep C C' u n"
      using S by (simp_all add: safe_step_def qstep_def)
    from False call calls have c: "w = u" "(p, AppendCall r) \<in> set (outbox n) \<or> (p, ReadCall r) \<in> set (outbox n)"
      "(u, p, AppendCall r) \<notin> calls C" "(u, p, ReadCall r) \<notin> calls C" by (auto simp: append_call_def)
    have "role (nodes C u) = LEADER \<and> (fresh_call (nodes C u) (AppendCall r) \<or> fresh_call (nodes C u) (ReadCall r)) \<or>
        role n = LEADER \<and> (fresh_call n (AppendCall r) \<or> fresh_call n (ReadCall r))"
      by (cases rule: change_cases[OF I, case_names same adopted grown]) (use c in \<open>auto\<close>)
    then obtain D where D: "D = C \<or> D = C'" "role (nodes D u) = LEADER"
        "fresh_call (nodes D u) (AppendCall r) \<or> fresh_call (nodes D u) (ReadCall r)"
    proof (elim disjE[of "_ \<and> _"], goal_cases)
      case 1
      then show ?thesis by (intro 1(1)[of C]) simp_all
    next
      case 2
      then show ?thesis using fr(3) by (intro 2(1)[of C']) simp_all
    qed
    have uD: "u \<in> set (urls D)" and LD: "line_inv D" and okD: "commit_ok D u" using D(1) fr(1,2) L ok by auto
    have h: "log_of D u \<noteq> [] \<and> last_term (log_of D u) = currentTerm (nodes D u)" "log_of D u \<in> leader_logs D"
      using LD uD D(2) by (auto simp: line_inv_def held_ok_def)
    have "\<not> dud r" using dud_not_replicates[OF L(3) l(1)] l(2) by blast
    then have rep: "replicates (log_of D u) r" using copies_replicates[of "nodes D u" r] h(1) D(2,3) by blast
    have "log_of D u \<in> leader_logs C'" using h(2) D(1) fr(6) by auto
    with replicates_unique[OF L(3) l(1) _ l(2) rep] have "l = log_of D u" by blast
    moreover have "ae_leaderCommit r = commitIndex (nodes D u)" "ae_term r = currentTerm (nodes D u)"
      using D(3) by (auto simp: fresh_call_def)
    moreover have "secured C' (currentTerm (nodes D u)) (committed (nodes D u))"
      using D(1) okD secured_mono[OF S] by (auto simp: commit_ok_def)
    ultimately show ?thesis using okD by (simp add: commit_ok_def committed_def)
  qed
qed

lemma range_take:
  assumes "positions (log_entries d)" "0 \<le> a" "a \<le> b + 1" "b < int (length (log_entries d))"
  shows "take (nat a) (log_entries d) @ getRange d a b = take (nat (b + 1)) (log_entries d)"
proof (cases "a \<le> b")
  case False
  with assms(3) have "a = b + 1" by simp
  with False show ?thesis by (simp add: getRange_def)
next
  case True
  let ?L = "log_entries d" and ?k = "nat (b + 1)"
  have k: "?k \<le> length ?L" "int ?k = b + 1" using assms(2-4) by linarith+
  let ?P = "\<lambda>e. a \<le> e_index e \<and> e_index e \<le> b"
  have none: "filter ?P (drop ?k ?L) = []"
    using assms(1) k by (auto simp: filter_empty_conv positions_def in_set_conv_nth)
  have len: "int (length (take ?k ?L)) - 1 = b" using k by (simp add: min_absorb2)
  have pos: "positions (take ?k ?L)" using assms(1) by (simp add: positions_def)
  have "getRange d a b = filter ?P ?L" using True by (simp add: getRange_def)
  also have "\<dots> = filter ?P (take ?k ?L) @ filter ?P (drop ?k ?L)"
    by (simp only: filter_append[symmetric] append_take_drop_id)
  also have "\<dots> = filter ?P (take ?k ?L)" unfolding none by simp
  also have "\<dots> = drop (nat a) (take ?k ?L)"
    using filter_positions(1)[OF pos assms(2)] unfolding len .
  finally have "getRange d a b = drop (nat a) (take ?k ?L)" .
  moreover have "take (nat a) ?L = take (nat a) (take ?k ?L)" using True assms(2) by (simp add: min_absorb1)
  ultimately show ?thesis by (simp only: append_take_drop_id)
qed

lemma dedupeMax_apply_log: "dedupeMaxClients (apply_log es s) = dedupeMaxClients s"
  by (induction es arbitrary: s) (simp_all add: sm_simps)

text \<open>Applying up to a commit index that only grew, over a log whose applied part stayed.\<close>

lemma applies_ok:
  assumes pl: "plain (db n)" and ap: "applies m n" and ok: "applied_ok m"
    and ci: "-1 \<le> commitIndex m" "commitIndex m \<le> commitIndex n" "commitIndex n < int (length (log_entries (db n)))"
    and stay: "take (nat (lastApplied (sm m) + 1)) (log_entries (db n)) =
       take (nat (lastApplied (sm m) + 1)) (log_entries (db m))"
  shows "applied_ok n"
proof -
  let ?a = "lastApplied (sm m)" and ?b = "lastApplied (sm n)" and ?L = "log_entries (db n)"
  let ?s = "new_state_machine (dedupeMaxClients (sm m))"
  obtain k where k: "db k = db n" "sm k = sm m" "commitIndex k = commitIndex n" "sm n = sm (apply_loop k)"
    using ap by (auto simp: applies_def)
  have "log_sorted (db k)" using plain_facts(3)[OF pl] k(1) by simp
  note sp = apply_loop_spec[OF this, unfolded k(1-3), folded k(4)]
  have o: "?a = commitIndex m"
    and osm: "sm m = apply_log (take (nat (?a + 1)) (log_entries (db m))) ?s"
    using ok unfolding applied_ok_def by blast+
  have b: "?a \<le> ?b" "?b \<le> commitIndex n" using sp o ci(2) by linarith+
  have "?b = commitIndex n"
  proof (rule ccontr)
    assume "?b \<noteq> commitIndex n"
    with b sp have "getEntry (db n) (?b + 1) = None" by auto
    with \<open>?b \<noteq> commitIndex n\<close> b o ci show False by (auto simp: plain_facts(7)[OF pl] split: if_splits)
  qed
  have mx: "dedupeMaxClients (sm n) = dedupeMaxClients (sm m)" using sp by (metis dedupeMax_apply_log)
  have pos: "positions ?L" using pl by (simp add: plain_def)
  have "sm n = apply_log (getRange (db n) (?a + 1) ?b) (sm m)" using sp by blast
  also have "\<dots> = apply_log (take (nat (?a + 1)) ?L @ getRange (db n) (?a + 1) ?b) ?s"
    unfolding apply_log_simps(3) stay osm[symmetric] ..
  also have "take (nat (?a + 1)) ?L @ getRange (db n) (?a + 1) ?b = take (nat (?b + 1)) ?L"
    using b o ci by (intro range_take[OF pos]) linarith+
  finally have "sm n = apply_log (take (nat (?b + 1)) ?L) (new_state_machine (dedupeMaxClients (sm n)))"
    unfolding mx .
  with \<open>?b = commitIndex n\<close> show ?thesis unfolding applied_ok_def by blast
qed

lemma applied_kept:
  assumes S: "safe_step C C' u n" and Q: "quiet C'" and inv: "commit_inv C"
    and ch: "cchange C v (nodes C' v)" and v: "v \<in> set (urls C)" and ok': "commit_ok C' v"
  shows "applied_ok (nodes C' v)"
proof -
  have old: "commit_ok C v" "applied_ok (nodes C v)" using inv v by (simp_all add: commit_inv_def)
  then have la: "lastApplied (sm (nodes C v)) \<le> commitIndex (nodes C v)" by (simp add: applied_ok_def)
  note stay = retained_take(1)[OF S v old(1) la]
  have pl: "plain (db (nodes C' v))"
    using S v Q safe_frame(2)[OF S] by (intro held_plain[of C']) (simp_all add: safe_step_def)
  have ci': "commitIndex (nodes C' v) < int (length (log_of C' v))" "-1 \<le> commitIndex (nodes C v)"
    using ok' old(1) by (simp_all add: commit_ok_def)
  have same: "applied_ok (nodes C' v)" if "sm (nodes C' v) = sm (nodes C v)" "commitIndex (nodes C' v) = commitIndex (nodes C v)"
    using old(2) unfolding applied_ok_def that stay .
  from ch show ?thesis
  proof cases
    case keeps
    then show ?thesis by (intro same)
  next
    case (resets mx)
    then show ?thesis by (simp add: applied_ok_def new_state_machine_def)
  next
    case (follows w r l)
    have "commitIndex (nodes C v) \<le> commitIndex (nodes C' v)"
      using follows(7,8) retained_take(2)[OF S v old(1) la] by linarith
    then show ?thesis using applies_ok[OF pl follows(9) old(2) ci'(2) _ ci'(1) stay] by blast
  next
    case (counts p r b m)
    from counts(10) show ?thesis
    proof
      assume "commitIndex (nodes C' v) = commitIndex (nodes C v) \<and> sm (nodes C' v) = sm (nodes C v)"
      then show ?thesis by (intro same) simp_all
    next
      assume "commitIndex (nodes C v) < commitIndex (nodes C' v) \<and>
        committable (nodes C' v) (commitIndex (nodes C' v)) \<and> applies (nodes C v) (nodes C' v)"
      then show ?thesis using applies_ok[OF pl _ old(2) ci'(2) _ ci'(1) stay] by simp
    qed
  qed
qed

lemma commit_step:
  assumes I: "cluster_inv C" and L: "line_inv C" and V: "safety_inv C" and K: "commit_inv C"
    and st: "step_if timely C C'" and Q: "quiet C'"
  shows "commit_inv C'"
proof -
  have step: "step C C'" by (rule step_if_mono[OF st]) simp
  obtain u n where S: "safe_step C C' u n" by (rule safety_step[OF I L V step Q])
  note fr = safe_frame[OF S]
  have A: "acks_ok C" using V by (simp add: safety_inv_def)
  have ch: "cchange C v (nodes C' v)" if "v \<in> set (urls C)" for v by (rule step_cchange[OF I L A st Q that])
  have ok: "commit_ok C' v" if "v \<in> set (urls C)" for v by (rule commit_kept[OF S Q K ch that])
  have ap: "applied_ok (nodes C' v)" if "v \<in> set (urls C)" for v
    by (rule applied_kept[OF S Q K ch[OF that] that ok[OF that]])
  have "calls_commit C'" using K fr(1) ok by (intro calls_commit_kept[OF S]) (simp_all add: commit_inv_def)
  moreover have "match_ok C'" using K by (intro match_kept[OF S _ ch]) (simp_all add: commit_inv_def)
  ultimately show ?thesis using ok ap fr(2) by (simp add: commit_inv_def)
qed

lemma initial_commit_inv:
  assumes "initial C"
  shows "commit_inv C"
proof -
  have "commit_ok C u \<and> applied_ok (nodes C u) \<and> role (nodes C u) = FOLLOWER" if "u \<in> set (urls C)" for u
  proof -
    have "started_fresh (nodes C u)" using assms that by (simp add: initial_def list_all_iff)
    then obtain rid ps cfg mx t x where n: "nodes C u = start (new_node rid ps cfg fresh_db (new_state_machine mx) t x)"
      unfolding started_fresh_def by blast
    have "commitIndex (nodes C u) = -1" "sm (nodes C u) = new_state_machine mx"
      unfolding n by (simp_all add: start_def Let_def node_frame new_node_def loadLatestSnapshot_def fresh_db_def)
    then show ?thesis
      using start_fresh(1)[of rid ps cfg mx t x]
      by (simp add: commit_ok_def committed_def secured_def applied_ok_def n) (simp add: new_state_machine_def)
  qed
  moreover have "calls C = {}" using assms by (simp add: initial_def)
  ultimately show ?thesis by (simp add: commit_inv_def calls_commit_def match_ok_def append_call_def)
qed

lemma timely_reachable: "reachable_if timely C \<Longrightarrow> reachable C"
  by (erule reachable_if_mono) simp

lemma reachable_commit: "reachable_if timely C \<Longrightarrow> quiet C \<Longrightarrow> commit_inv C"
proof (induction rule: reachable_if.induct)
  case (reach_step C C')
  have step: "step C C'" by (rule step_if_mono[OF reach_step.hyps(2)]) simp
  have r: "reachable C" by (rule timely_reachable[OF reach_step.hyps(1)])
  have q: "quiet C" by (rule snapshots_back[OF step reach_step.prems reachable_inv[OF r]])
  show ?case
    by (rule commit_step[OF reachable_inv[OF r] reachable_line_inv[OF r q] reachable_safety[OF r q]
        reach_step.IH[OF q] reach_step.hyps(2) reach_step.prems])
qed (rule initial_commit_inv)

text \<open>Runs in which a leader takes answers in time.\<close>

abbreviation runs :: "cluster \<Rightarrow> cluster \<Rightarrow> bool" where
  "runs \<equiv> (step_if timely)\<^sup>*\<^sup>*"

lemma reachable_runs: "runs C C' \<Longrightarrow> reachable_if timely C \<Longrightarrow> reachable_if timely C'"
  by (induction rule: rtranclp_induct) (auto intro: reach_step)

subsection \<open>What two nodes have committed\<close>

lemma commits_comparable:
  assumes "line_inv C" "safety_inv C" "secured C t m" "secured C t' m'"
  shows "prefix m m' \<or> prefix m' m"
proof (cases "m = [] \<or> m' = []")
  case False
  then obtain l l' where l: "chosen C l" "prefix m l" "chosen C l'" "prefix m' l'"
    using assms(3,4) by (auto simp: secured_def)
  then have lines: "l \<in> leader_logs C" "l' \<in> leader_logs C" by (simp_all add: chosen_def)
  have "prefix l l' \<or> prefix l' l"
  proof (cases "last_term l \<le> last_term l'")
    case True
    from chosen_covers[OF assms(1,2) l(1) lines(2) this] show ?thesis by blast
  next
    case False
    then have "last_term l' \<le> last_term l" by simp
    from chosen_covers[OF assms(1,2) l(3) lines(1) this] show ?thesis by blast
  qed
  with l(2,4) show ?thesis using prefix_same_cases prefix_order.trans by blast
qed auto

lemma committed_length:
  "commit_ok C v \<Longrightarrow> length (committed (nodes C v)) = nat (commitIndex (nodes C v) + 1)"
  by (auto simp: commit_ok_def committed_def)

lemma committed_take:
  assumes "i \<le> commitIndex n"
  shows "take (nat (i + 1)) (log_entries (db n)) = take (nat (i + 1)) (committed n)"
proof -
  have "nat (i + 1) \<le> nat (commitIndex n + 1)" using assms by simp
  then show ?thesis by (simp only: committed_def take_take min.absorb1)
qed

text \<open>Up to an index that both have committed, two logs are the same.\<close>

lemma common_take:
  assumes C: "reachable_if timely C" "quiet C" and uv: "u \<in> set (urls C)" "v \<in> set (urls C)"
    and i: "i \<le> commitIndex (nodes C u)" "i \<le> commitIndex (nodes C v)"
  shows "take (nat (i + 1)) (log_of C u) = take (nat (i + 1)) (log_of C v)"
proof -
  have r: "reachable C" by (rule timely_reachable[OF C(1)])
  have ok: "commit_ok C u" "commit_ok C v" using reachable_commit[OF C] uv by (simp_all add: commit_inv_def)
  have cmp: "prefix (committed (nodes C u)) (committed (nodes C v)) \<or>
      prefix (committed (nodes C v)) (committed (nodes C u))"
    using ok commits_comparable[OF reachable_line_inv[OF r C(2)] reachable_safety[OF r C(2)]]
    unfolding commit_ok_def by blast
  have len: "nat (i + 1) \<le> length (committed (nodes C u))" "nat (i + 1) \<le> length (committed (nodes C v))"
    using i by (simp_all add: committed_length[OF ok(1)] committed_length[OF ok(2)])
  from cmp have "take (nat (i + 1)) (committed (nodes C u)) = take (nat (i + 1)) (committed (nodes C v))"
    using len by (auto simp: prefix_def)
  then show ?thesis by (simp only: committed_take[OF i(1)] committed_take[OF i(2)])
qed

lemma entry_of_take:
  assumes "plain (db n)" "plain (db m)" "0 \<le> i" "i < int (length (log_entries (db n)))"
    and t: "take (nat (i + 1)) (log_entries (db m)) = take (nat (i + 1)) (log_entries (db n))"
  shows "getEntry (db m) i = getEntry (db n) i" "getEntry (db n) i \<noteq> None"
proof -
  have k: "nat (i + 1) = Suc (nat i)" using assms(3) by simp
  have lt: "nat i < length (log_entries (db n))" using assms(3,4) by linarith
  have "length (take (Suc (nat i)) (log_entries (db m))) = Suc (nat i)" using t lt unfolding k by simp
  then have lm: "nat i < length (log_entries (db m))" by simp
  have "take (Suc (nat i)) (log_entries (db m)) ! nat i = take (Suc (nat i)) (log_entries (db n)) ! nat i"
    using t unfolding k by (rule arg_cong)
  then have e: "log_entries (db m) ! nat i = log_entries (db n) ! nat i" by simp
  have "i < int (length (log_entries (db m)))" using lm by linarith
  with e assms(3,4) show "getEntry (db m) i = getEntry (db n) i" "getEntry (db n) i \<noteq> None"
    by (simp_all add: plain_facts(7)[OF assms(1)] plain_facts(7)[OF assms(2)])
qed

text \<open>Along a run what a node has committed stays secured and in its log.\<close>

lemma run_keeps:
  assumes "runs C D" "reachable_if timely C" "quiet D" "u \<in> set (urls C)"
  shows "quiet C \<and> urls D = urls C \<and> currentTerm (nodes C u) \<le> currentTerm (nodes D u) \<and>
    secured D (currentTerm (nodes C u)) (committed (nodes C u)) \<and> prefix (committed (nodes C u)) (log_of D u)"
  using assms
proof (induction rule: rtranclp_induct)
  case base
  then have "commit_ok C u" using reachable_commit by (simp add: commit_inv_def)
  with base show ?case by (simp add: commit_ok_def committed_def take_is_prefix)
next
  case (step D E)
  have R: "reachable_if timely D" by (rule reachable_runs[OF step.hyps(1) step.prems(1)])
  have r: "reachable D" by (rule timely_reachable[OF R])
  have st: "step D E" by (rule step_if_mono[OF step.hyps(2)]) simp
  have q: "quiet D" by (rule snapshots_back[OF st step.prems(2) reachable_inv[OF r]])
  note IH = step.IH[OF step.prems(1) q step.prems(3)]
  obtain w n where S: "safe_step D E w n"
    by (rule safety_step[OF reachable_inv[OF r] reachable_line_inv[OF r q] reachable_safety[OF r q] st step.prems(2)])
  note fr = safe_frame[OF S]
  have t: "currentTerm (nodes D u) \<le> currentTerm (nodes E u)" by (rule fr(9))
  have "secured D (currentTerm (nodes D u)) (committed (nodes C u))" using IH unfolding secured_def by force
  then have "prefix (committed (nodes C u)) (log_of E u)" using IH by (intro prefix_kept[OF S]) simp_all
  moreover have "secured E (currentTerm (nodes C u)) (committed (nodes C u))"
    using IH secured_mono[OF S _ order_refl] by blast
  ultimately show ?case using IH t fr(2) by simp
qed

text \<open>A log that begins with what a node has committed holds the node's committed entries.\<close>

lemma entry_of_committed:
  assumes pl: "plain (db n)" "plain (db m)" and len: "length (committed n) = nat (commitIndex n + 1)"
    and p: "prefix (committed n) (log_entries (db m))" and i: "0 \<le> i" "i \<le> commitIndex n"
  shows "getEntry (db m) i = getEntry (db n) i" "getEntry (db n) i \<noteq> None"
proof -
  have l: "nat (i + 1) \<le> length (committed n)" using i len by simp
  with p have "take (nat (i + 1)) (log_entries (db m)) = take (nat (i + 1)) (committed n)" by (auto simp: prefix_def)
  then have t: "take (nat (i + 1)) (log_entries (db m)) = take (nat (i + 1)) (log_entries (db n))"
    by (simp only: committed_take[OF i(2)])
  have "length (committed n) \<le> length (log_entries (db n))" by (simp add: committed_def)
  with l i(1) have "i < int (length (log_entries (db n)))" by linarith
  from entry_of_take[OF pl i(1) this t] show "getEntry (db m) i = getEntry (db n) i" "getEntry (db n) i \<noteq> None" .
qed

lemma applied_canvas:
  assumes "reachable_if timely C" "quiet C" "u \<in> set (urls C)"
  shows "lastApplied (sm (nodes C u)) = commitIndex (nodes C u)"
    and "sm (nodes C u) = apply_log (getRange (db (nodes C u)) 0 (commitIndex (nodes C u)))
       (new_state_machine (dedupeMaxClients (sm (nodes C u))))"
    and "getRange (db (nodes C u)) 0 (commitIndex (nodes C u)) = committed (nodes C u)"
proof -
  note r = timely_reachable[OF assms(1)]
  let ?d = "db (nodes C u)" and ?i = "commitIndex (nodes C u)"
  have ok: "applied_ok (nodes C u)" "commit_ok C u" using reachable_commit[OF assms(1,2)] assms(3) by (simp_all add: commit_inv_def)
  then show la: "lastApplied (sm (nodes C u)) = ?i" by (simp add: applied_ok_def)
  have "positions (log_entries ?d)"
    using held_plain[OF reachable_inv[OF r] reachable_line_inv[OF r assms(2)] assms(2,3)] by (simp add: plain_def)
  then have t: "getRange ?d 0 ?i = take (nat (?i + 1)) (log_entries ?d)"
    using range_take[of ?d 0 ?i] ok(2) by (simp add: commit_ok_def)
  then show "getRange ?d 0 ?i = committed (nodes C u)" by (simp add: committed_def)
  with t ok(1) la show "sm (nodes C u) = apply_log (getRange ?d 0 ?i) (new_state_machine (dedupeMaxClients (sm (nodes C u))))"
    unfolding applied_ok_def by metis
qed

text \<open>What a replica shows is what its committed entries make of an empty canvas.\<close>

lemma board_of_committed:
  assumes "reachable_if timely C" "quiet C" "u \<in> set (urls C)"
  defines "n \<equiv> nodes C u"
  shows "sm n = apply_log (committed n) (new_state_machine (dedupeMaxClients (sm n)))"
    and "sorted_wrt (<) (map e_index (committed n))" "\<forall>e \<in> set (committed n). 0 \<le> e_index e"
    and "set (committed n) \<subseteq> created C"
proof -
  have r: "reachable C" by (rule timely_reachable[OF assms(1)])
  have I: "cluster_inv C" by (rule reachable_inv[OF r])
  have pl: "plain (db n)"
    unfolding n_def by (rule held_plain[OF I reachable_line_inv[OF r assms(2)] assms(2,3)])
  have "applied_ok n" using reachable_commit[OF assms(1,2)] assms(3) by (simp add: commit_inv_def n_def)
  then show "sm n = apply_log (committed n) (new_state_machine (dedupeMaxClients (sm n)))"
    unfolding applied_ok_def committed_def by metis
  have pos: "positions (committed n)" using pl by (simp add: committed_def plain_def)
  then show "\<forall>e \<in> set (committed n). 0 \<le> e_index e" by (auto simp: positions_def in_set_conv_nth)
  from pos show "sorted_wrt (<) (map e_index (committed n))" by (rule positions_sorted)
  have "set (committed n) \<subseteq> set (log_entries (db n))" by (simp add: committed_def set_take_subset)
  with I assms(3) show "set (committed n) \<subseteq> created C"
    unfolding cluster_inv_def entry_inv_def n_def by blast
qed

lemma strokes_grow: "\<exists>zs. strokes (apply_log es s) = strokes s @ zs"
proof (induction es arbitrary: s)
  case (Cons e es)
  have "\<exists>ys. strokes (apply_entry e s) = strokes s @ ys"
    by (auto simp: apply_entry_def sm_simps split: option.split)
  with Cons[of "apply_entry e s"] show ?case by auto
qed simp

subsection \<open>Properties\<close>

text \<open>
  C2: state machine safety. As long as no node has taken a snapshot and a leader takes an answer only
  in the term of its call, an entry that one node has committed is in its log, and any other node
  that has committed that index has the same entry there.
\<close>

theorem state_machine_safety:
  assumes "reachable_if timely C" "quiet C" "u \<in> set (urls C)" "v \<in> set (urls C)"
    and "0 \<le> i" "i \<le> commitIndex (nodes C u)"
  shows "getEntry (db (nodes C u)) i \<noteq> None
       \<and> (i \<le> commitIndex (nodes C v) \<longrightarrow> getEntry (db (nodes C v)) i = getEntry (db (nodes C u)) i)"
proof -
  have r: "reachable C" by (rule timely_reachable[OF assms(1)])
  note pl = held_plain[OF reachable_inv[OF r] reachable_line_inv[OF r assms(2)] assms(2)]
  have "commit_ok C u" using reachable_commit[OF assms(1,2)] assms(3) by (simp add: commit_inv_def)
  then have lt: "i < int (length (log_of C u))" using assms(6) by (simp add: commit_ok_def)
  note e = entry_of_take[OF pl[OF assms(3)] pl assms(5) lt]
  from e(2)[OF assms(3) refl] e(1)[OF assms(4)] common_take[OF assms(1,2,4,3) _ assms(6)]
  show ?thesis by blast
qed

theorem state_machine_safety_witness:
  "getEntry (db (nodes cluster8 ''a'')) 1 \<noteq> None \<and>
   getEntry (db (nodes cluster8 ''b'')) 1 = getEntry (db (nodes cluster8 ''a'')) 1"
  using state_machine_safety[OF demo_longer_reachable(4) demo_longer_quiet(2), of "''a''" "''b''" 1]
  by (simp add: demo_longer_frame(1) demo_longer_facts(4,5))

text \<open>
  C3: leader completeness. Take a run in which no node has taken a snapshot so far and every leader takes the
  answer to a replication call only while it is in the term of that call. An entry up to the commit index of
  any node, leader or not, is from then on in the log of every leader of the node's term or a later one, with
  the same term and payload, whatever elections, losses and crashes follow.
\<close>

theorem leader_completeness:
  assumes "reachable_if timely C" "runs C D" "quiet D" "u \<in> set (urls C)" "v \<in> set (urls C)"
    and "0 \<le> i" "i \<le> commitIndex (nodes C u)"
    and "role (nodes D v) = LEADER" "currentTerm (nodes C u) \<le> currentTerm (nodes D v)"
  shows "getEntry (db (nodes C u)) i \<noteq> None \<and> getEntry (db (nodes D v)) i = getEntry (db (nodes C u)) i"
proof -
  note K = run_keeps[OF assms(2,1,3,4)]
  note rC = timely_reachable[OF assms(1)] and rD = timely_reachable[OF reachable_runs[OF assms(2,1)]]
  have qC: "quiet C" and uD: "urls D = urls C" using K by simp_all
  have ok: "commit_ok C u" using reachable_commit[OF assms(1) qC] assms(4) by (simp add: commit_inv_def)
  note len = committed_length[OF ok]
  have vD: "v \<in> set (urls D)" using assms(5) uD by simp
  note LD = reachable_line_inv[OF rD assms(3)] and VD = reachable_safety[OF rD assms(3)]
  have "committed (nodes C u) \<noteq> []" using len assms(6,7) by auto
  then obtain l where l: "chosen D l" "last_term l \<le> currentTerm (nodes C u)" "prefix (committed (nodes C u)) l"
    using K by (auto simp: secured_def)
  have "prefix l (log_of D v)" using l(2) assms(8,9) by (intro chosen_leader[OF LD VD l(1) vD]) simp_all
  with l(3) have p: "prefix (committed (nodes C u)) (log_of D v)" by (rule prefix_order.trans)
  have pl: "plain (db (nodes C u))" "plain (db (nodes D v))"
    by (rule held_plain[OF reachable_inv[OF rC] reachable_line_inv[OF rC qC] qC assms(4)],
        rule held_plain[OF reachable_inv[OF rD] LD assms(3) vD])
  from entry_of_committed[OF pl len p assms(6,7)] show ?thesis by blast
qed

theorem leader_completeness_witness:
  "getEntry (db (nodes cluster8 ''a'')) 1 \<noteq> None \<and>
   getEntry (db (nodes cluster8 ''a'')) 1 = getEntry (db (nodes cluster6 ''a'')) 1"
proof -
  have "runs cluster6 cluster8" using demo_longer_reachable(5,9) by (meson r_into_rtranclp rtranclp_trans)
  moreover have "''a'' \<in> set (urls cluster6)" using demo_longer_frame(1) by (simp add: cluster8_def cluster7_def)
  moreover have "currentTerm (nodes cluster6 ''a'') \<le> currentTerm (nodes cluster8 ''a'')" by code_simp
  ultimately show ?thesis
    using leader_completeness[OF demo_longer_reachable(2) _ demo_longer_quiet(2), of "''a''" "''a''" 1]
      demo_commit_facts demo_longer_facts(1) by simp
qed

text \<open>
  C5: what is committed stays. Take a run in which no node has taken a snapshot so far and every leader takes the
  answer to a replication call only while it is in the term of that call. An entry up to a node's commit index is
  in that node's own log and stays there, unchanged, in every later state of the run: over deliveries, elections,
  and the node's own crashes and restarts, which set its commit index back.
\<close>

theorem committed_stays:
  assumes "reachable_if timely C" "runs C D" "quiet D" "u \<in> set (urls C)"
    and "0 \<le> i" "i \<le> commitIndex (nodes C u)"
  shows "getEntry (db (nodes C u)) i \<noteq> None \<and> getEntry (db (nodes D u)) i = getEntry (db (nodes C u)) i"
proof -
  note K = run_keeps[OF assms(2,1,3,4)]
  note rC = timely_reachable[OF assms(1)] and rD = timely_reachable[OF reachable_runs[OF assms(2,1)]]
  have qC: "quiet C" and uD: "u \<in> set (urls D)" using K assms(4) by simp_all
  have ok: "commit_ok C u" using reachable_commit[OF assms(1) qC] assms(4) by (simp add: commit_inv_def)
  have pl: "plain (db (nodes C u))" "plain (db (nodes D u))"
    by (rule held_plain[OF reachable_inv[OF rC] reachable_line_inv[OF rC qC] qC assms(4)],
        rule held_plain[OF reachable_inv[OF rD] reachable_line_inv[OF rD assms(3)] assms(3) uD])
  from entry_of_committed[OF pl committed_length[OF ok] _ assms(5,6)] K show ?thesis by blast
qed

theorem committed_stays_witness:
  "getEntry (db (nodes cluster6 ''a'')) 1 \<noteq> None \<and>
   getEntry (db (nodes cluster8 ''a'')) 1 = getEntry (db (nodes cluster6 ''a'')) 1"
proof -
  have "runs cluster6 cluster8" using demo_longer_reachable(5,9) by (meson r_into_rtranclp rtranclp_trans)
  moreover have "''a'' \<in> set (urls cluster6)" using demo_longer_frame(1) by (simp add: cluster8_def cluster7_def)
  ultimately show ?thesis
    using committed_stays[OF demo_longer_reachable(2) _ demo_longer_quiet(2), of "''a''" 1] demo_commit_facts by simp
qed

lemma canvases_agree:
  assumes "reachable_if timely C" "quiet C" "u \<in> set (urls C)" "v \<in> set (urls C)"
    and "dedupeMaxClients (sm (nodes C u)) = dedupeMaxClients (sm (nodes C v))"
    and "lastApplied (sm (nodes C u)) \<le> lastApplied (sm (nodes C v))"
  shows "lastApplied (sm (nodes C v)) = commitIndex (nodes C v)
       \<and> (\<exists>es. sm (nodes C v) = apply_log es (sm (nodes C u)))
       \<and> prefix (strokes (sm (nodes C u))) (strokes (sm (nodes C v)))
       \<and> (lastApplied (sm (nodes C u)) = lastApplied (sm (nodes C v)) \<longrightarrow> sm (nodes C u) = sm (nodes C v))"
proof -
  let ?a = "lastApplied (sm (nodes C u))" and ?b = "lastApplied (sm (nodes C v))"
  let ?s = "new_state_machine (dedupeMaxClients (sm (nodes C v)))"
  have ok: "applied_ok (nodes C u)" "applied_ok (nodes C v)"
    using reachable_commit[OF assms(1,2)] assms(3,4) by (simp_all add: commit_inv_def)
  have la: "?a \<le> commitIndex (nodes C u)" "?b \<le> commitIndex (nodes C v)" using ok by (simp_all add: applied_ok_def)
  have t: "take (nat (?a + 1)) (log_of C u) = take (nat (?a + 1)) (log_of C v)"
    by (rule common_take[OF assms(1-4) la(1)]) (use la(2) assms(6) in linarith)
  have su: "sm (nodes C u) = apply_log (take (nat (?a + 1)) (log_of C v)) ?s"
    using ok(1) unfolding applied_ok_def t assms(5) by blast
  have sv: "sm (nodes C v) = apply_log (take (nat (?b + 1)) (log_of C v)) ?s"
    using ok(2) unfolding applied_ok_def by blast
  define k es where "k = nat (?b + 1) - nat (?a + 1)" and "es = take k (drop (nat (?a + 1)) (log_of C v))"
  have "nat (?b + 1) = nat (?a + 1) + k" using assms(6) unfolding k_def by simp
  then have "take (nat (?b + 1)) (log_of C v) = take (nat (?a + 1)) (log_of C v) @ es"
    unfolding es_def by (simp only: take_add)
  then have "sm (nodes C v) = apply_log es (apply_log (take (nat (?a + 1)) (log_of C v)) ?s)"
    using sv by (simp only: apply_log_simps(3))
  then have e: "sm (nodes C v) = apply_log es (sm (nodes C u))"
    by (rule trans) (rule arg_cong[OF su[symmetric]])
  then have "prefix (strokes (sm (nodes C u))) (strokes (sm (nodes C v)))"
    using strokes_grow[of es "sm (nodes C u)"] by (auto simp: prefix_def)
  moreover have "sm (nodes C u) = sm (nodes C v)" if eq: "?a = ?b"
    using trans[OF su[unfolded eq] sv[symmetric]] .
  moreover have "?b = commitIndex (nodes C v)" using ok(2) by (simp add: applied_ok_def)
  ultimately show ?thesis using e by blast
qed

text \<open>
  C9: the canvases agree. Take a run in which no node has taken a snapshot so far and every leader takes the
  answer to a replication call only while it is in the term of that call. Then the state machine of a replica
  is that of the entries of its log from index 0 to its commit index, applied in order to a new state machine.
  Of two replicas whose tables of clients have the same bound, the one that has applied less shows a beginning of the
  other's strokes, and the other is the first with more entries applied; two that have applied as far are in
  the same state, the table of clients included.
\<close>

theorem replicas_agree:
  assumes "reachable_if timely C" "quiet C" "u \<in> set (urls C)" "v \<in> set (urls C)"
    and "dedupeMaxClients (sm (nodes C u)) = dedupeMaxClients (sm (nodes C v))"
    and "lastApplied (sm (nodes C u)) \<le> lastApplied (sm (nodes C v))"
  shows "sm (nodes C u) = apply_log (getRange (db (nodes C u)) 0 (commitIndex (nodes C u)))
            (new_state_machine (dedupeMaxClients (sm (nodes C u))))
       \<and> sm (nodes C v) = apply_log (getRange (db (nodes C v)) 0 (commitIndex (nodes C v)))
            (new_state_machine (dedupeMaxClients (sm (nodes C v))))
       \<and> lastApplied (sm (nodes C v)) = commitIndex (nodes C v)
       \<and> (\<exists>es. sm (nodes C v) = apply_log es (sm (nodes C u)))
       \<and> prefix (strokes (sm (nodes C u))) (strokes (sm (nodes C v)))
       \<and> (lastApplied (sm (nodes C u)) = lastApplied (sm (nodes C v)) \<longrightarrow> sm (nodes C u) = sm (nodes C v))"
  using canvases_agree[OF assms] applied_canvas(2)[OF assms(1,2,3)] applied_canvas(2)[OF assms(1,2,4)] by blast

theorem replicas_agree_witness:
  "strokes (sm (nodes cluster8 ''b'')) = strokes (sm (nodes cluster8 ''a'')) \<and>
   strokes (sm (nodes cluster8 ''a'')) = [stroke_of demo_stroke]"
proof -
  have a: "sm (nodes cluster8 ''a'') = sm (nodes cluster6 ''a'')" by (simp add: demo_longer_frame(2,3) node_frame)
  have "lastApplied (sm (nodes cluster6 ''a'')) = 1" "dedupeMaxClients (sm (nodes cluster6 ''a'')) = 10"
    "strokes (sm (nodes cluster6 ''a'')) = [stroke_of demo_stroke]" by code_simp+
  moreover have "lastApplied (sm (nodes cluster8 ''b'')) = 1" "dedupeMaxClients (sm (nodes cluster8 ''b'')) = 10"
    unfolding demo_longer_frame(4) by code_simp+
  ultimately have l: "lastApplied (sm (nodes cluster8 ''b'')) = lastApplied (sm (nodes cluster8 ''a''))"
    and d: "dedupeMaxClients (sm (nodes cluster8 ''b'')) = dedupeMaxClients (sm (nodes cluster8 ''a''))"
    and t: "strokes (sm (nodes cluster8 ''a'')) = [stroke_of demo_stroke]" by (simp_all only: a)
  have u: "''b'' \<in> set (urls cluster8)" "''a'' \<in> set (urls cluster8)" by (simp_all add: demo_longer_frame(1))
  have "sm (nodes cluster8 ''b'') = sm (nodes cluster8 ''a'')"
    by (rule replicas_agree[OF demo_longer_reachable(4) demo_longer_quiet(2) u d eq_refl[OF l],
          THEN conjunct2, THEN conjunct2, THEN conjunct2, THEN conjunct2, THEN conjunct2, THEN mp, OF l])
  then show ?thesis using t by (simp only: simp_thms)
qed

end
