(* ===== verification/Smoke_Test.thy ===== *)
theory Smoke_Test imports Commit_Safety begin

text \<open>
  The smoke test (\<open>replicas/smoketest.js\<close>): three nodes in one process, joined by a transport that
  calls the handlers of the other nodes directly. It is the program without a network: calls are not
  lost, and are handled in the order they are made.

  One turn of the event loop is a function here. A timer or a client's call runs a method of one node;
  the calls it makes are handled at once, in order, and their answers come back to it in that order
  before the next turn. The nodes stand in \<open>registry\<close>, the map from URLs that the test keeps. Shown
  here: a run of the test is a run of \<open>Cluster\<close> in which answers are taken in time, so that its
  safety properties hold of the test, and the test never reports a divergence.
\<close>

subsection \<open>The transport\<close>

text \<open>
  A member of the registry: the node and whether its file is open. A node whose file is closed throws at
  its first use, so its caller gets a failure; the test does not look at it again.
\<close>

record smoke_rec =
  rec_node :: node
  rec_open :: bool

type_synonym registry = "(string, smoke_rec) jsmap"

datatype rpc_answer =
    VoteAnswer vote_reply
  | AppendAnswer append_reply

text \<open>The endpoint by the path of the call; there is none for snapshots.\<close>

definition route_call :: "call \<Rightarrow> node \<Rightarrow> node \<times> rpc_answer option" where
  "route_call c n =
     (case c of
        VoteCall r \<Rightarrow> (fst (handleRequestVote r n), Some (VoteAnswer (snd (handleRequestVote r n))))
      | AppendCall r \<Rightarrow> (fst (handleAppendEntries r n), Some (AppendAnswer (snd (handleAppendEntries r n))))
      | ReadCall r \<Rightarrow> (fst (handleAppendEntries r n), Some (AppendAnswer (snd (handleAppendEntries r n))))
      | SnapshotCall r \<Rightarrow> (n, None))"

definition fake_call :: "string \<Rightarrow> call \<Rightarrow> registry \<Rightarrow> registry \<times> rpc_answer option" where
  "fake_call peerUrl c reg =
     (case map_get reg peerUrl of
        None \<Rightarrow> (reg, None)
      | Some target \<Rightarrow>
          if rec_open target
          then (map_set peerUrl (target\<lparr>rec_node := fst (route_call c (rec_node target))\<rparr>) reg,
                snd (route_call c (rec_node target)))
          else (reg, None))"

text \<open>Calls in the order they are made, as by \<open>broadcast\<close> or by the loop over the peers.\<close>

fun fake_calls :: "(string \<times> call) list \<Rightarrow> registry \<Rightarrow> registry \<times> (string \<times> call \<times> rpc_answer option) list" where
  "fake_calls [] reg = (reg, [])"
| "fake_calls ((p, c) # pcs) reg =
     (let (reg1, a) = fake_call p c reg;
          (reg2, as) = fake_calls pcs reg1
      in (reg2, (p, c, a) # as))"

subsection \<open>Turns\<close>

text \<open>Node \<open>u\<close> runs \<open>f\<close>; the calls it adds to its outbox are made.\<close>

definition run_at :: "string \<Rightarrow> (node \<Rightarrow> node) \<Rightarrow> registry \<Rightarrow> registry \<times> (string \<times> call \<times> rpc_answer option) list" where
  "run_at u f reg =
     (case map_get reg u of
        None \<Rightarrow> (reg, [])
      | Some t \<Rightarrow>
          (let n = rec_node t; n' = f n
           in fake_calls (drop (length (outbox n)) (outbox n')) (map_set u (t\<lparr>rec_node := n'\<rparr>) reg)))"

text \<open>An answer continues \<open>_sendAppendEntriesTo\<close> at the caller.\<close>

definition answer_to :: "string \<Rightarrow> string \<times> call \<times> rpc_answer option \<Rightarrow> registry \<Rightarrow> registry" where
  "answer_to u x reg =
     (case x of
        (p, AppendCall r, Some (AppendAnswer b)) \<Rightarrow>
          (case map_get reg u of
             None \<Rightarrow> reg
           | Some t \<Rightarrow> map_set u (t\<lparr>rec_node := appendReply p r b (rec_node t)\<rparr>) reg)
      | _ \<Rightarrow> reg)"

definition settle :: "string \<Rightarrow> registry \<times> (string \<times> call \<times> rpc_answer option) list \<Rightarrow> registry" where
  "settle u ra = fold (answer_to u) (snd ra) (fst ra)"

definition vote_of :: "string \<times> call \<times> rpc_answer option \<Rightarrow> vote_reply option" where
  "vote_of x = (case x of (p, c, Some (VoteAnswer b)) \<Rightarrow> Some b | _ \<Rightarrow> None)"

text \<open>
  What can happen while the test waits: the clock and the random numbers of a node, the election timer of
  a node (with the continuation of \<open>_startElection\<close> after its broadcast), a leader's heartbeat timer.
\<close>

datatype smoke_event =
    ClockTick string int int
  | ElectionTimeout string
  | HeartbeatTick string

definition smoke_election :: "string \<Rightarrow> registry \<Rightarrow> registry" where
  "smoke_election u reg =
     (case map_get reg u of
        None \<Rightarrow> reg
      | Some t \<Rightarrow>
          if electionTimer (rec_node t) = None then reg
          else
            (let (reg1, as) = run_at u startElection reg
             in settle u (run_at u (electionResults (currentTerm (startElection (rec_node t))) (map vote_of as)) reg1)))"

definition smoke_heartbeat :: "string \<Rightarrow> registry \<Rightarrow> registry" where
  "smoke_heartbeat u reg =
     (case map_get reg u of
        None \<Rightarrow> reg
      | Some t \<Rightarrow>
          if heartbeatTimer (rec_node t) = None then reg
          else settle u (run_at u sendAppendEntriesToAll reg))"

definition smoke_submit :: "string \<Rightarrow> payload \<Rightarrow> registry \<Rightarrow> registry" where
  "smoke_submit u p reg = settle u (run_at u (\<lambda>n. fst (submit_begin STROKE (Some p) n)) reg)"

fun smoke_turn :: "smoke_event \<Rightarrow> registry \<Rightarrow> registry" where
  "smoke_turn (ClockTick u t x) reg = fst (run_at u (\<lambda>n. n\<lparr>now := t, rnd := x\<rparr>) reg)"
| "smoke_turn (ElectionTimeout u) reg = smoke_election u reg"
| "smoke_turn (HeartbeatTick u) reg = smoke_heartbeat u reg"

subsection \<open>The test\<close>

definition mem :: "string \<Rightarrow> string" where
  "mem i = ''mem://'' @ i"

definition smoke_ids :: "string list" where
  "smoke_ids = [''A'', ''B'', ''C'']"

definition smoke_peers :: "string \<Rightarrow> string list" where
  "smoke_peers i = filter (\<lambda>x. x \<noteq> i) smoke_ids"

text \<open>\<open>makeNode\<close> on the file \<open>f\<close> that \<open>dataDir\<close> has for the node, at time \<open>t\<close>.\<close>

definition make_node :: "string \<Rightarrow> string list \<Rightarrow> db option \<Rightarrow> int \<Rightarrow> int \<Rightarrow> registry \<Rightarrow> registry" where
  "make_node i peerIds f t x reg =
     map_set (mem i)
       \<lparr>rec_node = new_node i (map mem peerIds) default_config (open_db f) (new_state_machine 10000) t x,
        rec_open = True\<rparr> reg"

definition start_node :: "string \<Rightarrow> registry \<Rightarrow> registry" where
  "start_node i reg = fst (run_at (mem i) start reg)"

text \<open>The data directory is emptied first, the three nodes are made and started.\<close>

definition smoke_boot :: "(string \<Rightarrow> int) \<Rightarrow> (string \<Rightarrow> int) \<Rightarrow> registry" where
  "smoke_boot t x =
     fold start_node smoke_ids
       (fold (\<lambda>i. make_node i (smoke_peers i) None (t i) (x i)) smoke_ids [])"

text \<open>
  \<open>waitForLeader\<close> and \<open>waitUntil\<close>: look, and sleep while events happen, as often as the time allows;
  the list has the events of each sleep.
\<close>

fun poll_for :: "(registry \<Rightarrow> 'a option) \<Rightarrow> smoke_event list list \<Rightarrow> registry \<Rightarrow> ('a \<times> registry) option" where
  "poll_for look [] reg = None"
| "poll_for look (evs # sleeps) reg =
     (case look reg of
        Some a \<Rightarrow> Some (a, reg)
      | None \<Rightarrow> poll_for look sleeps (fold smoke_turn evs reg))"

definition rec_of :: "registry \<Rightarrow> string \<Rightarrow> node option" where
  "rec_of reg i = map_option rec_node (map_get reg (mem i))"

definition has_role :: "role \<Rightarrow> registry \<Rightarrow> string \<Rightarrow> bool" where
  "has_role r reg i = (case rec_of reg i of Some n \<Rightarrow> role n = r | None \<Rightarrow> False)"

definition wait_for_leader :: "smoke_event list list \<Rightarrow> registry \<Rightarrow> (string \<times> registry) option" where
  "wait_for_leader = poll_for (\<lambda>reg. find (has_role LEADER reg) smoke_ids)"

definition strokes_at :: "registry \<Rightarrow> string \<Rightarrow> jobj list" where
  "strokes_at reg i = (case rec_of reg i of Some n \<Rightarrow> strokes (sm n) | None \<Rightarrow> [])"

definition wait_until :: "(registry \<Rightarrow> bool) \<Rightarrow> smoke_event list list \<Rightarrow> registry \<Rightarrow> registry option" where
  "wait_until cond sleeps reg = map_option snd (poll_for (\<lambda>reg. if cond reg then Some () else None) sleeps reg)"

text \<open>
  \<open>await submit(...)\<close>: the promise resolves once the commit index has reached the entry; the model
  looks after each turn.
\<close>

definition reached :: "string \<Rightarrow> int \<Rightarrow> registry \<Rightarrow> bool" where
  "reached u i reg = (case map_get reg u of Some t \<Rightarrow> i \<le> commitIndex (rec_node t) | None \<Rightarrow> False)"

definition submit_and_wait :: "string \<Rightarrow> payload \<Rightarrow> smoke_event list list \<Rightarrow> registry \<Rightarrow> registry option" where
  "submit_and_wait u p sleeps reg =
     (case map_get reg u of
        None \<Rightarrow> None
      | Some t \<Rightarrow>
          (case snd (submit_begin STROKE (Some p) (rec_node t)) of
             Refused e \<Rightarrow> None
           | Cached r \<Rightarrow> Some reg
           | Appended e \<Rightarrow> wait_until (reached u (e_index e)) sleeps (smoke_submit u p reg)))"

fun submit_all :: "string \<Rightarrow> (payload \<times> smoke_event list list) list \<Rightarrow> registry \<Rightarrow> registry option" where
  "submit_all u [] reg = Some reg"
| "submit_all u ((p, sleeps) # ps) reg =
     (case submit_and_wait u p sleeps reg of None \<Rightarrow> None | Some reg' \<Rightarrow> submit_all u ps reg')"

definition smoke_payload :: "int \<Rightarrow> int \<Rightarrow> string \<Rightarrow> int \<Rightarrow> payload" where
  "smoke_payload a i col width =
     \<lparr>p_clientId = None, p_seq = None,
      p_fields = [(''x1'', JInt (a + i)), (''y1'', JInt (a + i)), (''x2'', JInt (a + i + 1)), (''y2'', JInt (a + i + 1)),
        (''color'', JStr col), (''size'', JInt width)]\<rparr>"

definition first_strokes :: "payload list" where
  "first_strokes = map (\<lambda>i. smoke_payload 0 i ''#000'' 3) [0, 1, 2, 3, 4]"

definition more_strokes :: "payload list" where
  "more_strokes = map (\<lambda>i. smoke_payload 100 i ''#f00'' 2) [0, 1]"

text \<open>\<open>follower.node.stop(); follower.persistence.close()\<close>\<close>

definition crash_node :: "string \<Rightarrow> registry \<Rightarrow> registry" where
  "crash_node i reg =
     (case map_get reg (mem i) of
        None \<Rightarrow> reg
      | Some t \<Rightarrow> map_set (mem i) \<lparr>rec_node = stop (rec_node t), rec_open = False\<rparr> reg)"

text \<open>The follower is taken out of the registry, made again from its file and started.\<close>

definition rebuild_node :: "string \<Rightarrow> int \<Rightarrow> int \<Rightarrow> registry \<Rightarrow> registry" where
  "rebuild_node i t x reg =
     start_node i (make_node i (smoke_peers i) (map_option db (rec_of reg i)) t x (map_del (mem i) reg))"

datatype verdict = PASSED | FAILED string

text \<open>
  \<open>main\<close>, over what happens while it waits: for a leader, for each of the strokes, for all nodes to have
  five strokes, for the two strokes after the crash, and for the rebuilt follower.
\<close>

record schedule =
  until_leader :: "smoke_event list list"
  during_first :: "nat \<Rightarrow> smoke_event list list"
  until_applied :: "smoke_event list list"
  during_more :: "nat \<Rightarrow> smoke_event list list"
  rebuilt_at :: "int \<times> int"
  until_caught_up :: "smoke_event list list"

definition with_sleeps :: "(nat \<Rightarrow> smoke_event list list) \<Rightarrow> payload list \<Rightarrow> (payload \<times> smoke_event list list) list" where
  "with_sleeps sleeps ps = map (\<lambda>(k, p). (p, sleeps k)) (enumerate 0 ps)"

definition smoke_catch_up :: "schedule \<Rightarrow> string \<Rightarrow> registry \<Rightarrow> verdict" where
  "smoke_catch_up s leader reg =
     (case find (has_role FOLLOWER reg) smoke_ids of
        None \<Rightarrow> FAILED ''cannot read properties of undefined''
      | Some follower \<Rightarrow>
          (case submit_all (mem leader) (with_sleeps (during_more s) more_strokes) (crash_node follower reg) of
             None \<Rightarrow> FAILED ''submit''
           | Some reg1 \<Rightarrow>
               (case wait_until (\<lambda>reg. length (strokes_at reg follower) = 7) (until_caught_up s)
                       (rebuild_node follower (fst (rebuilt_at s)) (snd (rebuilt_at s)) reg1) of
                  None \<Rightarrow> FAILED ''condition not met within timeout''
                | Some reg2 \<Rightarrow> PASSED)))"

definition smoke_converged :: "schedule \<Rightarrow> string \<Rightarrow> registry \<Rightarrow> verdict" where
  "smoke_converged s leader reg =
     (case find (\<lambda>i. strokes_at reg i \<noteq> strokes_at reg ''A'') smoke_ids of
        Some i \<Rightarrow> FAILED (''DIVERGENCE - '' @ i @ '' differs'')
      | None \<Rightarrow> smoke_catch_up s leader reg)"

definition smoke_main :: "schedule \<Rightarrow> registry \<Rightarrow> verdict" where
  "smoke_main s reg0 =
     (case wait_for_leader (until_leader s) reg0 of
        None \<Rightarrow> FAILED ''no leader elected within timeout''
      | Some (leader, reg1) \<Rightarrow>
          (case submit_all (mem leader) (with_sleeps (during_first s) first_strokes) reg1 of
             None \<Rightarrow> FAILED ''submit''
           | Some reg2 \<Rightarrow>
               (case wait_until (\<lambda>reg. \<forall>i \<in> set smoke_ids. length (strokes_at reg i) = 5) (until_applied s) reg2 of
                  None \<Rightarrow> FAILED ''condition not met within timeout''
                | Some reg3 \<Rightarrow> smoke_converged s leader reg3)))"

subsection \<open>Runs of the cluster\<close>

text \<open>The nodes of the registry are those of the cluster.\<close>

definition mirrors :: "cluster \<Rightarrow> registry \<Rightarrow> bool" where
  "mirrors C reg \<longleftrightarrow> set (urls C) = set (map_keys reg) \<and> (\<forall>u t. map_get reg u = Some t \<longrightarrow> nodes C u = rec_node t)"

lemma map_get_key: "map_get m k = Some v \<Longrightarrow> k \<in> set (map_keys m)"
  by (metis fst_conv image_eqI map_of_SomeD set_map)

lemma keys_set: "map_get m k = Some v \<Longrightarrow> set (map_keys (map_set k w m)) = set (map_keys m)"
  using map_get_key[of m k v] by (auto simp: dom_update)

lemma mirrors_put:
  assumes "mirrors C reg" "map_get reg u = Some t" "rec_node t' = n" "urls C' = urls C" "nodes C' = (nodes C)(u := n)"
  shows "mirrors C' (map_set u t' reg)"
  using assms keys_set[OF assms(2), of t'] by (auto simp: mirrors_def update_conv')

lemma mirrors_same:
  "mirrors C reg \<Longrightarrow> map_get reg u = Some t \<Longrightarrow> rec_node t' = rec_node t \<Longrightarrow> mirrors C (map_set u t' reg)"
  using keys_set[of reg u t t'] by (auto simp: mirrors_def update_conv')

text \<open>What only grows along a run: the calls and the answers.\<close>

definition grows :: "cluster \<Rightarrow> cluster \<Rightarrow> bool" where
  "grows C C' \<longleftrightarrow> runs C C' \<and> calls C \<subseteq> calls C' \<and> vote_answers C \<subseteq> vote_answers C' \<and> append_answers C \<subseteq> append_answers C'"

lemma grows_refl: "grows C C" by (simp add: grows_def)

lemma grows_trans: "grows A B \<Longrightarrow> grows B C \<Longrightarrow> grows A C"
  by (auto simp: grows_def)

definition answered :: "cluster \<Rightarrow> string \<Rightarrow> string \<times> call \<times> rpc_answer option \<Rightarrow> bool" where
  "answered C u x \<longleftrightarrow>
     (case x of
        (p, c, Some (VoteAnswer b)) \<Rightarrow> (\<exists>r. c = VoteCall r \<and> (p, u, r, b) \<in> vote_answers C)
      | (p, c, Some (AppendAnswer b)) \<Rightarrow> (\<exists>r. (c = AppendCall r \<or> c = ReadCall r) \<and> (p, u, r, b) \<in> append_answers C)
      | _ \<Rightarrow> True)"

lemma answered_mono: "grows C C' \<Longrightarrow> answered C u x \<Longrightarrow> answered C' u x"
  by (auto simp: grows_def answered_def split: prod.splits option.splits rpc_answer.splits)

lemma fake_call_run:
  assumes m: "mirrors C reg" and c: "(u, p, c) \<in> calls C"
  shows "\<exists>C'. grows C C' \<and> mirrors C' (fst (fake_call p c reg)) \<and> answered C' u (p, c, snd (fake_call p c reg))"
proof (cases "\<exists>t. map_get reg p = Some t \<and> rec_open t")
  case False
  then have "fst (fake_call p c reg) = reg" "snd (fake_call p c reg) = None"
    by (auto simp: fake_call_def split: option.splits)
  then show ?thesis using m grows_refl by (intro exI[of _ C]) (simp add: answered_def)
next
  case True
  then obtain t where t: "map_get reg p = Some t" "rec_open t" by blast
  have p: "p \<in> set (urls C)" "nodes C p = rec_node t" using m t map_get_key[OF t(1)] by (auto simp: mirrors_def)
  let ?r = "fake_call p c reg"
  have r: "?r = (map_set p (t\<lparr>rec_node := fst (route_call c (rec_node t))\<rparr>) reg, snd (route_call c (rec_node t)))"
    using t by (simp add: fake_call_def)
  have fin: "\<exists>C'. grows C C' \<and> mirrors C' (fst ?r) \<and> answered C' u (p, c, snd ?r)"
    if s: "step_if timely C C'" and f: "urls C' = urls C" "nodes C' = (nodes C)(p := fst (route_call c (rec_node t)))"
      and g: "calls C \<subseteq> calls C'" "vote_answers C \<subseteq> vote_answers C'" "append_answers C \<subseteq> append_answers C'"
      and a: "answered C' u (p, c, snd ?r)" for C'
  proof (intro exI[of _ C'] conjI a)
    show "grows C C'" using s g by (auto simp: grows_def)
    show "mirrors C' (fst ?r)" unfolding r fst_conv by (rule mirrors_put[OF m t(1) _ f]) simp
  qed
  show ?thesis
  proof (cases c)
    case (VoteCall v)
    let ?h = "handleRequestVote v (nodes C p)"
    have "step_if timely C ((put_node p (fst ?h) C)\<lparr>vote_answers := insert (p, u, v, snd ?h) (vote_answers C)\<rparr>)"
      using c VoteCall p(1) by (intro deliver_vote) simp_all
    then show ?thesis by (rule fin) (auto simp: r[unfolded VoteCall] VoteCall route_call_def p(2) answered_def)
  next
    case (AppendCall v)
    let ?h = "handleAppendEntries v (nodes C p)"
    have "step_if timely C ((put_node p (fst ?h) C)\<lparr>append_answers := insert (p, u, v, snd ?h) (append_answers C)\<rparr>)"
      using c AppendCall p(1) by (intro deliver_append[where c = c]) simp_all
    then show ?thesis by (rule fin) (auto simp: r[unfolded AppendCall] AppendCall route_call_def p(2) answered_def)
  next
    case (ReadCall v)
    let ?h = "handleAppendEntries v (nodes C p)"
    have "step_if timely C ((put_node p (fst ?h) C)\<lparr>append_answers := insert (p, u, v, snd ?h) (append_answers C)\<rparr>)"
      using c ReadCall p(1) by (intro deliver_append[where c = c]) simp_all
    then show ?thesis by (rule fin) (auto simp: r[unfolded ReadCall] ReadCall route_call_def p(2) answered_def)
  next
    case (SnapshotCall v)
    have "mirrors C (fst ?r)" unfolding r fst_conv by (rule mirrors_same[OF m t(1)]) (simp add: SnapshotCall route_call_def)
    then show ?thesis using grows_refl by (intro exI[of _ C]) (simp add: r[unfolded SnapshotCall] SnapshotCall route_call_def answered_def)
  qed
qed

lemma fake_call_others:
  "p \<noteq> u \<Longrightarrow> map_get (fst (fake_call p c reg)) u = map_get reg u"
  by (simp add: fake_call_def update_conv' split: option.splits)

lemma fake_calls_Cons [simp]:
  "fake_calls ((p, c) # pcs) reg =
     (fst (fake_calls pcs (fst (fake_call p c reg))),
      (p, c, snd (fake_call p c reg)) # snd (fake_calls pcs (fst (fake_call p c reg))))"
  by (simp add: case_prod_beta Let_def)

declare fake_calls.simps(2) [simp del]

lemma fake_calls_others:
  "u \<notin> fst ` set pcs \<Longrightarrow> map_get (fst (fake_calls pcs reg)) u = map_get reg u"
  by (induction pcs arbitrary: reg) (auto simp: fake_call_others)

lemma fake_calls_answers: "map (\<lambda>(p, c, a). (p, c)) (snd (fake_calls pcs reg)) = pcs"
  by (induction pcs arbitrary: reg) (auto simp: case_prod_beta)

lemma fake_calls_run:
  assumes "mirrors C reg" "\<forall>(p, c) \<in> set pcs. (u, p, c) \<in> calls C"
  shows "\<exists>C'. grows C C' \<and> mirrors C' (fst (fake_calls pcs reg)) \<and> (\<forall>x \<in> set (snd (fake_calls pcs reg)). answered C' u x)"
  using assms
proof (induction pcs arbitrary: C reg)
  case Nil
  then show ?case using grows_refl by auto
next
  case (Cons pc pcs)
  obtain p c where pc: "pc = (p, c)" by fastforce
  let ?reg = "fst (fake_call p c reg)"
  obtain C1 where C1: "grows C C1" "mirrors C1 ?reg" "answered C1 u (p, c, snd (fake_call p c reg))"
    using fake_call_run[OF Cons.prems(1), of u p c] Cons.prems(2) pc by auto
  have "\<forall>(p, c) \<in> set pcs. (u, p, c) \<in> calls C1" using Cons.prems(2) C1(1) by (auto simp: grows_def)
  from Cons.IH[OF C1(2) this] obtain C2 where C2: "grows C1 C2"
      "mirrors C2 (fst (fake_calls pcs ?reg))" "\<forall>x \<in> set (snd (fake_calls pcs ?reg)). answered C2 u x" by blast
  have "answered C2 u (p, c, snd (fake_call p c reg))" by (rule answered_mono[OF C2(1) C1(3)])
  then show ?case
    using grows_trans[OF C1(1) C2(1)] C2(2,3) by (intro exI[of _ C2]) (auto simp: pc)
qed

text \<open>The answers come back in the term of the calls, or to a node that ignores them.\<close>

definition speaks :: "int \<Rightarrow> (string \<times> call) list \<Rightarrow> bool" where
  "speaks t pcs \<longleftrightarrow> (\<forall>p r. (p, AppendCall r) \<in> set pcs \<longrightarrow> ae_term r = t)"

lemma appendReply_term:
  "role (appendReply p r b n) = LEADER \<Longrightarrow> role n = LEADER \<and> currentTerm (appendReply p r b n) = currentTerm n"
  by (auto simp: appendReply_def Let_def node_frame split: if_splits)

lemma answer_run:
  assumes m: "mirrors C reg" and a: "answered C u x" and c: "(u, fst x, fst (snd x)) \<in> calls C"
    and tm: "\<And>t. map_get reg u = Some t \<Longrightarrow> role (rec_node t) = LEADER \<Longrightarrow> currentTerm (rec_node t) = T"
    and sp: "\<And>r. fst (snd x) = AppendCall r \<Longrightarrow> ae_term r = T"
  shows "\<exists>C'. grows C C' \<and> mirrors C' (answer_to u x reg) \<and>
    (\<forall>t. map_get (answer_to u x reg) u = Some t \<longrightarrow> role (rec_node t) = LEADER \<longrightarrow> currentTerm (rec_node t) = T)"
proof (cases "\<exists>p r b t. x = (p, AppendCall r, Some (AppendAnswer b)) \<and> map_get reg u = Some t")
  case False
  then have "answer_to u x reg = reg"
    by (cases x) (auto simp: answer_to_def split: option.splits call.splits rpc_answer.splits)
  then show ?thesis using m tm grows_refl by auto
next
  case True
  then obtain p r b t where x: "x = (p, AppendCall r, Some (AppendAnswer b))" and t: "map_get reg u = Some t" by blast
  let ?n = "rec_node t" and ?n' = "appendReply p r b (rec_node t)"
  have to: "answer_to u x reg = map_set u (t\<lparr>rec_node := ?n'\<rparr>) reg" using t by (simp add: x answer_to_def)
  have u: "u \<in> set (urls C)" "nodes C u = ?n" using m t map_get_key[OF t] by (auto simp: mirrors_def)
  have tm': "currentTerm ?n' = T" if "role ?n' = LEADER"
    using appendReply_term[OF that] tm[OF t] by simp
  have "\<exists>C'. grows C C' \<and> mirrors C' (map_set u (t\<lparr>rec_node := ?n'\<rparr>) reg)"
  proof (cases "role ?n = LEADER")
    case True
    then have "timely r (nodes C u)" using sp tm[OF t] by (simp add: x timely_def u(2))
    moreover have "(p, u, r, b) \<in> append_answers C" using a by (simp add: x answered_def)
    moreover have "(u, p, AppendCall r) \<in> calls C" using c by (simp add: x)
    ultimately have s: "step_if timely C (put_node u (appendReply p r b (nodes C u)) C)"
      using u(1) by (intro append_answer) simp_all
    have "mirrors (put_node u ?n' C) (map_set u (t\<lparr>rec_node := ?n'\<rparr>) reg)"
      by (rule mirrors_put[OF m t]) simp_all
    with s show ?thesis by (intro exI[of _ "put_node u ?n' C"]) (auto simp: grows_def u(2))
  next
    case False
    then have n: "?n' = ?n" by (simp add: appendReply_def)
    have "mirrors C (map_set u (t\<lparr>rec_node := ?n'\<rparr>) reg)" by (rule mirrors_same[OF m t]) (simp add: n)
    then show ?thesis using grows_refl by blast
  qed
  with tm' show ?thesis by (auto simp: to update_conv')
qed

lemma answers_run:
  assumes "mirrors C reg" "\<forall>x \<in> set as. answered C u x \<and> (u, fst x, fst (snd x)) \<in> calls C"
    and "\<And>t. map_get reg u = Some t \<Longrightarrow> role (rec_node t) = LEADER \<Longrightarrow> currentTerm (rec_node t) = T"
    and "\<And>x r. x \<in> set as \<Longrightarrow> fst (snd x) = AppendCall r \<Longrightarrow> ae_term r = T"
  shows "\<exists>C'. grows C C' \<and> mirrors C' (fold (answer_to u) as reg)"
  using assms
proof (induction as arbitrary: C reg)
  case Nil
  then show ?case using grows_refl by auto
next
  case (Cons x as)
  have "\<exists>C'. grows C C' \<and> mirrors C' (answer_to u x reg) \<and>
    (\<forall>t. map_get (answer_to u x reg) u = Some t \<longrightarrow> role (rec_node t) = LEADER \<longrightarrow> currentTerm (rec_node t) = T)"
    by (rule answer_run) (use Cons.prems(1-3) Cons.prems(4)[of x] in auto)
  then obtain C1 where C1: "grows C C1" "mirrors C1 (answer_to u x reg)"
    "\<And>t. map_get (answer_to u x reg) u = Some t \<Longrightarrow> role (rec_node t) = LEADER \<Longrightarrow> currentTerm (rec_node t) = T" by blast
  have sp: "ae_term r = T" if "y \<in> set as" "fst (snd y) = AppendCall r" for y r
    using that Cons.prems(4)[of y r] by simp
  have ok: "\<forall>y \<in> set as. answered C1 u y \<and> (u, fst y, fst (snd y)) \<in> calls C1"
    using Cons.prems(2) C1(1) answered_mono by (fastforce simp: grows_def)
  have "\<exists>C2. grows C1 C2 \<and> mirrors C2 (fold (answer_to u) as (answer_to u x reg))"
    by (rule Cons.IH[OF C1(2) ok]) (use C1(3) sp in blast)+
  with grows_trans[OF C1(1)] show ?case by auto
qed

text \<open>A turn: a step at a node whose calls go to others, and the exchange that follows.\<close>

lemma turn_run:
  assumes m: "mirrors C reg" and t: "map_get reg u = Some t" and s: "step_if timely C (put_node u (f (rec_node t)) C)"
    and sp: "speaks T (drop (length (outbox (rec_node t))) (outbox (f (rec_node t))))"
    and tm: "role (f (rec_node t)) = LEADER \<Longrightarrow> currentTerm (f (rec_node t)) = T"
    and oth: "u \<notin> fst ` set (drop (length (outbox (rec_node t))) (outbox (f (rec_node t))))"
  shows "\<exists>C'. grows C C' \<and> mirrors C' (fst (run_at u f reg)) \<and>
      (\<forall>x \<in> set (snd (run_at u f reg)). answered C' u x \<and> (u, fst x, fst (snd x)) \<in> calls C')"
    and "\<exists>C'. grows C C' \<and> mirrors C' (settle u (run_at u f reg))"
proof -
  let ?n = "f (rec_node t)" and ?pcs = "drop (length (outbox (rec_node t))) (outbox (f (rec_node t)))"
  let ?reg = "map_set u (t\<lparr>rec_node := ?n\<rparr>) reg" and ?C = "put_node u (f (rec_node t)) C"
  have r: "run_at u f reg = fake_calls ?pcs ?reg" using t by (simp add: run_at_def Let_def)
  have m1: "mirrors ?C ?reg" by (rule mirrors_put[OF m t]) simp_all
  have g1: "grows C ?C" using s by (auto simp: grows_def)
  have c1: "\<forall>(p, c) \<in> set ?pcs. (u, p, c) \<in> calls ?C" by (auto dest: in_set_dropD)
  obtain C2 where C2: "grows ?C C2" "mirrors C2 (fst (fake_calls ?pcs ?reg))"
      "\<forall>x \<in> set (snd (fake_calls ?pcs ?reg)). answered C2 u x"
    using fake_calls_run[OF m1 c1] by blast
  have in_: "(fst x, fst (snd x)) \<in> set ?pcs" if "x \<in> set (snd (fake_calls ?pcs ?reg))" for x
  proof -
    have "(fst x, fst (snd x)) \<in> set (map (\<lambda>(p, c, a). (p, c)) (snd (fake_calls ?pcs ?reg)))"
      unfolding set_map by (rule image_eqI[OF _ that]) (simp add: case_prod_beta)
    then show ?thesis unfolding fake_calls_answers .
  qed
  have c2: "\<forall>x \<in> set (snd (fake_calls ?pcs ?reg)). answered C2 u x \<and> (u, fst x, fst (snd x)) \<in> calls C2"
  proof (intro ballI conjI)
    fix x assume x: "x \<in> set (snd (fake_calls ?pcs ?reg))"
    show "answered C2 u x" using C2(3) x by blast
    have "(u, fst x, fst (snd x)) \<in> calls ?C" using c1 in_[OF x] by blast
    then show "(u, fst x, fst (snd x)) \<in> calls C2" using C2(1) unfolding grows_def by blast
  qed
  have g2: "grows C C2" by (rule grows_trans[OF g1 C2(1)])
  show "\<exists>C'. grows C C' \<and> mirrors C' (fst (run_at u f reg)) \<and>
      (\<forall>x \<in> set (snd (run_at u f reg)). answered C' u x \<and> (u, fst x, fst (snd x)) \<in> calls C')"
    using g2 C2(2) c2 unfolding r by blast
  have at: "map_get (fst (fake_calls ?pcs ?reg)) u = Some (t\<lparr>rec_node := ?n\<rparr>)"
    using fake_calls_others[OF oth] by (simp add: update_conv')
  have "\<exists>C'. grows C2 C' \<and> mirrors C' (fold (answer_to u) (snd (fake_calls ?pcs ?reg)) (fst (fake_calls ?pcs ?reg)))"
  proof (rule answers_run[OF C2(2) c2])
    show "currentTerm (rec_node t') = T" if "map_get (fst (fake_calls ?pcs ?reg)) u = Some t'" "role (rec_node t') = LEADER" for t'
      using that tm by (auto simp: at)
    show "ae_term r = T" if "x \<in> set (snd (fake_calls ?pcs ?reg))" "fst (snd x) = AppendCall r" for x r
      using in_[OF that(1)] that(2) sp by (auto simp: speaks_def)
  qed
  with g2 show "\<exists>C'. grows C C' \<and> mirrors C' (settle u (run_at u f reg))"
    unfolding r settle_def by (meson grows_trans)
qed

subsection \<open>Every turn is a run\<close>

lemma requests_facts:
  assumes "(p, c) \<in> set (requests n)"
  shows "p \<in> set (peers n)" "c = AppendCall r \<Longrightarrow> ae_term r = currentTerm n"
  using assms by (auto simp: requests_def appendRequest_def snapshotRequest_def Let_def split: option.splits if_splits)

lemma requests_speak: "speaks (currentTerm n) (requests n)"
  by (auto simp: speaks_def dest: requests_facts(2))

lemma becomeLeader_calls:
  "\<exists>m. outbox (becomeLeader n) = outbox n @ requests m \<and> peers m = peers n \<and> currentTerm m = currentTerm n"
  by (simp add: becomeLeader_def Let_def sendAppendEntriesToAll_eq node_frame) (rule exI, intro conjI, rule refl, simp_all add: node_frame)

text \<open>The calls that a method adds, and the term they are of.\<close>

definition adds :: "node \<Rightarrow> node \<Rightarrow> bool" where
  "adds n n' \<longleftrightarrow> (\<exists>pcs. outbox n' = outbox n @ pcs \<and> fst ` set pcs \<subseteq> set (peers n) \<and>
     (\<exists>T. speaks T pcs \<and> (role n' = LEADER \<longrightarrow> currentTerm n' = T)))"

lemma adds_none: "outbox n' = outbox n \<Longrightarrow> adds n n'"
  unfolding adds_def by (intro exI[of _ "[]"]) (auto simp: speaks_def)

lemma adds_requests:
  "outbox n' = outbox n @ requests m \<Longrightarrow> peers m = peers n \<Longrightarrow> currentTerm n' = currentTerm m \<Longrightarrow> adds n n'"
  unfolding adds_def using requests_speak[of m] requests_facts(1) by (intro exI[of _ "requests m"]) fastforce

lemma adds_ops:
  "adds n (sendAppendEntriesToAll n)"
  "adds n (startElection n)"
  "adds n (electionResults t rs n)"
  "adds n (fst (submit_begin STROKE p n))"
proof -
  show "adds n (sendAppendEntriesToAll n)"
    by (rule adds_requests[of _ _ n]) (simp_all add: sendAppendEntriesToAll_eq)
  have "outbox (startElection n) = outbox n @ map (\<lambda>p. (p, VoteCall
      \<lparr>rv_term = currentTerm n + 1, rv_candidateId = replicaId n,
        rv_lastLogIndex = lastIndex (db n), rv_lastLogTerm = lastTerm (db n)\<rparr>)) (peers n)"
    by (simp add: startElection_def Let_def broadcast_eq) (simp add: node_frame db_simps becomeCandidate_def Let_def emit_def)
  then show "adds n (startElection n)"
    unfolding adds_def by (intro exI) (auto simp: speaks_def)
  show "adds n (electionResults t rs n)"
  proof (cases rule: electionResults_cases[where n = n and t = t and rs = rs])
    case (newer b)
    then show ?thesis by (intro adds_none) (simp add: node_frame)
  next
    case won
    obtain m where "outbox (becomeLeader n) = outbox n @ requests m" "peers m = peers n" "currentTerm m = currentTerm n"
      using becomeLeader_calls by blast
    with won show ?thesis by (intro adds_requests[of _ _ m]) (simp_all add: node_frame)
  qed (simp_all add: adds_none)
  show "adds n (fst (submit_begin STROKE p n))"
  proof -
    let ?m = "fst (appendLocal STROKE p n)"
    have "adds n (sendAppendEntriesToAll ?m)"
      by (rule adds_requests[of _ _ ?m]) (simp_all add: sendAppendEntriesToAll_eq node_frame)
    then show ?thesis by (auto simp: submit_begin_def case_prod_beta adds_none split: option.split)
  qed
qed

lemma turn_runs:
  assumes R: "reachable_if timely C" and m: "mirrors C reg" and t: "map_get reg u = Some t"
    and s: "step_if timely C (put_node u (f (rec_node t)) C)" and a: "adds (rec_node t) (f (rec_node t))"
  shows "\<exists>C'. grows C C' \<and> mirrors C' (fst (run_at u f reg)) \<and>
      (\<forall>x \<in> set (snd (run_at u f reg)). answered C' u x \<and> (u, fst x, fst (snd x)) \<in> calls C')"
    and "\<exists>C'. grows C C' \<and> mirrors C' (settle u (run_at u f reg))"
    and "map_get (fst (run_at u f reg)) u = Some (t\<lparr>rec_node := f (rec_node t)\<rparr>)"
proof -
  have u: "u \<in> set (urls C)" "nodes C u = rec_node t" using m t map_get_key[OF t] by (auto simp: mirrors_def)
  have "conf C" using reachable_inv[OF timely_reachable[OF R]] by (simp add: cluster_inv_def vote_inv_def)
  then have self: "u \<notin> set (peers (rec_node t))" using u by (auto simp: conf_def)
  obtain pcs T where p: "outbox (f (rec_node t)) = outbox (rec_node t) @ pcs" "fst ` set pcs \<subseteq> set (peers (rec_node t))"
      "speaks T pcs" "role (f (rec_node t)) = LEADER \<longrightarrow> currentTerm (f (rec_node t)) = T"
    using a by (auto simp: adds_def)
  then have d: "drop (length (outbox (rec_node t))) (outbox (f (rec_node t))) = pcs" by simp
  have o: "u \<notin> fst ` set pcs" using p(2) self by blast
  note tr = turn_run[where f = f, OF m t s, unfolded d, OF p(3) _ o]
  show "\<exists>C'. grows C C' \<and> mirrors C' (fst (run_at u f reg)) \<and>
      (\<forall>x \<in> set (snd (run_at u f reg)). answered C' u x \<and> (u, fst x, fst (snd x)) \<in> calls C')"
    by (rule tr(1)) (use p(4) in blast)
  show "\<exists>C'. grows C C' \<and> mirrors C' (settle u (run_at u f reg))"
    by (rule tr(2)) (use p(4) in blast)
  show "map_get (fst (run_at u f reg)) u = Some (t\<lparr>rec_node := f (rec_node t)\<rparr>)"
    using t fake_calls_others[OF o] by (simp add: run_at_def Let_def d update_conv')
qed

text \<open>Who a node is does not change.\<close>

definition who :: "node \<Rightarrow> string \<times> string list \<times> config \<times> int" where
  "who n = (replicaId n, peers n, config n, dedupeMaxClients (sm n))"

lemma table_size_apply_loop: "dedupeMaxClients (sm (apply_loop n)) = dedupeMaxClients (sm n)"
proof (induction n rule: apply_loop.induct)
  case (1 n)
  show ?case
    by (subst apply_loop.simps) (use 1 in \<open>auto simp: node_frame sm_simps split: option.split\<close>)
qed

lemma table_size_advance: "dedupeMaxClients (sm (maybeAdvanceCommitIndex n)) = dedupeMaxClients (sm n)"
  by (cases n rule: maybeAdvance_cases) (simp_all add: node_frame sm_applyCommitted table_size_apply_loop)

lemma table_size_ops:
  "dedupeMaxClients (sm (fst (handleRequestVote v n))) = dedupeMaxClients (sm n)"
  "dedupeMaxClients (sm (fst (handleAppendEntries r n))) = dedupeMaxClients (sm n)"
  "dedupeMaxClients (sm (appendReply p r b n)) = dedupeMaxClients (sm n)"
  "dedupeMaxClients (sm (startElection n)) = dedupeMaxClients (sm n)"
  "dedupeMaxClients (sm (electionResults t rs n)) = dedupeMaxClients (sm n)"
  "dedupeMaxClients (sm (fst (submit_begin STROKE py n))) = dedupeMaxClients (sm n)"
  "dedupeMaxClients (sm (start n)) = dedupeMaxClients (sm n)"
proof -
  show "dedupeMaxClients (sm (fst (handleRequestVote v n))) = dedupeMaxClients (sm n)"
    by (auto simp: handleRequestVote_def node_frame Let_def)
  show "dedupeMaxClients (sm (fst (handleAppendEntries r n))) = dedupeMaxClients (sm n)"
    by (cases r n rule: handleAppendEntries_cases) (auto simp: node_frame sm_applyCommitted table_size_apply_loop)
  show "dedupeMaxClients (sm (appendReply p r b n)) = dedupeMaxClients (sm n)"
    by (auto simp: appendReply_def Let_def node_frame table_size_advance)
  show "dedupeMaxClients (sm (startElection n)) = dedupeMaxClients (sm n)" by (simp add: startElection_def Let_def node_frame)
  show "dedupeMaxClients (sm (electionResults t rs n)) = dedupeMaxClients (sm n)"
    by (cases rule: electionResults_cases[where n = n and t = t and rs = rs]) (simp_all add: node_frame)
  show "dedupeMaxClients (sm (fst (submit_begin STROKE py n))) = dedupeMaxClients (sm n)"
    by (auto simp: submit_begin_def case_prod_beta node_frame split: option.split)
  show "dedupeMaxClients (sm (start n)) = dedupeMaxClients (sm n)"
    by (auto simp: start_def Let_def node_frame restoreSnapshot_def split: option.split)
qed

lemma config_ops:
  "config (accept_leader t l n) = config n"
  "config (fst (handleRequestVote v n)) = config n"
  "config (fst (handleAppendEntries r n)) = config n"
  "config (appendReply p r b n) = config n"
  "config (startElection n) = config n"
  "config (electionResults t rs n) = config n"
  "config (fst (submit_begin STROKE py n)) = config n"
  "config (start n) = config n"
proof -
  show a: "config (accept_leader t l n) = config n" for t l n by (simp add: accept_leader_def node_frame)
  show "config (fst (handleRequestVote v n)) = config n" by (auto simp: handleRequestVote_def node_frame Let_def)
  show "config (fst (handleAppendEntries r n)) = config n"
    by (auto simp: handleAppendEntries_def node_frame Let_def a)
  show "config (appendReply p r b n) = config n" by (auto simp: appendReply_def node_frame Let_def)
  show "config (startElection n) = config n" by (simp add: startElection_def Let_def node_frame)
  show "config (electionResults t rs n) = config n"
    by (cases rule: electionResults_cases[where n = n and t = t and rs = rs]) (simp_all add: node_frame)
  show "config (fst (submit_begin STROKE py n)) = config n"
    by (auto simp: submit_begin_def case_prod_beta node_frame split: option.split)
  show "config (start n) = config n" by (auto simp: start_def Let_def node_frame split: option.split)
qed

lemma who_vote_le:
  "vote_le n n' \<Longrightarrow> config n' = config n \<Longrightarrow> dedupeMaxClients (sm n') = dedupeMaxClients (sm n) \<Longrightarrow> who n' = who n"
  by (simp add: who_def vote_le_def)

lemma who_ops:
  "who (fst (route_call c n)) = who n"
  "who (appendReply p r b n) = who n"
  "who (startElection n) = who n"
  "who (electionResults t rs n) = who n"
  "who (sendAppendEntriesToAll n) = who n"
  "who (fst (submit_begin STROKE py n)) = who n"
  "who (n\<lparr>now := c1, rnd := c2\<rparr>) = who n"
  "who (stop n) = who n"
  "who (start n) = who n"
proof -
  show "who (fst (route_call c n)) = who n"
    by (auto simp: route_call_def config_ops table_size_ops intro!: who_vote_le handleRequestVote_vote_le handleAppendEntries_vote_le split: call.split)
  show "who (appendReply p r b n) = who n" by (intro who_vote_le appendReply_vote_le config_ops table_size_ops)
  show "who (startElection n) = who n" by (intro who_vote_le startElection_vote_le config_ops table_size_ops)
  show "who (electionResults t rs n) = who n" by (intro who_vote_le electionResults_vote_le config_ops table_size_ops)
  show "who (sendAppendEntriesToAll n) = who n" by (simp add: who_def node_frame)
  show "who (fst (submit_begin STROKE py n)) = who n"
    by (auto simp: who_def table_size_ops submit_begin_def case_prod_beta node_frame split: option.split)
  show "who (n\<lparr>now := c1, rnd := c2\<rparr>) = who n" "who (stop n) = who n"
    by (simp_all add: who_def stop_def node_frame)
  show "who (start n) = who n"
    unfolding who_def table_size_ops by (auto simp: start_def Let_def node_frame split: option.split)
qed

definition same_ids :: "registry \<Rightarrow> registry \<Rightarrow> bool" where
  "same_ids reg reg' \<longleftrightarrow>
     (\<forall>u. map_option (who \<circ> rec_node) (map_get reg' u) = map_option (who \<circ> rec_node) (map_get reg u))"

lemma same_ids_refl: "same_ids reg reg" by (simp add: same_ids_def)

lemma same_ids_trans: "same_ids a b \<Longrightarrow> same_ids b c \<Longrightarrow> same_ids a c" by (simp add: same_ids_def)

lemma same_ids_put:
  "map_get reg u = Some t \<Longrightarrow> who (rec_node t') = who (rec_node t) \<Longrightarrow> same_ids reg (map_set u t' reg)"
  by (simp add: same_ids_def update_conv')

lemma same_ids_calls: "same_ids reg (fst (fake_calls pcs reg))"
proof (induction pcs arbitrary: reg)
  case (Cons pc pcs)
  obtain p c where pc: "pc = (p, c)" by fastforce
  have "same_ids reg (fst (fake_call p c reg))"
    by (auto simp: fake_call_def same_ids_refl who_ops intro: same_ids_put split: option.split)
  from same_ids_trans[OF this Cons.IH] show ?case by (simp add: pc)
qed (simp add: same_ids_refl)

lemma same_ids_run:
  assumes "\<And>n. who (f n) = who n"
  shows "same_ids reg (fst (run_at u f reg))"
proof (cases "map_get reg u")
  case (Some t)
  have "same_ids reg (map_set u (t\<lparr>rec_node := f (rec_node t)\<rparr>) reg)"
    using Some assms by (intro same_ids_put) simp_all
  from same_ids_trans[OF this same_ids_calls] show ?thesis using Some by (simp add: run_at_def Let_def)
qed (simp add: run_at_def same_ids_refl)

lemma same_ids_settle:
  assumes "\<And>n. who (f n) = who n"
  shows "same_ids reg (settle u (run_at u f reg))"
proof -
  have ans: "same_ids r (answer_to u x r)" for x r
    by (auto simp: answer_to_def same_ids_refl who_ops intro: same_ids_put
        split: prod.split option.split call.split rpc_answer.split)
  have all: "same_ids r (fold (answer_to u) as r)" for as r
  proof (induction as arbitrary: r)
    case (Cons x as)
    from same_ids_trans[OF ans Cons.IH] show ?case by simp
  qed (simp add: same_ids_refl)
  show ?thesis unfolding settle_def by (rule same_ids_trans[OF same_ids_run[OF assms] all])
qed

lemma same_ids_turn: "same_ids reg (smoke_turn ev reg)"
proof (cases ev)
  case (ClockTick u t x)
  then show ?thesis by (simp add: same_ids_run who_ops)
next
  case (ElectionTimeout u)
  then show ?thesis
    using same_ids_trans[OF same_ids_run[of startElection reg u, OF who_ops(3)] same_ids_settle[OF who_ops(4)]]
    by (auto simp: smoke_election_def same_ids_refl case_prod_beta Let_def split: option.split)
next
  case (HeartbeatTick u)
  then show ?thesis
    by (auto simp: smoke_heartbeat_def same_ids_refl same_ids_settle who_ops split: option.split)
qed

lemma same_ids_submit: "same_ids reg (smoke_submit u p reg)"
  unfolding smoke_submit_def by (intro same_ids_settle who_ops)

subsection \<open>Every turn is a run: the events\<close>

lemma run_at_quiet:
  "map_get reg u = Some t \<Longrightarrow> outbox (f (rec_node t)) = outbox (rec_node t) \<Longrightarrow>
   run_at u f reg = (map_set u (t\<lparr>rec_node := f (rec_node t)\<rparr>) reg, [])"
  by (simp add: run_at_def Let_def)

lemma election_run:
  assumes R: "reachable_if timely C" and m: "mirrors C reg"
  shows "\<exists>C'. runs C C' \<and> mirrors C' (smoke_election u reg)"
proof (cases "\<exists>t. map_get reg u = Some t \<and> electionTimer (rec_node t) \<noteq> None")
  case False
  then have "smoke_election u reg = reg" by (auto simp: smoke_election_def split: option.split)
  with m show ?thesis by auto
next
  case True
  then obtain t where t: "map_get reg u = Some t" "electionTimer (rec_node t) \<noteq> None" by blast
  let ?n = "rec_node t" let ?T = "currentTerm (startElection (rec_node t))"
  have u: "u \<in> set (urls C)" "nodes C u = ?n" using m t map_get_key[OF t(1)] by (auto simp: mirrors_def)
  have s: "step_if timely C (put_node u (startElection ?n) C)"
    using election_timeout[OF u(1), of timely] t(2) by (simp add: u(2))
  let ?reg1 = "fst (run_at u startElection reg)" and ?as = "snd (run_at u startElection reg)"
  obtain C1 where C1: "grows C C1" "mirrors C1 ?reg1"
      "\<forall>x \<in> set ?as. answered C1 u x \<and> (u, fst x, fst (snd x)) \<in> calls C1"
    using turn_runs(1)[where f = startElection, OF R m t(1) s adds_ops(2)] by blast
  note t1 = turn_runs(3)[where f = startElection, OF R m t(1) s adds_ops(2)]
  have R1: "reachable_if timely C1" using C1(1) reachable_runs[OF _ R] by (simp add: grows_def)
  have n1: "nodes C1 u = startElection ?n" "u \<in> set (urls C1)"
    using C1(2) t1 map_get_key[OF t1] by (auto simp: mirrors_def)
  let ?r = "\<lparr>rv_term = ?T, rv_candidateId = replicaId ?n, rv_lastLogIndex = lastIndex (db ?n), rv_lastLogTerm = lastTerm (db ?n)\<rparr>"
  have "outbox (startElection ?n) = outbox ?n @ map (\<lambda>p. (p, VoteCall ?r)) (peers ?n)"
    by (simp add: startElection_def Let_def broadcast_eq) (simp add: node_frame db_simps becomeCandidate_def Let_def emit_def)
  then have as: "map (\<lambda>(p, c, a). (p, c)) ?as = map (\<lambda>p. (p, VoteCall ?r)) (peers ?n)"
    using t(1) by (simp add: run_at_def Let_def fake_calls_answers)
  have "vote_results C1 u ?T (map vote_of ?as)"
  proof -
    have len: "length ?as = length (peers ?n)" using arg_cong[OF as, of length] by simp
    have ith: "fst (?as ! i) = peers ?n ! i" "fst (snd (?as ! i)) = VoteCall ?r" if "i < length (peers ?n)" for i
      using arg_cong[OF as, of "\<lambda>l. l ! i"] that len by (simp_all add: case_prod_beta)
    have each: "case vote_of (?as ! i) of None \<Rightarrow> True | Some b \<Rightarrow> \<exists>r. rv_term r = ?T \<and>
        (u, peers ?n ! i, VoteCall r) \<in> calls C1 \<and> (peers ?n ! i, u, r, b) \<in> vote_answers C1" if i: "i < length (peers ?n)" for i
    proof -
      have x: "answered C1 u (?as ! i)" "(u, fst (?as ! i), fst (snd (?as ! i))) \<in> calls C1"
        using C1(3) i len by simp_all
      then show ?thesis using ith[OF i]
        by (cases "?as ! i") (auto simp: vote_of_def answered_def intro!: exI[of _ ?r] split: option.splits rpc_answer.splits)
    qed
    have ps: "peers (nodes C1 u) = peers ?n" by (simp add: n1(1) node_frame)
    show ?thesis
      unfolding vote_results_def list_all2_conv_all_nth ps using len each by simp
  qed
  from vote_round[OF n1(2) this, of timely]
  have s1: "step_if timely C1 (put_node u (electionResults ?T (map vote_of ?as) (startElection ?n)) C1)" by (simp add: n1(1))
  have "\<exists>C'. grows C1 C' \<and> mirrors C' (settle u (run_at u (electionResults ?T (map vote_of ?as)) ?reg1))"
    using turn_runs(2)[where f = "electionResults ?T (map vote_of ?as)", OF R1 C1(2) t1] s1 adds_ops(3) by simp
  then obtain C2 where "grows C1 C2" "mirrors C2 (settle u (run_at u (electionResults ?T (map vote_of ?as)) ?reg1))" by blast
  moreover from this(1) have "runs C C2" using grows_trans[OF C1(1)] by (simp add: grows_def)
  ultimately show ?thesis using t by (auto simp: smoke_election_def case_prod_beta Let_def)
qed

lemma heartbeat_run:
  assumes R: "reachable_if timely C" and m: "mirrors C reg"
  shows "\<exists>C'. runs C C' \<and> mirrors C' (smoke_heartbeat u reg)"
proof (cases "\<exists>t. map_get reg u = Some t \<and> heartbeatTimer (rec_node t) \<noteq> None")
  case False
  then have "smoke_heartbeat u reg = reg" by (auto simp: smoke_heartbeat_def split: option.split)
  with m show ?thesis by auto
next
  case True
  then obtain t where t: "map_get reg u = Some t" "heartbeatTimer (rec_node t) \<noteq> None" by blast
  have u: "u \<in> set (urls C)" "nodes C u = rec_node t" using m t map_get_key[OF t(1)] by (auto simp: mirrors_def)
  have "step_if timely C (put_node u (sendAppendEntriesToAll (rec_node t)) C)"
    using heartbeat[OF u(1), of timely] t(2) by (simp add: u(2))
  from turn_runs(2)[where f = sendAppendEntriesToAll, OF R m t(1) this adds_ops(1)]
  show ?thesis using t by (auto simp: smoke_heartbeat_def grows_def)
qed

lemma submit_run:
  assumes R: "reachable_if timely C" and m: "mirrors C reg"
  shows "\<exists>C'. runs C C' \<and> mirrors C' (smoke_submit u p reg)"
proof (cases "map_get reg u")
  case None
  then have "smoke_submit u p reg = reg" by (simp add: smoke_submit_def run_at_def settle_def)
  with m show ?thesis by auto
next
  case (Some t)
  have u: "u \<in> set (urls C)" "nodes C u = rec_node t" using m Some map_get_key[OF Some] by (auto simp: mirrors_def)
  have "step_if timely C (put_node u (fst (submit_begin STROKE (Some p) (rec_node t))) C)"
    using client_submit[OF u(1), of timely] by (simp add: u(2))
  from turn_runs(2)[where f = "\<lambda>n. fst (submit_begin STROKE (Some p) n)", OF R m Some this adds_ops(4)]
  show ?thesis by (auto simp: smoke_submit_def grows_def)
qed

lemma clock_run:
  assumes m: "mirrors C reg"
  shows "\<exists>C'. runs C C' \<and> mirrors C' (smoke_turn (ClockTick u x y) reg)"
proof (cases "map_get reg u")
  case None
  then have "smoke_turn (ClockTick u x y) reg = reg" by (simp add: run_at_def)
  with m show ?thesis by (intro exI[of _ C]) simp
next
  case (Some t)
  have u: "u \<in> set (urls C)" "nodes C u = rec_node t" using m Some map_get_key[OF Some] by (auto simp: mirrors_def)
  let ?n = "(rec_node t)\<lparr>now := x, rnd := y\<rparr>"
  have "step_if timely C (put_node u ?n C)" using clock[OF u(1), of timely] by (simp add: u(2))
  moreover have "mirrors (put_node u ?n C) (map_set u (t\<lparr>rec_node := ?n\<rparr>) reg)"
    by (rule mirrors_put[OF m Some]) simp_all
  ultimately show ?thesis using run_at_quiet[OF Some, of "\<lambda>n. n\<lparr>now := x, rnd := y\<rparr>"] by auto
qed

lemma turn_is_run:
  "reachable_if timely C \<Longrightarrow> mirrors C reg \<Longrightarrow> \<exists>C'. runs C C' \<and> mirrors C' (smoke_turn ev reg)"
  by (cases ev) (use election_run heartbeat_run clock_run in auto)

subsection \<open>The states of the test\<close>

inductive smoke_state :: "registry \<Rightarrow> bool" where
  boots: "smoke_state (smoke_boot t x)"
| turns: "smoke_state reg \<Longrightarrow> smoke_state (smoke_turn ev reg)"
| submits: "smoke_state reg \<Longrightarrow> smoke_state (smoke_submit u p reg)"
| crashes: "smoke_state reg \<Longrightarrow> i \<in> set smoke_ids \<Longrightarrow> smoke_state (crash_node i reg)"
| rebuilds: "smoke_state reg \<Longrightarrow> i \<in> set smoke_ids \<Longrightarrow> smoke_state (rebuild_node i t x reg)"

text \<open>Every node is the one that \<open>makeNode\<close> made for its place.\<close>

definition well_made :: "registry \<Rightarrow> bool" where
  "well_made reg \<longleftrightarrow> set (map_keys reg) = mem ` set smoke_ids \<and>
     (\<forall>i \<in> set smoke_ids. map_option (who \<circ> rec_node) (map_get reg (mem i)) =
        Some (i, map mem (smoke_peers i), default_config, 10000))"

lemma well_made_same:
  assumes "well_made reg" "same_ids reg reg'"
  shows "well_made reg'"
proof -
  have "map_get reg' u = None \<longleftrightarrow> map_get reg u = None" for u
    using assms(2) by (metis same_ids_def map_option_is_None)
  then have "set (map_keys reg') = set (map_keys reg)" by (auto simp: map_of_eq_None_iff)
  with assms show ?thesis by (simp add: well_made_def same_ids_def)
qed

lemma mem_inj [simp]: "mem i = mem j \<longleftrightarrow> i = j"
  by (simp add: mem_def)

definition fresh_node :: "string \<Rightarrow> db option \<Rightarrow> int \<Rightarrow> int \<Rightarrow> node" where
  "fresh_node i f t x =
     start (new_node i (map mem (smoke_peers i)) default_config (open_db f) (new_state_machine 10000) t x)"

lemma who_fresh: "who (fresh_node i f t x) = (i, map mem (smoke_peers i), default_config, 10000)"
  by (simp add: fresh_node_def who_ops) (simp add: who_def new_node_def new_state_machine_def)

lemma start_outbox: "outbox (start n) = outbox n"
  by (auto simp: start_def Let_def node_frame split: option.split)

lemma start_make:
  "start_node i (make_node i (smoke_peers i) f t x reg) =
     map_set (mem i) \<lparr>rec_node = fresh_node i f t x, rec_open = True\<rparr> (make_node i (smoke_peers i) f t x reg)"
  by (simp add: start_node_def make_node_def run_at_def update_conv' start_outbox fresh_node_def)

lemma boot_get:
  "map_get (smoke_boot t x) u =
     (if u \<in> mem ` set smoke_ids
      then Some \<lparr>rec_node = fresh_node (drop 6 u) None (t (drop 6 u)) (x (drop 6 u)), rec_open = True\<rparr> else None)"
  by (auto simp: smoke_boot_def smoke_ids_def make_node_def start_node_def run_at_def update_conv' start_outbox
      fresh_node_def mem_def)

lemma boot_keys: "map_keys (smoke_boot t x) = map mem smoke_ids"
  by (simp add: smoke_boot_def smoke_ids_def make_node_def start_node_def run_at_def start_outbox mem_def)

lemma boot_state:
  "\<exists>C. initial C \<and> mirrors C (smoke_boot t x)" "well_made (smoke_boot t x)"
proof -
  let ?nd = "\<lambda>u. fresh_node (drop 6 u) None (t (drop 6 u)) (x (drop 6 u))"
  let ?C = "\<lparr>urls = map mem smoke_ids, nodes = ?nd, calls = {}, vote_answers = {}, append_answers = {},
     snapshot_answers = {}, ballots = {}, leaders = {}, created = {}, leader_logs = {}\<rparr>"
  have m: "drop 6 (mem i) = i" for i by (simp add: mem_def)
  have f: "started_fresh (?nd u)" for u unfolding started_fresh_def fresh_node_def open_db_def option.case by blast
  have i: "replicaId (?nd u) = drop 6 u" "peers (?nd u) = map mem (smoke_peers (drop 6 u))" for u
    using who_fresh[of "drop 6 u" None "t (drop 6 u)" "x (drop 6 u)"] by (simp_all add: who_def)
  have "initial ?C"
    unfolding initial_def by (auto simp: f i m list_all_iff inj_on_def smoke_ids_def smoke_peers_def)
  moreover have "mirrors ?C (smoke_boot t x)" by (auto simp: mirrors_def boot_get boot_keys split: if_splits)
  ultimately show "\<exists>C. initial C \<and> mirrors C (smoke_boot t x)" by blast
  show "well_made (smoke_boot t x)" by (auto simp: well_made_def boot_keys boot_get m who_fresh)
qed

lemma rebuild_get:
  "map_get (rebuild_node i t x reg) u =
     (if u = mem i then Some \<lparr>rec_node = fresh_node i (map_option db (rec_of reg i)) t x, rec_open = True\<rparr>
      else map_get reg u)"
  unfolding rebuild_node_def start_make by (simp add: update_conv' make_node_def delete_conv')

lemma crash_run:
  assumes "mirrors C reg"
  shows "\<exists>C'. runs C C' \<and> mirrors C' (crash_node i reg)"
proof (cases "map_get reg (mem i)")
  case None
  with assms show ?thesis by (auto simp: crash_node_def)
next
  case (Some t)
  have u: "mem i \<in> set (urls C)" "nodes C (mem i) = rec_node t" using assms Some map_get_key[OF Some] by (auto simp: mirrors_def)
  have "step_if timely C (put_node (mem i) (stop (rec_node t)) C)" using halt[OF u(1), of timely] by (simp add: u(2))
  moreover have "mirrors (put_node (mem i) (stop (rec_node t)) C) (crash_node i reg)"
    using Some by (simp add: crash_node_def) (rule mirrors_put[OF assms Some], simp_all)
  ultimately show ?thesis by blast
qed

lemma same_ids_crash: "same_ids reg (crash_node i reg)"
  by (auto simp: crash_node_def same_ids_refl who_ops intro: same_ids_put split: option.split)

lemma rebuild_run:
  assumes m: "mirrors C reg" and w: "well_made reg" and i: "i \<in> set smoke_ids"
  shows "\<exists>C'. runs C C' \<and> mirrors C' (rebuild_node i t x reg)" and "well_made (rebuild_node i t x reg)"
proof -
  obtain y where y: "map_get reg (mem i) = Some y" "who (rec_node y) = (i, map mem (smoke_peers i), default_config, 10000)"
    using w i by (auto simp: well_made_def)
  have u: "mem i \<in> set (urls C)" "nodes C (mem i) = rec_node y" using m y(1) map_get_key[OF y(1)] by (auto simp: mirrors_def)
  let ?n = "fresh_node i (map_option db (rec_of reg i)) t x"
  have "?n = reboot 10000 t x (nodes C (mem i))"
    using y by (simp add: fresh_node_def reboot_def u(2) rec_of_def who_def)
  then have s: "step_if timely C (put_node (mem i) ?n C)" using restart[OF u(1), of timely 10000 t x] by simp
  have same: "map_get (rebuild_node i t x reg) v = None \<longleftrightarrow> map_get reg v = None" for v
    using y(1) by (simp add: rebuild_get)
  then have k: "set (map_keys (rebuild_node i t x reg)) = set (map_keys reg)" by (auto simp: map_of_eq_None_iff)
  have "mirrors (put_node (mem i) ?n C) (rebuild_node i t x reg)"
    using m k by (auto simp: mirrors_def rebuild_get)
  with s show "\<exists>C'. runs C C' \<and> mirrors C' (rebuild_node i t x reg)" by blast
  show "well_made (rebuild_node i t x reg)"
    using w unfolding well_made_def k by (auto simp: rebuild_get who_fresh)
qed

lemma smoke_state_cluster: "smoke_state reg \<Longrightarrow> well_made reg \<and> (\<exists>C. reachable_if timely C \<and> mirrors C reg)"
proof (induction rule: smoke_state.induct)
  case (boots t x)
  obtain C where "initial C" "mirrors C (smoke_boot t x)" using boot_state(1)[of t x] by blast
  then show ?case using boot_state(2)[of t x] reach_init by blast
next
  case (turns reg ev)
  then obtain C where C: "reachable_if timely C" "mirrors C reg" by blast
  with turn_is_run[OF C, of ev] have "\<exists>C. reachable_if timely C \<and> mirrors C (smoke_turn ev reg)"
    using reachable_runs by blast
  with turns.IH well_made_same[OF _ same_ids_turn] show ?case by blast
next
  case (submits reg u p)
  then obtain C where C: "reachable_if timely C" "mirrors C reg" by blast
  with submit_run[OF C, of u p] have "\<exists>C. reachable_if timely C \<and> mirrors C (smoke_submit u p reg)"
    using reachable_runs by blast
  with submits.IH well_made_same[OF _ same_ids_submit] show ?case by blast
next
  case (crashes reg i)
  then obtain C where C: "reachable_if timely C" "mirrors C reg" by blast
  with crash_run[OF C(2), of i] have "\<exists>C. reachable_if timely C \<and> mirrors C (crash_node i reg)"
    using reachable_runs by blast
  with crashes.IH well_made_same[OF _ same_ids_crash] show ?case by blast
next
  case (rebuilds reg i t x)
  then obtain C where C: "reachable_if timely C" "mirrors C reg" by blast
  have "\<exists>C. reachable_if timely C \<and> mirrors C (rebuild_node i t x reg)"
    using rebuild_run(1)[OF C(2) _ rebuilds.hyps(2), of t x] rebuilds.IH C(1) reachable_runs by blast
  with rebuild_run(2)[OF C(2) _ rebuilds.hyps(2)] rebuilds.IH show ?case by blast
qed

subsection \<open>What the nodes of the test show\<close>

definition snapshot_free :: "registry \<Rightarrow> bool" where
  "snapshot_free reg \<longleftrightarrow> list_all (\<lambda>(u, y). snapshots (db (rec_node y)) = []) reg"

lemma mirrors_get:
  assumes "mirrors C reg" "p \<in> set (urls C)"
  obtains x where "map_get reg p = Some x" "nodes C p = rec_node x"
proof -
  have "p \<in> set (map_keys reg)" using assms by (simp only: mirrors_def)
  then have "map_get reg p \<noteq> None" by (simp add: map_of_eq_None_iff)
  then obtain x where "map_get reg p = Some x" by blast
  with assms that show thesis by (auto simp: mirrors_def)
qed

lemma mirrors_quiet: "mirrors C reg \<Longrightarrow> snapshot_free reg \<Longrightarrow> quiet C"
  unfolding quiet_def snapshot_free_def list_all_iff by (force elim!: mirrors_get dest!: map_of_SomeD)

lemma smoke_canvases:
  assumes "smoke_state reg" "snapshot_free reg" "i \<in> set smoke_ids" "j \<in> set smoke_ids"
  shows "prefix (strokes_at reg i) (strokes_at reg j) \<or> prefix (strokes_at reg j) (strokes_at reg i)"
proof -
  obtain C where C: "reachable_if timely C" "mirrors C reg" and w: "well_made reg"
    using smoke_state_cluster[OF assms(1)] by blast
  have q: "quiet C" by (rule mirrors_quiet[OF C(2) assms(2)])
  have at: "mem k \<in> set (urls C)" "dedupeMaxClients (sm (nodes C (mem k))) = 10000"
      "strokes (sm (nodes C (mem k))) = strokes_at reg k" if k: "k \<in> set smoke_ids" for k
  proof -
    obtain y where y: "map_get reg (mem k) = Some y" "who (rec_node y) = (k, map mem (smoke_peers k), default_config, 10000)"
      using w k by (auto simp: well_made_def)
    then show "mem k \<in> set (urls C)" "dedupeMaxClients (sm (nodes C (mem k))) = 10000"
      "strokes (sm (nodes C (mem k))) = strokes_at reg k"
      using C(2) map_get_key[OF y(1)] by (auto simp: mirrors_def who_def strokes_at_def rec_of_def)
  qed
  note i = at[OF assms(3)] and j = at[OF assms(4)]
  show ?thesis
  proof (cases "lastApplied (sm (nodes C (mem i))) \<le> lastApplied (sm (nodes C (mem j)))")
    case True
    then show ?thesis using canvases_agree[OF C(1) q i(1) j(1)] i j by simp
  next
    case False
    then show ?thesis using canvases_agree[OF C(1) q j(1) i(1)] i j by simp
  qed
qed

subsection \<open>Properties\<close>

text \<open>
  C37: the test runs the program of the cluster. Every state of the test, whatever happens in which
  order (elections, heartbeats, submissions, crashes, rebuilds), is a state of the cluster in which answers are taken
  in time: there is a reachable cluster of the three URLs with just these nodes.
\<close>

theorem smoke_refines_cluster:
  assumes "smoke_state reg"
  shows "\<exists>C. reachable_if timely C \<and> set (urls C) = mem ` set smoke_ids \<and>
    (\<forall>i \<in> set smoke_ids. rec_of reg i = Some (nodes C (mem i)))"
proof -
  obtain C where C: "reachable_if timely C" "mirrors C reg" and w: "well_made reg"
    using smoke_state_cluster[OF assms] by blast
  have "rec_of reg i = Some (nodes C (mem i))" if "i \<in> set smoke_ids" for i
    using w that C(2) by (auto simp: well_made_def rec_of_def mirrors_def)
  moreover have "set (urls C) = mem ` set smoke_ids" using w C(2) by (simp add: well_made_def mirrors_def)
  ultimately show ?thesis using C(1) by blast
qed

definition demo_boot :: registry where
  "demo_boot = smoke_boot (\<lambda>i. 0) (\<lambda>i. 0)"

definition demo_lagging :: registry where
  "demo_lagging = rebuild_node ''A'' 5 5 (smoke_submit (mem ''B'') (smoke_payload 0 1 ''#000'' 3)
     (crash_node ''A'' (smoke_submit (mem ''B'') (smoke_payload 0 0 ''#000'' 3) (smoke_election (mem ''B'') demo_boot))))"

lemma demo_lagging_state: "smoke_state demo_lagging"
  unfolding demo_lagging_def demo_boot_def
  by (intro rebuilds submits crashes turns[of _ "ElectionTimeout (mem ''B'')", simplified] boots) (simp_all add: smoke_ids_def)

lemma demo_lagging_facts:
  "map_option role (rec_of demo_lagging ''B'') = Some LEADER" "map_option commitIndex (rec_of demo_lagging ''B'') = Some 2"
  "map_option (\<lambda>n. length (log_entries (db n))) (rec_of demo_lagging ''A'') = Some 2"
  "snapshot_free demo_lagging" "strokes_at demo_lagging ''A'' = []" "length (strokes_at demo_lagging ''C'') = 1"
  by code_simp+

theorem smoke_refines_cluster_witness:
  "\<exists>C. reachable_if timely C \<and> role (nodes C (mem ''B'')) = LEADER \<and> commitIndex (nodes C (mem ''B'')) = 2"
proof -
  obtain C where C: "reachable_if timely C" "\<forall>i \<in> set smoke_ids. rec_of demo_lagging i = Some (nodes C (mem i))"
    using smoke_refines_cluster[OF demo_lagging_state] by blast
  then have "rec_of demo_lagging ''B'' = Some (nodes C (mem ''B''))" by (simp add: smoke_ids_def)
  with C(1) demo_lagging_facts(1,2) show ?thesis by (intro exI[of _ C]) simp
qed

text \<open>
  C38: the smoke test never diverges. In every state the smoke test can reach, under any order of timer events, submissions,
  crashes and rebuilds, in which no node has compacted its log: of the strokes of any two nodes one list begins
  with the other, so that when all nodes have five strokes the comparison that follows finds no difference and
  the test goes on to crash a follower.
\<close>

theorem smoke_never_diverges:
  assumes "smoke_state reg" "snapshot_free reg" "i \<in> set smoke_ids" "j \<in> set smoke_ids"
  shows "(prefix (strokes_at reg i) (strokes_at reg j) \<or> prefix (strokes_at reg j) (strokes_at reg i))
       \<and> ((\<forall>k \<in> set smoke_ids. length (strokes_at reg k) = 5) \<longrightarrow>
            smoke_converged s leader reg = smoke_catch_up s leader reg)"
proof (intro conjI impI)
  show "prefix (strokes_at reg i) (strokes_at reg j) \<or> prefix (strokes_at reg j) (strokes_at reg i)"
    by (rule smoke_canvases[OF assms])
  assume five: "\<forall>k \<in> set smoke_ids. length (strokes_at reg k) = 5"
  have A: "''A'' \<in> set smoke_ids" by (simp add: smoke_ids_def)
  have "strokes_at reg k = strokes_at reg ''A''" if k: "k \<in> set smoke_ids" for k
  proof -
    have "length (strokes_at reg k) = length (strokes_at reg ''A'')" using five k A by simp
    with smoke_canvases[OF assms(1,2) k A] show ?thesis by (auto simp: prefix_def)
  qed
  then have "find (\<lambda>i. strokes_at reg i \<noteq> strokes_at reg ''A'') smoke_ids = None" by (simp add: find_None_iff)
  then show "smoke_converged s leader reg = smoke_catch_up s leader reg" by (simp add: smoke_converged_def)
qed

theorem smoke_never_diverges_witness:
  "prefix (strokes_at demo_lagging ''A'') (strokes_at demo_lagging ''C'')
     \<or> prefix (strokes_at demo_lagging ''C'') (strokes_at demo_lagging ''A'')"
  using smoke_never_diverges[OF demo_lagging_state demo_lagging_facts(4), of "''A''" "''C''"] by (simp add: smoke_ids_def)

text \<open>A run without contention: one node's timer fires first, and then only its heartbeats.\<close>

definition quick_schedule :: "string \<Rightarrow> schedule" where
  "quick_schedule i = \<lparr>until_leader = [[ElectionTimeout (mem i)], []], during_first = (\<lambda>k. [[]]),
     until_applied = [[HeartbeatTick (mem i)], []], during_more = (\<lambda>k. [[]]), rebuilt_at = (5, 5),
     until_caught_up = [[HeartbeatTick (mem i)], [HeartbeatTick (mem i)], []]\<rparr>"

text \<open>
  A passing run of the whole test, as a check of the model: for the quick schedule of each node, and for all
  clocks and random numbers, a leader is elected at once, each stroke is committed by the calls of its own
  submission, one heartbeat brings the five strokes to all nodes and two more bring a rebuilt follower to all seven.
  Other schedules are not covered by it.
\<close>

lemma smoke_test_passes:
  "smoke_main (quick_schedule ''A'') (smoke_boot t x) = PASSED
 \<and> smoke_main (quick_schedule ''B'') (smoke_boot t x) = PASSED
 \<and> smoke_main (quick_schedule ''C'') (smoke_boot t x) = PASSED"
proof (intro conjI)
  show "smoke_main (quick_schedule ''A'') (smoke_boot t x) = PASSED" by code_simp
  show "smoke_main (quick_schedule ''B'') (smoke_boot t x) = PASSED" by code_simp
  show "smoke_main (quick_schedule ''C'') (smoke_boot t x) = PASSED" by code_simp
qed

end
