(* ===== verification/Convergence.thy ===== *)
theory Convergence imports Smoke_Test begin

text \<open>
  Convergence: on the transport of the smoke test, which loses nothing, a leader whose election is over
  brings every other node to its log, its commit index and its canvas by its heartbeats alone, whatever
  their logs were. The proof follows a round: a peer accepts and then has the leader's log, or refuses
  and is tried one entry earlier next time.
\<close>

subsection \<open>One round of heartbeats\<close>

lemma no_snapshot:
  assumes "last_snapshot_index (db n) = -1" "lastApplied (sm n) < k" "commitIndex n < k" "k < snapshotThreshold (config n)"
    and "log_sorted (db n)"
  shows "applyCommitted n = apply_loop n"
proof -
  have "lastApplied (sm (apply_loop n)) < k" using apply_loop_bounds(2)[OF assms(5)] assms(2,3) by simp
  with assms(1,4) show ?thesis
    by (simp add: applyCommitted_def maybeSnapshot_def Let_def loadMeta_def node_frame)
qed

text \<open>A leader of the cluster with the log \<open>l\<close> in term \<open>t\<close>.\<close>

definition leading :: "cluster \<Rightarrow> string \<Rightarrow> entry list \<Rightarrow> int \<Rightarrow> bool" where
  "leading C u l t \<longleftrightarrow> u \<in> set (urls C) \<and> role (nodes C u) = LEADER \<and> currentTerm (nodes C u) = t \<and> log_of C u = l"

lemma leading_facts:
  assumes R: "reachable C" and q: "quiet C" and ld: "leading C u l t"
  shows "l \<noteq> []" "last_term l = t" "plain (db (nodes C u))" "l \<in> leader_logs C"
    and "\<And>v. v \<in> set (urls C) \<Longrightarrow> currentTerm (nodes C v) \<le> t \<Longrightarrow> prefix l (log_of C v) \<Longrightarrow> log_of C v = l"
proof -
  have L: "line_inv C" by (rule reachable_line_inv[OF R q])
  show f: "l \<noteq> []" "last_term l = t" "plain (db (nodes C u))"
    using L ld held_plain[OF reachable_inv[OF R] L q] by (auto simp: line_inv_def held_ok_def leading_def)
  show "l \<in> leader_logs C" using L ld f(1) by (auto simp: line_inv_def held_ok_def leading_def)
  fix v assume that: "v \<in> set (urls C)" "currentTerm (nodes C v) \<le> t" "prefix l (log_of C v)"
  have h: "log_of C v = [] \<or> log_of C v \<in> leader_logs C" "last_term (log_of C v) \<le> currentTerm (nodes C v)"
    using L that(1) by (simp_all add: line_inv_def held_ok_def)
  have "log_of C v \<noteq> []" using that(3) f(1) by auto
  with h have v: "log_of C v \<in> leader_logs C" by blast
  have "take (length l) (log_of C v) = l" using that(3) by (auto simp: prefix_def)
  moreover have "last_term (take (length l) (log_of C v)) \<le> last_term (log_of C v)"
    using L v f(1) by (auto simp: line_inv_def lines_ok_def)
  ultimately have "last_term (log_of C v) = t" using f(2) h(2) that(2) by simp
  with v L ld have "length (log_of C v) \<le> length l" by (auto simp: line_inv_def held_ok_def leading_def)
  with that(3) show "log_of C v = l" by (auto simp: prefix_def)
qed

lemma follower_stores:
  assumes R: "reachable C" and q: "quiet C" and ld: "leading C u l t" and v: "v \<in> set (urls C)"
    and r: "dud r \<or> copies l r" "ae_term r = t" and F: "currentTerm (nodes C v) \<le> t"
    and ok: "ae_prevLogIndex r < 0 \<or> prev_matches (db (nodes C v)) (ae_prevLogIndex r) (ae_prevLogTerm r)"
  shows "log_entries (store_entries (ae_entries r) (db (nodes C v))) = l" and "copies l r"
proof -
  have L: "line_inv C" by (rule reachable_line_inv[OF R q])
  note lf = leading_facts[OF R q ld]
  have pl: "plain (db (nodes C v))" by (rule held_plain[OF reachable_inv[OF R] L q v])
  have h: "log_of C v = [] \<or> log_of C v \<in> leader_logs C" using L v by (simp add: line_inv_def held_ok_def)
  have dc: "dud r \<or> (\<exists>m \<in> leader_logs C. replicates m r)" using r lf(1,2,4) by (auto simp: replicates_def)
  obtain m where m: "m \<in> leader_logs C" "replicates m r"
    "log_entries (store_entries (ae_entries r) (db (nodes C v))) = (if prefix m (log_of C v) then log_of C v else m)"
    using accepted_log[OF _ pl _ dc ok] L h by (auto simp: line_inv_def)
  show "copies l r" using r(1) dud_not_replicates m L by (metis line_inv_def)
  then have "replicates l r" using r(2) lf(1,2) by (simp add: replicates_def)
  then have "m = l" using replicates_unique m lf(4) L by (metis line_inv_def)
  with m(3) lf(5)[OF v] F show "log_entries (store_entries (ae_entries r) (db (nodes C v))) = l" by auto
qed

text \<open>The end of a handler that has stored the leader's log and takes its commit index \<open>k\<close>.\<close>

lemma follower_commits:
  assumes n: "log_entries (db n) = l" "positions l" "l \<noteq> []" "last_snapshot_index (db n) = -1"
      "lastApplied (sm n) = commitIndex n" "int (length l) < snapshotThreshold (config n)"
    and k: "k < int (length l)"
    and n': "n' = (if k > commitIndex n then applyCommitted (n\<lparr>commitIndex := min k (lastIndex (db n))\<rparr>) else n)"
  shows "db n' = db n" "k = int (length l) - 1 \<Longrightarrow> int (length l) - 1 \<le> commitIndex n'"
proof -
  have "e_index (last l) = int (length l) - 1" using n(2,3) by (simp add: positions_def last_conv_nth of_nat_diff Suc_le_eq)
  with n(1,3) have last: "lastIndex (db n) = int (length l) - 1" by (simp add: lastIndex_def)
  have srt: "log_sorted (db n)" using positions_sorted[OF n(2)] n(1) by (simp add: log_sorted_def)
  have "db n' = db n \<and> (k = int (length l) - 1 \<longrightarrow> int (length l) - 1 \<le> commitIndex n')"
  proof (cases "k > commitIndex n")
    case True
    let ?m = "n\<lparr>commitIndex := min k (lastIndex (db n))\<rparr>"
    have "applyCommitted ?m = apply_loop ?m"
      using n srt True k last by (intro no_snapshot[where k = "int (length l)"]) simp_all
    then have "n' = apply_loop ?m" using n' True by simp
    then show ?thesis using last by (simp add: node_frame)
  qed (simp add: n')
  then show "db n' = db n" "k = int (length l) - 1 \<Longrightarrow> int (length l) - 1 \<le> commitIndex n'" by blast+
qed

lemma follower_round:
  fixes r :: append_entries and v u :: string and C :: cluster
  defines "F \<equiv> nodes C v" and "F' \<equiv> fst (handleAppendEntries r (nodes C v))"
    and "b \<equiv> snd (handleAppendEntries r (nodes C v))"
  assumes R: "reachable_if timely C" and q: "quiet C" and ld: "leading C u l t" and v: "v \<in> set (urls C)"
    and r: "dud r \<or> copies l r" "ae_term r = t" "ae_leaderCommit r = commitIndex (nodes C u)"
    and F: "currentTerm F \<le> t" "int (length l) < snapshotThreshold (config F)"
  shows "ar_term b = t \<and> currentTerm F' = t \<and> snapshots (db F') = [] \<and>
      (if ar_success b
       then copies l r \<and> log_entries (db F') = l \<and>
         (commitIndex (nodes C u) = int (length l) - 1 \<longrightarrow> int (length l) - 1 \<le> commitIndex F')
       else 0 \<le> ae_prevLogIndex r \<and> \<not> (copies l r \<and> log_of C v = l))"
proof -
  have Rt: "reachable C" by (rule timely_reachable[OF R])
  have L: "line_inv C" by (rule reachable_line_inv[OF Rt q])
  note lf = leading_facts[OF Rt q ld]
  have pl: "plain (db F)" unfolding F_def by (rule held_plain[OF reachable_inv[OF Rt] L q v])
  note pf = plain_facts[OF pl]
  have ci: "lastApplied (sm F) = commitIndex F" "commitIndex (nodes C u) < int (length l)"
    using reachable_commit[OF R q] v ld by (auto simp: commit_inv_def commit_ok_def applied_ok_def F_def leading_def)
  have sn: "snapshots (db F) = []" using pl by (simp add: plain_def)
  have tm: "ar_term b = t" "currentTerm F' = t"
    using F(1) r(2) by (simp_all add: b_def F'_def F_def handleAppendEntries_term handleAppendEntries_role)
  have ln: "positions l" using lf(4) L by (auto simp: line_inv_def lines_ok_def)
  have cp: "prev_matches (db F) (ae_prevLogIndex r) (ae_prevLogTerm r)"
    if "copies l r" "log_of C v = l" "0 \<le> ae_prevLogIndex r"
    using that pf(1,7) by (auto simp: prev_matches_def loadMeta_def Let_def copies_def F_def)
  show ?thesis
  proof (cases r "nodes C v" rule: handleAppendEntries_cases)
    case stale
    with F(1) r(2) show ?thesis by (simp add: F_def)
  next
    case mismatch
    then show ?thesis using tm sn cp by (auto simp: F'_def b_def F_def)
  next
    case (success n2)
    have acc: "log_entries (store_entries (ae_entries r) (db F)) = l" "copies l r"
      using follower_stores[OF Rt q ld v r(1,2) F(1)[unfolded F_def] success(2)] by (simp_all add: F_def)
    have lg: "log_entries (db n2) = l" using acc(1) success(2,3) by (simp add: F_def node_frame)
    have fr: "snapshots (db n2) = []" "sm n2 = sm F" "commitIndex n2 = commitIndex F" "config n2 = config F"
      "last_snapshot_index (db n2) = -1"
      using success(3) sn pf(1) by (simp_all add: F_def node_frame config_ops db_simps)
    have st: "F' = (if commitIndex (nodes C u) > commitIndex n2
        then applyCommitted (n2\<lparr>commitIndex := min (commitIndex (nodes C u)) (lastIndex (db n2))\<rparr>) else n2)"
      using success(4) r(3) fr(3) by (simp add: F'_def F_def)
    have "lastApplied (sm n2) = commitIndex n2" "int (length l) < snapshotThreshold (config n2)" using fr ci(1) F(2) by simp_all
    note cm = follower_commits[OF lg ln lf(1) fr(5) this ci(2) st]
    with cm tm fr(1) lg acc(2) success(5) show ?thesis by (simp add: b_def)
  qed
qed

text \<open>The leader's side: a running leader with the log \<open>l\<close> far from its next snapshot.\<close>

definition running :: "entry list \<Rightarrow> int \<Rightarrow> node \<Rightarrow> bool" where
  "running l t n \<longleftrightarrow> role n = LEADER \<and> \<not> stopped n \<and> currentTerm n = t \<and> heartbeatTimer n \<noteq> None \<and>
     plain (db n) \<and> log_entries (db n) = l \<and> lastApplied (sm n) < int (length l) \<and>
     commitIndex n < int (length l) \<and> int (length l) < snapshotThreshold (config n)"

definition caught_up :: "node \<Rightarrow> bool" where
  "caught_up n \<longleftrightarrow> (\<forall>j. committable n j \<longrightarrow> j \<le> commitIndex n)"

lemma advance_running:
  assumes "running l t n"
  shows "running l t (maybeAdvanceCommitIndex n)" "caught_up (maybeAdvanceCommitIndex n)"
proof -
  have n: "plain (db n)" "log_entries (db n) = l" using assms by (simp_all add: running_def)
  note f = plain_facts[OF n(1)]
  have bound: "j \<le> lastIndex (db n)" if "committable n j" for j by (rule committable_bound[OF f(3) that])
  have "running l t (maybeAdvanceCommitIndex n) \<and> caught_up (maybeAdvanceCommitIndex n)"
  proof (cases n rule: maybeAdvance_cases)
    case no
    have "role n = LEADER" using assms by (simp add: running_def)
    with no(1) have "\<And>j. commitIndex n < j \<and> j \<le> lastIndex (db n) \<Longrightarrow> \<not> committable n j" by blast
    then have "caught_up n" using bound unfolding caught_up_def by (meson not_le)
    with no assms show ?thesis by simp
  next
    case (yes k)
    let ?m = "n\<lparr>commitIndex := k\<rparr>"
    have k: "k < int (length l)" using yes(3) f(4) n(2) by simp
    have "applyCommitted ?m = apply_loop ?m"
      using assms k f(1,3) by (intro no_snapshot[where k = "int (length l)"]) (simp_all add: running_def)
    then have e: "maybeAdvanceCommitIndex n = emit (CommitEv k) (apply_loop ?m)" using yes(6) by simp
    have "lastApplied (sm (apply_loop ?m)) < int (length l)"
      using apply_loop_bounds(2)[of ?m] f(3) assms k by (auto simp: running_def)
    then have "running l t (emit (CommitEv k) (apply_loop ?m))" using assms k by (simp add: running_def node_frame)
    moreover have "committable (emit (CommitEv k) (apply_loop ?m)) j = committable n j" for j
      by (rule committable_cong) (simp_all add: node_frame)
    then have "caught_up (emit (CommitEv k) (apply_loop ?m))"
      using yes(5) bound unfolding caught_up_def by (simp add: node_frame) (meson not_le)
    ultimately show ?thesis by (simp add: e)
  qed
  then show "running l t (maybeAdvanceCommitIndex n)" "caught_up (maybeAdvanceCommitIndex n)" by simp_all
qed

definition end_of :: "append_entries \<Rightarrow> int" where
  "end_of r = (if ae_entries r \<noteq> [] then e_index (last (ae_entries r)) else ae_prevLogIndex r)"

lemma end_of_copy: "copies l r \<Longrightarrow> positions l \<Longrightarrow> l \<noteq> [] \<Longrightarrow> end_of r = int (length l) - 1"
  by (auto simp: end_of_def copies_def positions_def last_conv_nth of_nat_diff Suc_le_eq)

lemma reply_running:
  assumes n: "running l t n" and b: "ar_term b \<le> t"
  shows "running l t (appendReply p r b n)" "peers (appendReply p r b n) = peers n"
    and "config (appendReply p r b n) = config n"
    and "commitIndex n \<le> commitIndex (appendReply p r b n)"
    and "ar_success b \<Longrightarrow> match_of (appendReply p r b n) p = end_of r \<and> next_of (appendReply p r b n) p = end_of r + 1
      \<and> caught_up (appendReply p r b n)"
    and "\<not> ar_success b \<Longrightarrow> next_of (appendReply p r b n) p = max 0 (ae_prevLogIndex r)"
    and "q \<noteq> p \<Longrightarrow> match_of (appendReply p r b n) q = match_of n q \<and> next_of (appendReply p r b n) q = next_of n q"
proof -
  have live: "\<not> stopped n" "role n = LEADER" "ar_term b \<le> currentTerm n" using n b by (simp_all add: running_def)
  note fx = append_reply_effects[where n = n and p = p and r = r and b = b]
  show "running l t (appendReply p r b n)"
  proof (cases "ar_success b")
    case True
    have "running l t (n\<lparr>matchIndex := m, nextIndex := x\<rparr>)" for m x using n by (simp add: running_def)
    then show ?thesis using True live by (auto simp: appendReply_def Let_def intro: advance_running(1))
  next
    case False
    then show ?thesis using n live by (auto simp: appendReply_def Let_def running_def)
  qed
  show "peers (appendReply p r b n) = peers n" "config (appendReply p r b n) = config n"
    using appendReply_vote_le[of n p r b] by (simp_all add: vote_le_def config_ops)
  show "commitIndex n \<le> commitIndex (appendReply p r b n)" using fx by blast
  show "\<not> ar_success b \<Longrightarrow> next_of (appendReply p r b n) p = max 0 (ae_prevLogIndex r)" using fx live by blast
  show "q \<noteq> p \<Longrightarrow> match_of (appendReply p r b n) q = match_of n q \<and> next_of (appendReply p r b n) q = next_of n q"
    using fx by blast
  assume s: "ar_success b"
  have "caught_up (appendReply p r b n)"
    using s live n by (auto simp: appendReply_def Let_def running_def intro!: advance_running(2)[of l t])
  then show "match_of (appendReply p r b n) p = end_of r \<and> next_of (appendReply p r b n) p = end_of r + 1
      \<and> caught_up (appendReply p r b n)"
    using fx s live unfolding end_of_def by blast
qed

lemma replies_running:
  fixes r :: "string \<Rightarrow> append_entries" and b :: "string \<Rightarrow> append_reply" and ps :: "string list" and n :: node
  defines "n' \<equiv> fold (\<lambda>p. appendReply p (r p) (b p)) ps n"
  assumes "running l t n" "\<forall>p \<in> set ps. ar_term (b p) \<le> t" "distinct ps"
  shows "running l t n' \<and> peers n' = peers n \<and> config n' = config n \<and> commitIndex n \<le> commitIndex n' \<and>
    (\<forall>p \<in> set ps. if ar_success (b p) then match_of n' p = end_of (r p) \<and> next_of n' p = end_of (r p) + 1
       else next_of n' p = max 0 (ae_prevLogIndex (r p))) \<and>
    (\<forall>q. q \<notin> set ps \<longrightarrow> match_of n' q = match_of n q \<and> next_of n' q = next_of n q) \<and>
    (ps \<noteq> [] \<and> (\<forall>p \<in> set ps. ar_success (b p)) \<longrightarrow> caught_up n')"
  using assms(3,4) unfolding n'_def
proof (induction ps rule: rev_induct)
  case Nil
  then show ?case using assms(2) by simp
next
  case (snoc p ps)
  let ?m = "fold (\<lambda>p. appendReply p (r p) (b p)) ps n"
  have IH: "running l t ?m \<and> peers ?m = peers n \<and> config ?m = config n \<and> commitIndex n \<le> commitIndex ?m \<and>
    (\<forall>p \<in> set ps. if ar_success (b p) then match_of ?m p = end_of (r p) \<and> next_of ?m p = end_of (r p) + 1
       else next_of ?m p = max 0 (ae_prevLogIndex (r p))) \<and>
    (\<forall>q. q \<notin> set ps \<longrightarrow> match_of ?m q = match_of n q \<and> next_of ?m q = next_of n q)"
    using snoc by simp
  then have m: "running l t ?m" by blast
  have b: "ar_term (b p) \<le> t" using snoc.prems by simp
  define k where "k = appendReply p (r p) (b p) ?m"
  note rr = reply_running[OF m b, where p = p and r = "r p", folded k_def]
  have p: "p \<notin> set ps" using snoc.prems by simp
  have old: "if ar_success (b q) then match_of k q = end_of (r q) \<and> next_of k q = end_of (r q) + 1
      else next_of k q = max 0 (ae_prevLogIndex (r q))" if q: "q \<in> set ps" for q
  proof -
    have "q \<noteq> p" using q p by blast
    with rr(7)[of q] IH q show ?thesis by simp
  qed
  have "fold (\<lambda>p. appendReply p (r p) (b p)) (ps @ [p]) n = k" by (simp add: k_def)
  then show ?case using IH rr old by (simp only: set_append list.set) auto
qed

subsection \<open>The exchange of one round\<close>

lemma fake_calls_all:
  assumes "distinct ps" "\<forall>p \<in> set ps. \<exists>x. map_get reg p = Some x \<and> rec_open x"
  shows "snd (fake_calls (map (\<lambda>p. (p, AppendCall (r p))) ps) reg) =
      map (\<lambda>p. (p, AppendCall (r p), Some (AppendAnswer (snd (handleAppendEntries (r p) (rec_node (the (map_get reg p)))))))) ps
    \<and> (\<forall>q. map_get (fst (fake_calls (map (\<lambda>p. (p, AppendCall (r p))) ps) reg)) q =
      (if q \<in> set ps
       then Some ((the (map_get reg q))\<lparr>rec_node := fst (handleAppendEntries (r q) (rec_node (the (map_get reg q))))\<rparr>)
       else map_get reg q))"
  using assms
proof (induction ps arbitrary: reg)
  case (Cons p ps)
  obtain x where x: "map_get reg p = Some x" "rec_open x" using Cons.prems by auto
  let ?reg = "map_set p (x\<lparr>rec_node := fst (handleAppendEntries (r p) (rec_node x))\<rparr>) reg"
  have f: "fake_call p (AppendCall (r p)) reg = (?reg, Some (AppendAnswer (snd (handleAppendEntries (r p) (rec_node x)))))"
    using x by (simp add: fake_call_def route_call_def)
  have same: "map_get ?reg q = map_get reg q" if "q \<in> set ps" for q
    using that Cons.prems(1) by (auto simp: update_conv')
  have d: "distinct ps" "\<forall>q \<in> set ps. \<exists>x. map_get ?reg q = Some x \<and> rec_open x"
    using Cons.prems same by auto
  show ?case using Cons.IH[OF d] same x Cons.prems(1) by (auto simp: f update_conv')
qed simp_all

lemma answers_all:
  assumes "map_get reg u = Some t"
  shows "map_get (fold (answer_to u) (map (\<lambda>p. (p, AppendCall (r p), Some (AppendAnswer (b p)))) ps) reg) q =
    (if q = u then Some (t\<lparr>rec_node := fold (\<lambda>p. appendReply p (r p) (b p)) ps (rec_node t)\<rparr>) else map_get reg q)"
  using assms
proof (induction ps arbitrary: reg t)
  case (Cons p ps)
  let ?t = "t\<lparr>rec_node := appendReply p (r p) (b p) (rec_node t)\<rparr>"
  have a: "answer_to u (p, AppendCall (r p), Some (AppendAnswer (b p))) reg = map_set u ?t reg"
    using Cons.prems by (simp add: answer_to_def)
  have "map_get (map_set u ?t reg) u = Some ?t" by (simp add: update_conv')
  from Cons.IH[OF this] show ?case by (simp add: a update_conv')
qed simp

text \<open>The request of a leader without a snapshot to a peer.\<close>

definition plain_request :: "node \<Rightarrow> string \<Rightarrow> append_entries" where
  "plain_request n p = \<lparr>ae_term = currentTerm n, ae_leaderId = replicaId n,
     ae_prevLogIndex = next_of n p - 1, ae_prevLogTerm = prev_term (db n) (next_of n p - 1),
     ae_entries = (if next_of n p \<le> lastIndex (db n) then getRange (db n) (next_of n p) (lastIndex (db n)) else []),
     ae_leaderCommit = commitIndex n\<rparr>"

lemma plain_requests:
  assumes "running l t n" "\<forall>p. 0 \<le> next_of n p"
  shows "requests n = map (\<lambda>p. (p, AppendCall (plain_request n p))) (peers n)"
    and "dud (plain_request n p) \<or> copies l (plain_request n p)"
    and "next_of n p \<le> int (length l) \<Longrightarrow> copies l (plain_request n p)"
proof -
  have pl: "plain (db n)" "log_entries (db n) = l" using assms(1) by (simp_all add: running_def)
  note f = plain_facts[OF pl(1)]
  have nn: "(next_of n p < 0) = False" for p using assms(2) by (simp add: not_less)
  have a: "appendRequest n p = Some (AppendCall (plain_request n p))" for p
    using assms(1) by (simp add: nn appendRequest_def plain_request_def Let_def f(6) running_def not_less)
  show "requests n = map (\<lambda>p. (p, AppendCall (plain_request n p))) (peers n)"
    using assms(1) by (simp add: requests_def running_def a map_option_case comp_def)
  show "dud (plain_request n p) \<or> copies l (plain_request n p)"
    using request_fresh[OF pl(1) _ a, of p] assms(2) pl(2) by (auto simp: fresh_call_def)
  show "copies l (plain_request n p)" if "next_of n p \<le> int (length l)"
    using that nn[of p] assms(2) plain_range[OF pl(1), of "next_of n p"] pl(2)
    by (auto simp: copies_def plain_request_def prev_term_def loadMeta_def Let_def f(1,7))
qed

text \<open>A quiet cluster in which \<open>u\<close> leads with the log \<open>l\<close> and nobody is ahead of it or down.\<close>

definition calm :: "cluster \<Rightarrow> registry \<Rightarrow> string \<Rightarrow> entry list \<Rightarrow> int \<Rightarrow> bool" where
  "calm C reg u l t \<longleftrightarrow> reachable_if timely C \<and> mirrors C reg \<and> quiet C \<and> leading C u l t \<and>
     running l t (nodes C u) \<and>
     (\<forall>p x. map_get reg p = Some x \<longrightarrow> rec_open x \<and> currentTerm (rec_node x) \<le> t \<and>
        int (length l) < snapshotThreshold (config (rec_node x)))"

lemma mirrors_none: "mirrors C reg \<Longrightarrow> map_get reg p = None \<longleftrightarrow> p \<notin> set (urls C)"
  by (simp add: mirrors_def map_of_eq_None_iff)

definition matched :: "cluster \<Rightarrow> string \<Rightarrow> entry list \<Rightarrow> string \<Rightarrow> bool" where
  "matched C u l p \<longleftrightarrow> log_of C p = l \<and> next_of (nodes C u) p = int (length l)"

text \<open>A round in which the peers in \<open>S\<close> accept.\<close>

definition round_to :: "cluster \<Rightarrow> string \<Rightarrow> entry list \<Rightarrow> string set \<Rightarrow> cluster \<Rightarrow> bool" where
  "round_to C u l S C' \<longleftrightarrow> runs C C' \<and> peers (nodes C' u) = peers (nodes C u) \<and> S \<subseteq> set (peers (nodes C u)) \<and>
     (\<forall>p \<in> S. matched C' u l p) \<and>
     (\<forall>p \<in> set (peers (nodes C u)) - S. 0 < next_of (nodes C u) p \<and>
        next_of (nodes C' u) p = next_of (nodes C u) p - 1 \<and> \<not> matched C u l p) \<and>
     (S = set (peers (nodes C u)) \<and> S \<noteq> {} \<longrightarrow> commitIndex (nodes C' u) = int (length l) - 1) \<and>
     (commitIndex (nodes C u) = int (length l) - 1 \<longrightarrow> (\<forall>p \<in> S. commitIndex (nodes C' p) = int (length l) - 1))"

lemma calm_facts:
  assumes K: "calm C reg u l t"
  shows "reachable C" "l \<noteq> []" "last_term l = t" "positions l" "u \<in> set (urls C)"
    and "distinct (peers (nodes C u))" "set (peers (nodes C u)) = set (urls C) - {u}" "\<forall>p. 0 \<le> next_of (nodes C u) p"
    and "p \<in> set (urls C) \<Longrightarrow> \<exists>x. map_get reg p = Some x \<and> rec_open x \<and> rec_node x = nodes C p \<and>
        currentTerm (nodes C p) \<le> t \<and> int (length l) < snapshotThreshold (config (nodes C p))"
proof -
  have R: "reachable_if timely C" "mirrors C reg" "quiet C" "leading C u l t" using K by (simp_all add: calm_def)
  show Rt: "reachable C" by (rule timely_reachable[OF R(1)])
  have LI: "line_inv C" by (rule reachable_line_inv[OF Rt R(3)])
  note lf = leading_facts[OF Rt R(3,4)]
  show "l \<noteq> []" "last_term l = t" by (rule lf)+
  show "positions l" using lf(4) LI by (auto simp: line_inv_def lines_ok_def)
  show u: "u \<in> set (urls C)" using R(4) by (simp add: leading_def)
  show "distinct (peers (nodes C u))" "set (peers (nodes C u)) = set (urls C) - {u}"
    using reachable_inv[OF Rt] u by (auto simp: cluster_inv_def vote_inv_def conf_def)
  show "\<forall>p. 0 \<le> next_of (nodes C u) p" using LI u by (auto simp: line_inv_def held_ok_def)
  assume p: "p \<in> set (urls C)"
  obtain x where x: "map_get reg p = Some x" "nodes C p = rec_node x" by (rule mirrors_get[OF R(2) p])
  then have "rec_open x \<and> currentTerm (rec_node x) \<le> t \<and> int (length l) < snapshotThreshold (config (rec_node x))"
    using K by (simp add: calm_def)
  with x show "\<exists>x. map_get reg p = Some x \<and> rec_open x \<and> rec_node x = nodes C p \<and>
        currentTerm (nodes C p) \<le> t \<and> int (length l) < snapshotThreshold (config (nodes C p))" by auto
qed

text \<open>
  One round of the leader \<open>u\<close>: what its request does at a peer, who accepts, and the leader once it has
  all the answers.
\<close>

definition told :: "cluster \<Rightarrow> string \<Rightarrow> string \<Rightarrow> node \<times> append_reply" where
  "told C u p = handleAppendEntries (plain_request (nodes C u) p) (nodes C p)"

definition agreed :: "cluster \<Rightarrow> string \<Rightarrow> string set" where
  "agreed C u = {p \<in> set (peers (nodes C u)). ar_success (snd (told C u p))}"

definition heard :: "cluster \<Rightarrow> string \<Rightarrow> node" where
  "heard C u = fold (\<lambda>p. appendReply p (plain_request (nodes C u) p) (snd (told C u p))) (peers (nodes C u))
     (sendAppendEntriesToAll (nodes C u))"

lemma told_facts:
  assumes K: "calm C reg u l t" and p: "p \<in> set (peers (nodes C u))"
  shows "ar_term (snd (told C u p)) = t" "currentTerm (fst (told C u p)) = t" "snapshots (db (fst (told C u p))) = []"
    and "config (fst (told C u p)) = config (nodes C p)"
    and "p \<in> agreed C u \<Longrightarrow> log_entries (db (fst (told C u p))) = l \<and> end_of (plain_request (nodes C u) p) = int (length l) - 1 \<and>
        (commitIndex (nodes C u) = int (length l) - 1 \<longrightarrow> int (length l) - 1 \<le> commitIndex (fst (told C u p)))"
    and "p \<notin> agreed C u \<Longrightarrow> 0 < next_of (nodes C u) p \<and> \<not> matched C u l p"
proof -
  let ?r = "plain_request (nodes C u) p"
  note cf = calm_facts[OF K]
  have R: "reachable_if timely C" "quiet C" "leading C u l t" and rn: "running l t (nodes C u)" using K by (simp_all add: calm_def)
  have pu: "p \<in> set (urls C)" using p cf(7) by blast
  then have F: "currentTerm (nodes C p) \<le> t" "int (length l) < snapshotThreshold (config (nodes C p))" using cf(9) by blast+
  have rq: "dud ?r \<or> copies l ?r" "ae_term ?r = t" "ae_leaderCommit ?r = commitIndex (nodes C u)"
    using plain_requests(2)[OF rn cf(8), of p] rn by (simp_all add: plain_request_def running_def)
  note fr = follower_round[OF R pu rq F, folded told_def]
  show "ar_term (snd (told C u p)) = t" "currentTerm (fst (told C u p)) = t" "snapshots (db (fst (told C u p))) = []"
    using fr by simp_all
  show "config (fst (told C u p)) = config (nodes C p)" by (simp add: told_def config_ops)
  show "log_entries (db (fst (told C u p))) = l \<and> end_of ?r = int (length l) - 1 \<and>
      (commitIndex (nodes C u) = int (length l) - 1 \<longrightarrow> int (length l) - 1 \<le> commitIndex (fst (told C u p)))"
    if "p \<in> agreed C u" using fr that end_of_copy[OF _ cf(4,2)] by (simp add: agreed_def)
  show "0 < next_of (nodes C u) p \<and> \<not> matched C u l p" if "p \<notin> agreed C u"
  proof -
    have "0 \<le> ae_prevLogIndex ?r" "\<not> (copies l ?r \<and> log_of C p = l)" using fr that p by (simp_all add: agreed_def)
    moreover have "copies l ?r" if "next_of (nodes C u) p = int (length l)" using plain_requests(3)[OF rn cf(8), of p] that by simp
    ultimately show ?thesis by (auto simp: matched_def plain_request_def)
  qed
qed

lemma heard_facts:
  assumes K: "calm C reg u l t"
  shows "running l t (heard C u)" "peers (heard C u) = peers (nodes C u)"
    and "p \<in> agreed C u \<Longrightarrow> match_of (heard C u) p = int (length l) - 1 \<and> next_of (heard C u) p = int (length l)"
    and "p \<in> set (peers (nodes C u)) - agreed C u \<Longrightarrow> next_of (heard C u) p = next_of (nodes C u) p - 1"
    and "agreed C u = set (peers (nodes C u)) \<Longrightarrow> peers (nodes C u) \<noteq> [] \<Longrightarrow> caught_up (heard C u)"
proof -
  have rn: "running l t (nodes C u)" using K by (simp add: calm_def)
  then have M: "running l t (sendAppendEntriesToAll (nodes C u))" by (simp add: running_def node_frame)
  have bt: "\<forall>p \<in> set (peers (nodes C u)). ar_term (snd (told C u p)) \<le> t" using told_facts(1)[OF K] by simp
  note rr = replies_running[OF M bt calm_facts(6)[OF K], where r = "plain_request (nodes C u)", folded heard_def]
  show "running l t (heard C u)" "peers (heard C u) = peers (nodes C u)" using rr by (simp_all add: node_frame)
  have eff: "if p \<in> agreed C u then match_of (heard C u) p = end_of (plain_request (nodes C u) p)
        \<and> next_of (heard C u) p = end_of (plain_request (nodes C u) p) + 1
      else next_of (heard C u) p = max 0 (ae_prevLogIndex (plain_request (nodes C u) p))"
    if "p \<in> set (peers (nodes C u))" for p using rr that by (simp add: agreed_def)
  show "match_of (heard C u) p = int (length l) - 1 \<and> next_of (heard C u) p = int (length l)" if p: "p \<in> agreed C u"
  proof -
    have "p \<in> set (peers (nodes C u))" using p by (simp add: agreed_def)
    with eff[OF this] told_facts(5)[OF K this p] p show ?thesis by simp
  qed
  show "next_of (heard C u) p = next_of (nodes C u) p - 1" if p: "p \<in> set (peers (nodes C u)) - agreed C u"
    using eff[of p] told_facts(6)[OF K, of p] p by (simp add: plain_request_def)
  show "caught_up (heard C u)" if all: "agreed C u = set (peers (nodes C u))" "peers (nodes C u) \<noteq> []"
  proof -
    have "\<forall>p \<in> set (peers (nodes C u)). ar_success (snd (told C u p))" using all(1) by (auto simp: agreed_def)
    with rr all(2) show ?thesis by blast
  qed
qed

text \<open>A leader that has caught up with matches at all peers has committed its whole log.\<close>

lemma caught_up_commits:
  assumes n: "running l t n" "caught_up n" "peers n \<noteq> []" "\<forall>p \<in> set (peers n). match_of n p = int (length l) - 1"
    and l: "l \<noteq> []" "last_term l = t"
  shows "commitIndex n = int (length l) - 1"
proof -
  have pl: "plain (db n)" "log_entries (db n) = l" "currentTerm n = t" using n(1) by (simp_all add: running_def)
  have "nat (int (length l) - 1) = length l - 1" by linarith
  then have "getEntry (db n) (int (length l) - 1) = Some (last l)"
    using l(1) by (simp add: plain_facts(7)[OF pl(1)] pl(2) last_conv_nth)
  moreover have "filter (\<lambda>p. int (length l) - 1 \<le> match_of n p) (peers n) = peers n" using n(4) by (simp add: filter_id_conv)
  then have "replica_count n (int (length l) - 1) = 1 + int (length (peers n))" by (simp add: replica_count_def)
  moreover have "1 \<le> length (peers n)" using n(3) by (cases "peers n") auto
  ultimately have "committable n (int (length l) - 1)" using l by (simp add: committable_def majority_def pl(3) last_term_def)
  then have "int (length l) - 1 \<le> commitIndex n" using n(2) by (simp add: caught_up_def)
  moreover have "commitIndex n < int (length l)" using n(1) by (simp add: running_def)
  ultimately show ?thesis by simp
qed

lemma heartbeat_nodes:
  assumes K: "calm C reg u l t"
  shows "map_get (smoke_heartbeat u reg) v =
    map_option (\<lambda>x. x\<lparr>rec_node := if v = u then heard C u else fst (told C u v)\<rparr>) (map_get reg v)"
proof -
  note cf = calm_facts[OF K]
  have rn: "running l t (nodes C u)" and mi: "mirrors C reg" using K by (simp_all add: calm_def)
  obtain y where y: "map_get reg u = Some y" "rec_node y = nodes C u" using cf(9)[OF cf(5)] by blast
  let ?ps = "peers (nodes C u)" and ?M = "sendAppendEntriesToAll (nodes C u)" and ?r = "plain_request (nodes C u)"
  let ?pcs = "map (\<lambda>p. (p, AppendCall (?r p))) ?ps" and ?reg1 = "map_set u (y\<lparr>rec_node := ?M\<rparr>) reg"
  have got: "\<exists>x. map_get ?reg1 p = Some x \<and> map_get reg p = Some x \<and> rec_open x \<and> rec_node x = nodes C p"
    if "p \<in> set ?ps" for p using that cf(7) cf(9)[of p] by (auto simp: update_conv')
  have node1: "rec_node (the (map_get ?reg1 p)) = nodes C p" if "p \<in> set ?ps" for p using got[OF that] by force
  have "\<forall>p \<in> set ?ps. \<exists>x. map_get ?reg1 p = Some x \<and> rec_open x" using got by blast
  note fc = fake_calls_all[OF cf(6) this, of ?r]
  have as: "snd (fake_calls ?pcs ?reg1) = map (\<lambda>p. (p, AppendCall (?r p), Some (AppendAnswer (snd (told C u p))))) ?ps"
    using fc by (simp add: node1 told_def cong: map_cong)
  have "run_at u sendAppendEntriesToAll reg = fake_calls ?pcs ?reg1"
    using y plain_requests(1)[OF rn cf(8)] by (simp add: run_at_def Let_def sendAppendEntriesToAll_eq)
  moreover have "heartbeatTimer (nodes C u) \<noteq> None" using rn by (simp add: running_def)
  ultimately have hb: "smoke_heartbeat u reg = fold (answer_to u) (snd (fake_calls ?pcs ?reg1)) (fst (fake_calls ?pcs ?reg1))"
    using y by (auto simp: smoke_heartbeat_def settle_def)
  have "u \<notin> set ?ps" using cf(7) by blast
  then have "map_get (fst (fake_calls ?pcs ?reg1)) u = Some (y\<lparr>rec_node := ?M\<rparr>)" using fc by (simp add: update_conv')
  note an = answers_all[OF this, where r = ?r and b = "\<lambda>p. snd (told C u p)" and ps = ?ps, folded as, folded hb]
  consider "v = u" | "v \<noteq> u" "v \<in> set ?ps" | "v \<noteq> u" "v \<notin> set ?ps" by blast
  then show ?thesis
  proof cases
    case 1
    with an[of u] y show ?thesis by (simp add: heard_def)
  next
    case 2
    with got[OF 2(2)] an[of v] fc show ?thesis by (auto simp: told_def)
  next
    case 3
    then have "map_get reg v = None" using cf(7) mi by (auto simp: mirrors_def map_of_eq_None_iff)
    with an[of v] fc 3 show ?thesis by (simp add: update_conv')
  qed
qed

lemma heartbeat_calm:
  assumes K: "calm C reg u l t"
  obtains C' where "runs C C'" "calm C' (smoke_heartbeat u reg) u l t" "set (urls C') = set (urls C)" "nodes C' u = heard C u"
    "\<And>p. p \<in> set (peers (nodes C u)) \<Longrightarrow> nodes C' p = fst (told C u p)"
proof -
  note cf = calm_facts[OF K] and hn = heartbeat_nodes[OF K]
  have R: "reachable_if timely C" "mirrors C reg" using K by (simp_all add: calm_def)
  obtain C' where C': "runs C C'" "mirrors C' (smoke_heartbeat u reg)" using heartbeat_run[OF R, of u] by blast
  have u': "set (urls C') = set (urls C)"
  proof -
    have "v \<in> set (urls C') \<longleftrightarrow> v \<in> set (urls C)" for v
      using mirrors_none[OF C'(2), of v] mirrors_none[OF R(2), of v] by (simp add: hn)
    then show ?thesis by blast
  qed
  have nd: "nodes C' v = (if v = u then heard C u else fst (told C u v))" if v: "v \<in> set (urls C)" for v
    using cf(9)[OF v] C'(2) by (auto simp: mirrors_def hn)
  have peer: "v \<in> set (peers (nodes C u))" if "v \<in> set (urls C)" "v \<noteq> u" for v using that cf(7) by blast
  note hf = heard_facts[OF K]
  have n': "nodes C' u = heard C u" using nd[OF cf(5)] by simp
  have "quiet C'"
    unfolding quiet_def u'
  proof
    fix v assume "v \<in> set (urls C)"
    with nd hf(1) told_facts(3)[OF K peer] show "snapshots (db (nodes C' v)) = []"
      by (cases "v = u") (simp_all add: running_def plain_def)
  qed
  moreover have "leading C' u l t" using n' hf(1) cf(5) u' by (simp add: leading_def running_def)
  moreover have "rec_open x \<and> currentTerm (rec_node x) \<le> t \<and> int (length l) < snapshotThreshold (config (rec_node x))"
    if "map_get (smoke_heartbeat u reg) p = Some x" for p x
  proof -
    have p: "p \<in> set (urls C)" using that mirrors_none[OF R(2), of p] by (cases "p \<in> set (urls C)") (simp_all add: hn)
    with that cf(9)[OF p] hf(1) told_facts(2,4)[OF K peer[OF p]] show ?thesis
      by (cases "p = u") (auto simp: hn running_def)
  qed
  ultimately have "calm C' (smoke_heartbeat u reg) u l t"
    unfolding calm_def using reachable_runs[OF C'(1) R(1)] C'(2) hf(1) n' by simp
  moreover have "nodes C' p = fst (told C u p)" if "p \<in> set (peers (nodes C u))" for p using nd[of p] that cf(7) by auto
  ultimately show thesis using that C'(1) u' n' by blast
qed

lemma heartbeat_round:
  assumes K: "calm C reg u l t"
  obtains C' S where "calm C' (smoke_heartbeat u reg) u l t" "round_to C u l S C'"
proof -
  note cf = calm_facts[OF K] and tf = told_facts[OF K] and hf = heard_facts[OF K]
  obtain C' where C': "runs C C'" "calm C' (smoke_heartbeat u reg) u l t" "set (urls C') = set (urls C)" "nodes C' u = heard C u"
    and p': "\<And>p. p \<in> set (peers (nodes C u)) \<Longrightarrow> nodes C' p = fst (told C u p)"
    by (rule heartbeat_calm[OF K]) blast
  let ?S = "agreed C u"
  have S: "p \<in> set (peers (nodes C u))" if "p \<in> ?S" for p using that by (simp add: agreed_def)
  have top: "commitIndex (nodes C' v) \<le> int (length (log_of C' v)) - 1" if "v \<in> set (urls C)" for v
    using reachable_commit[of C'] C'(2,3) that by (force simp: calm_def commit_inv_def commit_ok_def)
  have "round_to C u l ?S C'"
    unfolding round_to_def
  proof (intro conjI ballI impI C'(1))
    show "peers (nodes C' u) = peers (nodes C u)" using C'(4) hf(2) by simp
    show "?S \<subseteq> set (peers (nodes C u))" using S by blast
    show "matched C' u l p" if p: "p \<in> ?S" for p
      using tf(5)[OF S[OF p] p] hf(3)[OF p] p'[OF S[OF p]] C'(4) by (simp add: matched_def)
    show "0 < next_of (nodes C u) p" "next_of (nodes C' u) p = next_of (nodes C u) p - 1" "\<not> matched C u l p"
      if p: "p \<in> set (peers (nodes C u)) - ?S" for p using tf(6)[of p] hf(4)[OF p] p C'(4) by simp_all
    show "commitIndex (nodes C' u) = int (length l) - 1" if "?S = set (peers (nodes C u)) \<and> ?S \<noteq> {}"
    proof -
      have "peers (nodes C u) \<noteq> []" using that by auto
      then have "caught_up (heard C u)" "peers (heard C u) \<noteq> []" using hf(2,5) that by auto
      then show ?thesis using caught_up_commits[OF hf(1) _ _ _ cf(2,3)] hf(2,3) that C'(4) by simp
    qed
    show "commitIndex (nodes C' p) = int (length l) - 1"
      if c: "commitIndex (nodes C u) = int (length l) - 1" and p: "p \<in> ?S" for p
    proof -
      have "p \<in> set (urls C)" using S[OF p] cf(7) by blast
      from top[OF this] tf(5)[OF S[OF p] p] c p'[OF S[OF p]] show ?thesis by simp
    qed
  qed
  with C'(2) show thesis by (rule that)
qed

subsection \<open>Convergence\<close>

abbreviation rounds :: "string \<Rightarrow> nat \<Rightarrow> registry \<Rightarrow> registry" where
  "rounds u k reg \<equiv> (smoke_heartbeat u ^^ k) reg"

text \<open>After \<open>j\<close> rounds a peer has the leader's log or is tried \<open>j\<close> entries earlier.\<close>

lemma rounds_back_off:
  assumes "calm C reg u l t" "\<forall>p \<in> set (peers (nodes C u)). next_of (nodes C u) p \<le> int N"
  shows "\<exists>D. runs C D \<and> calm D (rounds u j reg) u l t \<and> peers (nodes D u) = peers (nodes C u) \<and>
    (\<forall>p \<in> set (peers (nodes C u)). matched D u l p \<or> next_of (nodes D u) p \<le> int N - int j)"
proof (induction j)
  case 0
  then show ?case using assms by (intro exI[of _ C]) auto
next
  case (Suc j)
  then obtain D where D: "runs C D" "calm D (rounds u j reg) u l t" "peers (nodes D u) = peers (nodes C u)"
    "\<forall>p \<in> set (peers (nodes C u)). matched D u l p \<or> next_of (nodes D u) p \<le> int N - int j" by blast
  obtain E S where E: "calm E (smoke_heartbeat u (rounds u j reg)) u l t" "round_to D u l S E"
    by (rule heartbeat_round[OF D(2)])
  have "matched E u l p \<or> next_of (nodes E u) p \<le> int N - int (Suc j)" if p: "p \<in> set (peers (nodes C u))" for p
  proof (cases "p \<in> S")
    case True
    with E(2) show ?thesis by (simp add: round_to_def)
  next
    case False
    with p D(3) have "p \<in> set (peers (nodes D u)) - S" by simp
    with E(2) have "next_of (nodes E u) p = next_of (nodes D u) p - 1" "\<not> matched D u l p" by (simp_all add: round_to_def)
    with D(4) p show ?thesis by auto
  qed
  moreover have "runs C E" by (rule rtranclp_trans[OF D(1)]) (use E(2) in \<open>simp add: round_to_def\<close>)
  moreover have "peers (nodes E u) = peers (nodes C u)" using D(3) E(2) by (simp add: round_to_def)
  ultimately show ?case using E(1) by (intro exI[of _ E]) simp
qed

definition settled :: "cluster \<Rightarrow> string \<Rightarrow> entry list \<Rightarrow> bool" where
  "settled C u l \<longleftrightarrow> (\<forall>p \<in> set (peers (nodes C u)). matched C u l p) \<and> commitIndex (nodes C u) = int (length l) - 1"

lemma settled_round:
  assumes K: "calm C reg u l t" and s: "settled C u l" and ne: "peers (nodes C u) \<noteq> []"
  shows "\<exists>D. runs C D \<and> calm D (smoke_heartbeat u reg) u l t \<and> peers (nodes D u) = peers (nodes C u) \<and>
    settled D u l \<and> (\<forall>p \<in> set (peers (nodes C u)). commitIndex (nodes D p) = int (length l) - 1)"
proof -
  obtain D S where D: "calm D (smoke_heartbeat u reg) u l t" "round_to C u l S D" by (rule heartbeat_round[OF K])
  have S: "S = set (peers (nodes C u))" using D(2) s by (auto simp: settled_def round_to_def)
  then have "settled D u l" using D(2) ne by (simp add: settled_def round_to_def)
  then show ?thesis using D s S by (intro exI[of _ D]) (simp add: settled_def round_to_def)
qed

lemma rounds_settle:
  assumes K: "calm C reg u l t" and N: "\<forall>p \<in> set (peers (nodes C u)). next_of (nodes C u) p \<le> int N"
    and ne: "peers (nodes C u) \<noteq> []"
  shows "\<exists>D. runs C D \<and> calm D (rounds u (Suc N) reg) u l t \<and> peers (nodes D u) = peers (nodes C u) \<and> settled D u l"
proof -
  obtain D where D: "runs C D" "calm D (rounds u N reg) u l t" "peers (nodes D u) = peers (nodes C u)"
    "\<forall>p \<in> set (peers (nodes C u)). matched D u l p \<or> next_of (nodes D u) p \<le> 0"
    using rounds_back_off[OF K N, of N] by auto
  obtain E S where E: "calm E (smoke_heartbeat u (rounds u N reg)) u l t" "round_to D u l S E" by (rule heartbeat_round[OF D(2)])
  have "p \<in> S" if p: "p \<in> set (peers (nodes D u))" for p
  proof (rule ccontr)
    assume "p \<notin> S"
    with p E(2) have "0 < next_of (nodes D u) p" "\<not> matched D u l p" by (simp_all add: round_to_def)
    with D(3,4) p show False by auto
  qed
  then have S: "S = set (peers (nodes D u))" using E(2) by (auto simp: round_to_def)
  then have "settled E u l" using E(2) ne D(3) by (simp add: settled_def round_to_def)
  moreover have "runs C E" by (rule rtranclp_trans[OF D(1)]) (use E(2) in \<open>simp add: round_to_def\<close>)
  moreover have "peers (nodes E u) = peers (nodes C u)" using D(3) E(2) by (simp add: round_to_def)
  ultimately show ?thesis using E(1) by (intro exI[of _ E]) simp
qed

lemma rounds_converge:
  assumes K: "calm C reg u l t" and N: "\<forall>p \<in> set (peers (nodes C u)). next_of (nodes C u) p \<le> int N"
    and ne: "peers (nodes C u) \<noteq> []"
  shows "\<exists>D. runs C D \<and> calm D (rounds u (N + 2 + k) reg) u l t \<and> peers (nodes D u) = peers (nodes C u) \<and> settled D u l \<and>
    (\<forall>p \<in> set (peers (nodes C u)). commitIndex (nodes D p) = int (length l) - 1)"
proof (induction k)
  case 0
  obtain D where D: "runs C D" "calm D (rounds u (Suc N) reg) u l t" "peers (nodes D u) = peers (nodes C u)" "settled D u l"
    using rounds_settle[OF assms] by blast
  from settled_round[OF D(2,4)] D(3) ne obtain E where "runs D E" "calm E (smoke_heartbeat u (rounds u (Suc N) reg)) u l t"
    "peers (nodes E u) = peers (nodes C u)" "settled E u l"
    "\<forall>p \<in> set (peers (nodes C u)). commitIndex (nodes E p) = int (length l) - 1" by auto
  with D(1) show ?case by (intro exI[of _ E]) auto
next
  case (Suc k)
  then obtain D where D: "runs C D" "calm D (rounds u (N + 2 + k) reg) u l t" "peers (nodes D u) = peers (nodes C u)" "settled D u l"
    by blast
  from settled_round[OF D(2,4)] D(3) ne obtain E where "runs D E" "calm E (smoke_heartbeat u (rounds u (N + 2 + k) reg)) u l t"
    "peers (nodes E u) = peers (nodes C u)" "settled E u l"
    "\<forall>p \<in> set (peers (nodes C u)). commitIndex (nodes E p) = int (length l) - 1" by auto
  with D(1) show ?case by (intro exI[of _ E]) auto
qed

subsection \<open>Properties\<close>

text \<open>
  C10: heartbeats make the cluster converge. Take a state of the smoke test's program, whose calls inside one
  process are neither lost nor reordered, reached with every answer taken in the term of its call; no node has
  taken a snapshot, every node's file is open, and the leader's log is shorter than the \<open>snapshotThreshold\<close> of every
  node. In it a node with at least one peer leads, is not stopped, has its heartbeat timer set, and no node is in a newer
  term than it; \<open>N\<close> is a bound on its next index for every peer. After \<open>N + 2\<close> or more rounds of its heartbeats, with
  nothing else going on, every node has the leader's log, has committed all of it, and its state machine is that of
  the whole log.
\<close>

theorem heartbeats_converge:
  assumes "reachable_if timely C" "mirrors C reg" "quiet C"
    and "map_get reg u = Some y" "role (rec_node y) = LEADER" "\<not> stopped (rec_node y)" "heartbeatTimer (rec_node y) \<noteq> None"
    and "\<forall>(p, x) \<in> set reg. rec_open x \<and> currentTerm (rec_node x) \<le> currentTerm (rec_node y) \<and>
        int (length (log_entries (db (rec_node y)))) < snapshotThreshold (config (rec_node x))"
    and "peers (rec_node y) \<noteq> []" "\<forall>p \<in> set (peers (rec_node y)). next_of (rec_node y) p \<le> int N"
    and "map_get ((smoke_heartbeat u ^^ (N + 2 + k)) reg) v = Some x"
  shows "log_entries (db (rec_node x)) = log_entries (db (rec_node y))
       \<and> commitIndex (rec_node x) = lastIndex (db (rec_node y))
       \<and> sm (rec_node x) = apply_log (log_entries (db (rec_node y))) (new_state_machine (dedupeMaxClients (sm (rec_node x))))"
proof -
  let ?l = "log_entries (db (rec_node y))" and ?t = "currentTerm (rec_node y)"
  have u: "u \<in> set (urls C)" "nodes C u = rec_node y" using assms(2,4) map_get_key[OF assms(4)] by (auto simp: mirrors_def)
  have Rt: "reachable C" by (rule timely_reachable[OF assms(1)])
  have ld: "leading C u ?l ?t" using u assms(5) by (simp add: leading_def)
  note lf = leading_facts[OF Rt assms(3) ld]
  have each: "rec_open x \<and> currentTerm (rec_node x) \<le> ?t \<and> int (length ?l) < snapshotThreshold (config (rec_node x))"
    if "map_get reg p = Some x" for p x using assms(8) map_of_SomeD[OF that] by blast
  have ci: "commitIndex (rec_node y) < int (length ?l)" "lastApplied (sm (rec_node y)) = commitIndex (rec_node y)"
    using reachable_commit[OF assms(1,3)] u by (auto simp: commit_inv_def commit_ok_def applied_ok_def)
  have "running ?l ?t (nodes C u)"
    using assms(5-7) lf(3) ci each[OF assms(4)] by (simp add: running_def u(2))
  then have K: "calm C reg u ?l ?t" using assms(1-3) ld each unfolding calm_def by blast
  have N: "\<forall>p \<in> set (peers (nodes C u)). next_of (nodes C u) p \<le> int N" using assms(10) u(2) by simp
  have ne: "peers (nodes C u) \<noteq> []" using assms(9) u(2) by simp
  obtain D where D: "calm D (rounds u (N + 2 + k) reg) u ?l ?t" "peers (nodes D u) = peers (nodes C u)" "settled D u ?l"
    "\<forall>p \<in> set (peers (nodes C u)). commitIndex (nodes D p) = int (length ?l) - 1"
    using rounds_converge[OF K N ne] by blast
  have R: "reachable_if timely D" "mirrors D (rounds u (N + 2 + k) reg)" "quiet D" "leading D u ?l ?t"
    using D(1) by (simp_all add: calm_def)
  have v: "v \<in> set (urls D)" "nodes D v = rec_node x"
    using R(2) assms(11) map_get_key[OF assms(11)] by (auto simp: mirrors_def)
  have "conf D" using reachable_inv[OF timely_reachable[OF R(1)]] by (simp add: cluster_inv_def vote_inv_def)
  then have "set (peers (nodes D u)) = set (urls D) - {u}" using R(4) by (simp add: conf_def leading_def)
  with v(1) consider "v = u" | "v \<in> set (peers (nodes D u))" by blast
  then have f: "log_entries (db (rec_node x)) = ?l \<and> commitIndex (rec_node x) = int (length ?l) - 1"
  proof cases
    case 1
    then show ?thesis using D(3) R(4) v(2) by (simp add: settled_def leading_def)
  next
    case 2
    then show ?thesis using D(2-4) v(2) by (auto simp: settled_def matched_def)
  qed
  have "applied_ok (rec_node x)" using reachable_commit[OF R(1,3)] v by (auto simp: commit_inv_def)
  then have la: "lastApplied (sm (rec_node x)) = commitIndex (rec_node x)"
    and eq: "sm (rec_node x) = apply_log (take (nat (lastApplied (sm (rec_node x)) + 1)) (log_entries (db (rec_node x))))
      (new_state_machine (dedupeMaxClients (sm (rec_node x))))" unfolding applied_ok_def by blast+
  have "take (nat (lastApplied (sm (rec_node x)) + 1)) (log_entries (db (rec_node x))) = ?l" using la f by simp
  with eq have "sm (rec_node x) = apply_log ?l (new_state_machine (dedupeMaxClients (sm (rec_node x))))" by (rule trans[OF _ arg_cong2[where f = apply_log]]) simp
  with f plain_facts(4)[OF lf(3)] u(2) show ?thesis by simp
qed

lemma demo_lagging_leader:
  "case map_get demo_lagging (mem ''B'') of None \<Rightarrow> False
   | Some y \<Rightarrow> role (rec_node y) = LEADER \<and> \<not> stopped (rec_node y) \<and> heartbeatTimer (rec_node y) \<noteq> None \<and>
       list_all (\<lambda>(p, x). rec_open x \<and> currentTerm (rec_node x) \<le> currentTerm (rec_node y) \<and>
         int (length (log_entries (db (rec_node y)))) < snapshotThreshold (config (rec_node x))) demo_lagging \<and>
       peers (rec_node y) \<noteq> [] \<and> list_all (\<lambda>p. next_of (rec_node y) p \<le> 3) (peers (rec_node y)) \<and>
       lastIndex (db (rec_node y)) = 2"
  by code_simp

theorem heartbeats_converge_witness:
  "\<exists>x. map_get ((smoke_heartbeat (mem ''B'') ^^ 5) demo_lagging) (mem ''A'') = Some x \<and> commitIndex (rec_node x) = 2"
proof -
  obtain y where y: "map_get demo_lagging (mem ''B'') = Some y" "role (rec_node y) = LEADER"
      "\<not> stopped (rec_node y)" "heartbeatTimer (rec_node y) \<noteq> None"
      "list_all (\<lambda>(p, x). rec_open x \<and> currentTerm (rec_node x) \<le> currentTerm (rec_node y) \<and>
         int (length (log_entries (db (rec_node y)))) < snapshotThreshold (config (rec_node x))) demo_lagging"
      "peers (rec_node y) \<noteq> []" "list_all (\<lambda>p. next_of (rec_node y) p \<le> 3) (peers (rec_node y))"
      "lastIndex (db (rec_node y)) = 2"
    using demo_lagging_leader by (cases "map_get demo_lagging (mem ''B'')") auto
  obtain C where C: "reachable_if timely C" "mirrors C demo_lagging" using smoke_state_cluster[OF demo_lagging_state] by blast
  have q: "quiet C" by (rule mirrors_quiet[OF C(2) demo_lagging_facts(4)])
  have "map_get ((smoke_heartbeat (mem ''B'') ^^ 5) demo_lagging) (mem ''A'') \<noteq> None" by code_simp
  then obtain x where x: "map_get ((smoke_heartbeat (mem ''B'') ^^ (3 + 2 + 0)) demo_lagging) (mem ''A'') = Some x" by auto
  have "commitIndex (rec_node x) = 2"
    using heartbeats_converge[OF C q y(1-4) _ y(6) _ x] y(5,7,8) by (simp add: list_all_iff)
  with x show ?thesis by auto
qed

end
