(* ===== verification/Transport.thy ===== *)
theory Transport imports Raft_Types begin

text \<open>
  The outbound RPC client (\<open>replicas/raft/Transport.js\<close>): the fault policy and the per-peer
  counters.  \<open>call\<close> is split at its first \<open>await\<close>: \<open>call_begin\<close> counts the call and
  either refuses it or hands it on with the delay to sleep, \<open>call_end\<close> records whether the HTTP
  request, which is not modelled, succeeded.  Probabilities are rationals; \<open>Math.random()\<close> is the
  argument \<open>x\<close>.  A \<open>Set\<close> is the list of its members in insertion order.
\<close>

record peer_stats =
  sent :: int
  ok_calls :: int
  failed :: int
  dropped :: int
  partitioned :: int

record transport =
  partitionedPeers :: "string list"
  peerLatencyMs :: "(string, int) jsmap"
  peerDropProb :: "(string, rat) jsmap"
  globalLatencyMs :: int
  globalDropProb :: rat
  peerStats :: "(string, peer_stats) jsmap"

definition new_transport :: transport where
  "new_transport = \<lparr>partitionedPeers = [], peerLatencyMs = [], peerDropProb = [],
     globalLatencyMs = 0, globalDropProb = 0, peerStats = []\<rparr>"

subsection \<open>Chaos administration\<close>

definition partitionPeer :: "string \<Rightarrow> transport \<Rightarrow> transport" where
  "partitionPeer p t =
     t\<lparr>partitionedPeers := (if p \<in> set (partitionedPeers t) then partitionedPeers t
                            else partitionedPeers t @ [p])\<rparr>"

definition healPeer :: "string \<Rightarrow> transport \<Rightarrow> transport" where
  "healPeer p t = t\<lparr>partitionedPeers := filter (\<lambda>q. q \<noteq> p) (partitionedPeers t)\<rparr>"

definition healAll :: "transport \<Rightarrow> transport" where
  "healAll t = t\<lparr>partitionedPeers := []\<rparr>"

definition setPeerLatency :: "string \<Rightarrow> int \<Rightarrow> transport \<Rightarrow> transport" where
  "setPeerLatency p ms t =
     t\<lparr>peerLatencyMs := (if ms \<le> 0 then map_del p (peerLatencyMs t)
                         else map_set p ms (peerLatencyMs t))\<rparr>"

definition setGlobalLatency :: "int \<Rightarrow> transport \<Rightarrow> transport" where
  "setGlobalLatency ms t = t\<lparr>globalLatencyMs := max 0 ms\<rparr>"

definition setPeerDrop :: "string \<Rightarrow> rat \<Rightarrow> transport \<Rightarrow> transport" where
  "setPeerDrop p prob t =
     t\<lparr>peerDropProb := (if prob \<le> 0 then map_del p (peerDropProb t)
                        else map_set p (min 1 prob) (peerDropProb t))\<rparr>"

definition setGlobalDrop :: "rat \<Rightarrow> transport \<Rightarrow> transport" where
  "setGlobalDrop prob t = t\<lparr>globalDropProb := max 0 (min 1 prob)\<rparr>"

definition clearAllFaults :: "transport \<Rightarrow> transport" where
  "clearAllFaults t = t\<lparr>partitionedPeers := [], peerLatencyMs := [], peerDropProb := [],
     globalLatencyMs := 0, globalDropProb := 0\<rparr>"

record fault_status =
  fs_partitionedPeers :: "string list"
  fs_peerLatencyMs :: "(string, int) jsmap"
  fs_peerDropProb :: "(string, rat) jsmap"
  fs_globalLatencyMs :: int
  fs_globalDropProb :: rat

definition getFaultStatus :: "transport \<Rightarrow> fault_status" where
  "getFaultStatus t = \<lparr>fs_partitionedPeers = partitionedPeers t, fs_peerLatencyMs = peerLatencyMs t,
     fs_peerDropProb = peerDropProb t, fs_globalLatencyMs = globalLatencyMs t,
     fs_globalDropProb = globalDropProb t\<rparr>"

definition getMetrics :: "transport \<Rightarrow> (string, peer_stats) jsmap" where
  "getMetrics t = fold (\<lambda>(peer, s). map_set peer s) (peerStats t) []"

subsection \<open>Calls\<close>

definition zero_stats :: peer_stats where
  "zero_stats = \<lparr>sent = 0, ok_calls = 0, failed = 0, dropped = 0, partitioned = 0\<rparr>"

definition stats_of :: "string \<Rightarrow> transport \<Rightarrow> peer_stats" where
  "stats_of p t = (case map_get (peerStats t) p of Some s \<Rightarrow> s | None \<Rightarrow> zero_stats)"

text \<open>A counter of the shared statistics object is bumped in place.\<close>

definition bump :: "string \<Rightarrow> (peer_stats \<Rightarrow> peer_stats) \<Rightarrow> transport \<Rightarrow> transport" where
  "bump p f t = t\<lparr>peerStats := map_set p (f (stats_of p t)) (peerStats t)\<rparr>"

definition effectiveLatency :: "string \<Rightarrow> transport \<Rightarrow> int" where
  "effectiveLatency p t =
     max (case map_get (peerLatencyMs t) p of Some ms \<Rightarrow> ms | None \<Rightarrow> 0) (globalLatencyMs t)"

definition effectiveDrop :: "string \<Rightarrow> transport \<Rightarrow> rat" where
  "effectiveDrop p t =
     max (case map_get (peerDropProb t) p of Some d \<Rightarrow> d | None \<Rightarrow> 0) (globalDropProb t)"

datatype call_start =
    PARTITIONED
  | DROPPED
  | Sending int

definition call_begin :: "string \<Rightarrow> rat \<Rightarrow> transport \<Rightarrow> transport \<times> call_start" where
  "call_begin p x t =
     (let t1 = bump p (\<lambda>s. s\<lparr>sent := sent s + 1\<rparr>) t
      in if p \<in> set (partitionedPeers t1)
         then (bump p (\<lambda>s. s\<lparr>partitioned := partitioned s + 1\<rparr>) t1, PARTITIONED)
         else if effectiveDrop p t1 > 0 \<and> x < effectiveDrop p t1
         then (bump p (\<lambda>s. s\<lparr>dropped := dropped s + 1\<rparr>) t1, DROPPED)
         else (t1, Sending (effectiveLatency p t1)))"

definition call_end :: "string \<Rightarrow> bool \<Rightarrow> transport \<Rightarrow> transport" where
  "call_end p success t =
     (if success then bump p (\<lambda>s. s\<lparr>ok_calls := ok_calls s + 1\<rparr>) t
      else bump p (\<lambda>s. s\<lparr>failed := failed s + 1\<rparr>) t)"

text \<open>The result of \<open>broadcast\<close>: one record per peer, in the order of the peers.\<close>

record 'r peer_result =
  pr_peer :: string
  pr_ok :: bool
  pr_response :: "'r option"

definition broadcast_results :: "string list \<Rightarrow> 'r option list \<Rightarrow> 'r peer_result list" where
  "broadcast_results ps settled =
     map (\<lambda>(p, s). case s of
            Some v \<Rightarrow> \<lparr>pr_peer = p, pr_ok = True, pr_response = Some v\<rparr>
          | None \<Rightarrow> \<lparr>pr_peer = p, pr_ok = False, pr_response = None\<rparr>)
       (zip ps settled)"

subsection \<open>Facts\<close>

definition fault_ok :: "transport \<Rightarrow> bool" where
  "fault_ok t \<longleftrightarrow> 0 \<le> globalLatencyMs t \<and> 0 \<le> globalDropProb t \<and> globalDropProb t \<le> 1 \<and>
     distinct (partitionedPeers t) \<and>
     (\<forall>p ms. map_get (peerLatencyMs t) p = Some ms \<longrightarrow> 0 < ms) \<and>
     (\<forall>p d. map_get (peerDropProb t) p = Some d \<longrightarrow> 0 < d \<and> d \<le> 1)"

lemma bump_frame [simp]:
  "partitionedPeers (bump p f t) = partitionedPeers t"
  "peerLatencyMs (bump p f t) = peerLatencyMs t"
  "peerDropProb (bump p f t) = peerDropProb t"
  "globalLatencyMs (bump p f t) = globalLatencyMs t"
  "globalDropProb (bump p f t) = globalDropProb t"
  "effectiveDrop q (bump p f t) = effectiveDrop q t"
  "effectiveLatency q (bump p f t) = effectiveLatency q t"
  by (simp_all add: bump_def effectiveDrop_def effectiveLatency_def)

lemma stats_bump: "stats_of q (bump p f t) = (if q = p then f (stats_of p t) else stats_of q t)"
  by (simp add: stats_of_def bump_def update_conv')

lemma fault_ok_bump [simp]: "fault_ok (bump p f t) = fault_ok t"
  by (simp add: fault_ok_def)

lemma stats_admin [simp]:
  "stats_of q (partitionPeer p t) = stats_of q t"
  "stats_of q (healPeer p t) = stats_of q t"
  "stats_of q (healAll t) = stats_of q t"
  "stats_of q (setPeerLatency p ms t) = stats_of q t"
  "stats_of q (setGlobalLatency ms t) = stats_of q t"
  "stats_of q (setPeerDrop p d t) = stats_of q t"
  "stats_of q (setGlobalDrop d t) = stats_of q t"
  "stats_of q (clearAllFaults t) = stats_of q t"
  by (simp_all add: stats_of_def partitionPeer_def healPeer_def healAll_def setPeerLatency_def
      setGlobalLatency_def setPeerDrop_def setGlobalDrop_def clearAllFaults_def)

lemma fault_ok_admin:
  "fault_ok t \<Longrightarrow> fault_ok (partitionPeer p t)"
  "fault_ok t \<Longrightarrow> fault_ok (healPeer p t)"
  "fault_ok t \<Longrightarrow> fault_ok (healAll t)"
  "fault_ok t \<Longrightarrow> fault_ok (setPeerLatency p ms t)"
  "fault_ok t \<Longrightarrow> fault_ok (setGlobalLatency ms t)"
  "fault_ok t \<Longrightarrow> fault_ok (setPeerDrop p d t)"
  "fault_ok t \<Longrightarrow> fault_ok (setGlobalDrop d t)"
  "fault_ok t \<Longrightarrow> fault_ok (clearAllFaults t)"
  by (auto simp: fault_ok_def partitionPeer_def healPeer_def healAll_def setPeerLatency_def
      setGlobalLatency_def setPeerDrop_def setGlobalDrop_def clearAllFaults_def update_conv'
      delete_conv' split: if_splits)

lemma fault_ok_new: "fault_ok new_transport"
  by (simp add: fault_ok_def new_transport_def)

text \<open>What can happen to a transport, and the calls on the way: begun, not refused, not ended.\<close>

datatype transport_op =
    Begin string rat
  | End string bool
  | Partition string
  | Heal string
  | HealAll
  | PeerLatency string int
  | GlobalLatency int
  | PeerDrop string rat
  | GlobalDrop rat
  | ClearFaults

fun transport_step :: "transport \<times> string list \<Rightarrow> transport_op \<Rightarrow> transport \<times> string list" where
  "transport_step (t, fl) (Begin p x) =
     (case call_begin p x t of (t', Sending _) \<Rightarrow> (t', p # fl) | (t', _) \<Rightarrow> (t', fl))"
| "transport_step (t, fl) (End p b) =
     (if p \<in> set fl then (call_end p b t, remove1 p fl) else (t, fl))"
| "transport_step (t, fl) (Partition p) = (partitionPeer p t, fl)"
| "transport_step (t, fl) (Heal p) = (healPeer p t, fl)"
| "transport_step (t, fl) HealAll = (healAll t, fl)"
| "transport_step (t, fl) (PeerLatency p ms) = (setPeerLatency p ms t, fl)"
| "transport_step (t, fl) (GlobalLatency ms) = (setGlobalLatency ms t, fl)"
| "transport_step (t, fl) (PeerDrop p d) = (setPeerDrop p d t, fl)"
| "transport_step (t, fl) (GlobalDrop d) = (setGlobalDrop d t, fl)"
| "transport_step (t, fl) ClearFaults = (clearAllFaults t, fl)"

definition settled_calls :: "peer_stats \<Rightarrow> int" where
  "settled_calls s = ok_calls s + failed s + dropped s + partitioned s"

definition balanced :: "transport \<times> string list \<Rightarrow> bool" where
  "balanced tf \<longleftrightarrow>
     (\<forall>p. sent (stats_of p (fst tf)) = settled_calls (stats_of p (fst tf)) + int (count_list (snd tf) p))"

lemma count_list_remove1:
  "count_list (remove1 p xs) q = (if q = p \<and> p \<in> set xs then count_list xs q - 1 else count_list xs q)"
  by (induction xs) (auto simp: count_list_0_iff)

lemma balanced_step: "balanced tf \<Longrightarrow> balanced (transport_step tf op)"
proof (cases tf; cases op)
  fix t fl p x
  assume "balanced tf" "tf = (t, fl)" "op = Begin p x"
  then show ?thesis
    by (auto simp: balanced_def call_begin_def Let_def stats_bump settled_calls_def)
next
  fix t fl p b
  assume a: "balanced tf" "tf = (t, fl)" "op = End p b"
  show ?thesis
  proof (cases "p \<in> set fl")
    case True
    then have "count_list fl p > 0" by (metis count_list_0_iff gr0I)
    with a True show ?thesis
      by (auto simp: balanced_def call_end_def stats_bump settled_calls_def count_list_remove1 of_nat_diff)
  qed (use a in simp)
qed (simp_all add: balanced_def)

lemma fault_ok_step: "fault_ok (fst tf) \<Longrightarrow> fault_ok (fst (transport_step tf op))"
  by (cases tf; cases op)
    (auto simp: call_begin_def call_end_def Let_def intro: fault_ok_admin)

lemma transport_run:
  "balanced tf \<and> fault_ok (fst tf) \<Longrightarrow>
   balanced (foldl transport_step tf ops) \<and> fault_ok (fst (foldl transport_step tf ops))"
  by (induction ops arbitrary: tf) (simp_all add: balanced_step fault_ok_step)

subsection \<open>Properties\<close>

text \<open>
  C31: the counters balance.  After any sequence of calls, completions and fault settings on a new
  transport, the calls sent to a peer are exactly those that succeeded, failed, were dropped or were
  refused by a partition, and those still on the way.
\<close>

theorem counters_balance:
  "sent (stats_of p (fst (foldl transport_step (new_transport, []) ops))) =
     ok_calls (stats_of p (fst (foldl transport_step (new_transport, []) ops)))
   + failed (stats_of p (fst (foldl transport_step (new_transport, []) ops)))
   + dropped (stats_of p (fst (foldl transport_step (new_transport, []) ops)))
   + partitioned (stats_of p (fst (foldl transport_step (new_transport, []) ops)))
   + int (count_list (snd (foldl transport_step (new_transport, []) ops)) p)"
proof -
  have "balanced (new_transport, [])"
    by (simp add: balanced_def stats_of_def new_transport_def zero_stats_def settled_calls_def)
  with transport_run[of "(new_transport, [])" ops] show ?thesis
    by (simp add: fault_ok_new balanced_def settled_calls_def)
qed

text \<open>
  The fault policy.  On a transport reached by its operations, a call is refused as
  partitioned exactly when its peer is in the partition set; else it is dropped exactly when the draw
  is below the larger of the peer's and the global probability, which lies between 0 and 1; else it is
  sent after the larger of the two delays, which is not negative.  A probability of 1 drops every
  call, and once all faults are cleared every call is sent at once.
\<close>

theorem fault_policy:
  assumes "t = fst (foldl transport_step (new_transport, []) ops)" "0 \<le> x" "x < 1"
  shows "0 \<le> effectiveDrop p t \<and> effectiveDrop p t \<le> 1 \<and> 0 \<le> effectiveLatency p t
       \<and> snd (call_begin p x t) =
           (if p \<in> set (partitionedPeers t) then PARTITIONED
            else if x < effectiveDrop p t then DROPPED else Sending (effectiveLatency p t))
       \<and> (effectiveDrop p t = 1 \<longrightarrow> (\<forall>ms. snd (call_begin p x t) \<noteq> Sending ms))
       \<and> snd (call_begin p x (clearAllFaults t)) = Sending 0"
proof -
  have "balanced (new_transport, [])"
    by (simp add: balanced_def stats_of_def new_transport_def zero_stats_def settled_calls_def)
  with transport_run[of "(new_transport, [])" ops] assms(1) have ok: "fault_ok t"
    by (simp add: fault_ok_new)
  have d: "0 \<le> effectiveDrop p t" "effectiveDrop p t \<le> 1" "0 \<le> effectiveLatency p t"
    using ok by (auto simp: fault_ok_def effectiveDrop_def effectiveLatency_def split: option.split)
  have "effectiveDrop p (clearAllFaults t) = 0" "effectiveLatency p (clearAllFaults t) = 0"
    by (simp_all add: effectiveDrop_def effectiveLatency_def clearAllFaults_def)
  moreover have "partitionedPeers (clearAllFaults t) = []" by (simp add: clearAllFaults_def)
  ultimately show ?thesis using d assms(2,3) by (auto simp: call_begin_def Let_def)
qed

theorem fault_policy_witness:
  "snd (call_begin ''b'' (1/2) (fst (foldl transport_step (new_transport, [])
     [PeerDrop ''b'' (1/4), GlobalDrop (3/4), PeerLatency ''b'' 20]))) = DROPPED"
proof -
  let ?t = "fst (foldl transport_step (new_transport, []) [PeerDrop ''b'' (1/4), GlobalDrop (3/4), PeerLatency ''b'' 20])"
  have "''b'' \<notin> set (partitionedPeers ?t)" "effectiveDrop ''b'' ?t = 3/4"
    by (simp_all add: setPeerDrop_def setGlobalDrop_def setPeerLatency_def new_transport_def effectiveDrop_def)
  with fault_policy[OF refl, of "1/2" "''b''" "[PeerDrop ''b'' (1/4), GlobalDrop (3/4), PeerLatency ''b'' 20]"]
  show ?thesis by simp
qed

text \<open>
  Fan-out.  \<open>broadcast\<close> never throws: it returns one result per peer, in the order of the
  peers, marked ok with the response exactly when that call was answered.
\<close>

theorem broadcast_aligned:
  assumes "length settled = length ps" "i < length ps"
  shows "length (broadcast_results ps settled) = length ps
       \<and> pr_peer (broadcast_results ps settled ! i) = ps ! i
       \<and> pr_ok (broadcast_results ps settled ! i) = (settled ! i \<noteq> None)
       \<and> pr_response (broadcast_results ps settled ! i) = settled ! i"
  using assms by (auto simp: broadcast_results_def split: option.split)

theorem broadcast_aligned_witness:
  "pr_response (broadcast_results [''b'', ''c''] [None, Some (7 :: int)] ! 1) = Some 7"
  using broadcast_aligned[of "[None, Some (7 :: int)]" "[''b'', ''c'']" 1] by simp

end
