(* ===== verification/Event_Log.thy ===== *)
theory Event_Log imports Raft_Prelude begin

text \<open>
  The bounded ring buffer of recent events (\<open>replicas/raft/EventLog.js\<close>) that a replica's
  \<open>/metrics\<close> endpoint shows.  \<open>Date.now()\<close> is the argument \<open>ts\<close> of \<open>add_event\<close>.
\<close>

record 'd event_rec =
  ev_ts :: int
  ev_type :: string
  ev_detail :: "'d option"

record 'd event_log =
  capacity :: int
  buf :: "'d event_rec list"

definition new_event_log :: "int \<Rightarrow> 'd event_log" where
  "new_event_log cap = \<lparr>capacity = cap, buf = []\<rparr>"

definition add_event :: "int \<Rightarrow> string \<Rightarrow> 'd option \<Rightarrow> 'd event_log \<Rightarrow> 'd event_log" where
  "add_event ts ty detail l =
     (let b = buf l @ [\<lparr>ev_ts = ts, ev_type = ty, ev_detail = detail\<rparr>]
      in if int (length b) > capacity l
         then l\<lparr>buf := drop (nat (int (length b) - capacity l)) b\<rparr>
         else l\<lparr>buf := b\<rparr>)"

definition list_events :: "'d event_log \<Rightarrow> 'd event_rec list" where
  "list_events l = rev (buf l)"

lemma capacity_add_event [simp]: "capacity (add_event ts ty d l) = capacity l"
  by (simp add: add_event_def Let_def)

lemma length_add_event:
  "0 \<le> capacity l \<Longrightarrow> int (length (buf (add_event ts ty d l))) \<le> capacity l"
  by (auto simp: add_event_def Let_def)

text \<open>What the buffer holds after a run: the last \<open>capacity\<close> events added, oldest first.\<close>

definition log_all :: "(int \<times> string \<times> 'd option) list \<Rightarrow> 'd event_log \<Rightarrow> 'd event_log" where
  "log_all es l = fold (\<lambda>(ts, ty, d). add_event ts ty d) es l"

definition event_of :: "int \<times> string \<times> 'd option \<Rightarrow> 'd event_rec" where
  "event_of e = \<lparr>ev_ts = fst e, ev_type = fst (snd e), ev_detail = snd (snd e)\<rparr>"

lemma log_all_buf:
  assumes "0 \<le> cap"
  shows "buf (log_all es (new_event_log cap)) =
           drop (length es - nat cap) (map event_of es)
         \<and> capacity (log_all es (new_event_log cap)) = cap"
proof (induction es rule: rev_induct)
  case Nil
  then show ?case by (simp add: log_all_def new_event_log_def)
next
  case (snoc e es)
  let ?l = "log_all es (new_event_log cap)"
  have step: "log_all (es @ [e]) (new_event_log cap) =
      add_event (fst e) (fst (snd e)) (snd (snd e)) ?l"
    by (simp add: log_all_def case_prod_beta)
  show ?case
  proof (cases "length es < nat cap")
    case True
    with snoc assms show ?thesis
      unfolding step by (auto simp: add_event_def Let_def event_of_def)
  next
    case False
    have *: "length (drop (length es - nat cap) (map event_of es)) = nat cap"
      using False by simp
    have "Suc (length es - nat cap) = Suc (length es) - nat cap"
      using False by simp
    with snoc * assms show ?thesis
      unfolding step by (simp add: add_event_def Let_def event_of_def)
  qed
qed

text \<open>
  After any run of additions the buffer holds the most recent events, at most
  \<open>capacity\<close> of them, and \<open>list()\<close> returns them most recent first.
\<close>

theorem event_log_keeps_latest:
  assumes "0 \<le> cap"
  shows "list_events (log_all es (new_event_log cap)) = take (nat cap) (rev (map event_of es))"
  using log_all_buf[OF assms, of es] 
  by (cases "length es \<le> nat cap") (auto simp: list_events_def rev_drop)

theorem event_log_keeps_latest_witness:
  "(0::int) \<le> 2 \<and>
   list_events (log_all [(1, ''boot'', None), (2, ''role'', Some ()), (3, ''snap'', None)]
      (new_event_log 2)) =
   [\<lparr>ev_ts = 3, ev_type = ''snap'', ev_detail = None\<rparr>,
    \<lparr>ev_ts = 2, ev_type = ''role'', ev_detail = Some ()\<rparr>]"
  using event_log_keeps_latest[of 2 "[(1, ''boot'', None), (2, ''role'', Some ()), (3, ''snap'', None)]"]
  by (simp add: event_of_def)

end
