(* ===== verification/Log_History.thy ===== *)
theory Log_History imports Persistence begin

text \<open>
  The committed history that \<open>GET /log\<close> returns (\<open>replicas/logHistory.js\<close>).  A stroke whose
  \<open>index\<close> is not an integer names no row of the log.
\<close>

record history_entry =
  h_index :: "jval option"
  h_term :: "int option"
  h_stroke :: jobj

definition getLogEntries :: "int \<Rightarrow> int \<Rightarrow> db \<Rightarrow> state_machine \<Rightarrow> history_entry list" where
  "getLogEntries fromIndex toIndex d s =
     map (\<lambda>st.
       let e = (case stroke_index st of Some (JInt i) \<Rightarrow> getEntry d i | _ \<Rightarrow> None)
       in \<lparr>h_index = stroke_index st, h_term = map_option e_term e,
           h_stroke = filter (\<lambda>(k, v). k \<noteq> ''index'') st\<rparr>)
     (filter (\<lambda>st. js_le (stroke_index st) toIndex) (getStrokesFrom s fromIndex))"

lemma obj_spread_fresh:
  "distinct (map_keys (base @ p)) \<Longrightarrow> obj_spread base p = base @ p"
  unfolding obj_spread_def by (rule fold_update_distinct)

text \<open>A payload whose property names are distinct and none of which is \<open>index\<close>.\<close>

definition plain_payload :: "entry \<Rightarrow> bool" where
  "plain_payload e \<longleftrightarrow> distinct (map_keys (p_fields (payload_of e))) \<and>
     ''index'' \<notin> set (map_keys (p_fields (payload_of e)))"

lemma plain_stroke:
  "plain_payload e \<Longrightarrow> stroke_of e = (''index'', JInt (e_index e)) # p_fields (payload_of e)"
  using obj_spread_fresh[of "[(''index'', JInt (e_index e))]" "p_fields (payload_of e)"]
  by (simp add: plain_payload_def stroke_of_def)

lemma plain_fields:
  "plain_payload e \<Longrightarrow> filter (\<lambda>(k, v). k \<noteq> ''index'') (p_fields (payload_of e)) = p_fields (payload_of e)"
  by (force simp: plain_payload_def filter_id_conv)

text \<open>
  When the canvas holds the strokes of the entries \<open>es\<close>, the history is the strokes of the entries
  in the range, each with its index and, as long as the log holds it, its term. What \<open>es\<close> is in a
  running cluster is said in \<open>Client_Guarantees\<close>.
\<close>

lemma history_of_canvas:
  assumes "strokes s = map stroke_of es" "\<forall>e \<in> set es. plain_payload e \<and> 0 \<le> e_index e"
  shows "getLogEntries from to d s =
    map (\<lambda>e. \<lparr>h_index = Some (JInt (e_index e)), h_term = map_option e_term (getEntry d (e_index e)),
               h_stroke = p_fields (payload_of e)\<rparr>)
      (filter (\<lambda>e. from \<le> e_index e \<and> e_index e \<le> to) es)"
proof -
  have gs: "getStrokesFrom s from = map stroke_of (filter (\<lambda>e. from \<le> e_index e) es)"
    unfolding getStrokesFrom_def assms(1) using assms(2)
    by (induction es) (auto simp: plain_stroke stroke_index_def)
  have le: "filter (\<lambda>st. js_le (stroke_index st) to) (map stroke_of xs) =
      map stroke_of (filter (\<lambda>e. e_index e \<le> to) xs)" if "set xs \<subseteq> set es" for xs
    using that assms(2) by (induction xs) (auto simp: plain_stroke stroke_index_def)
  have "filter (\<lambda>st. js_le (stroke_index st) to) (getStrokesFrom s from) =
      map stroke_of (filter (\<lambda>e. from \<le> e_index e \<and> e_index e \<le> to) es)"
    unfolding gs by (subst le) (auto simp: conj_commute)
  then show ?thesis
    unfolding getLogEntries_def using assms(2)
    by (auto simp: plain_stroke stroke_index_def plain_fields)
qed

end
