(* ===== verification/Js_Text.thy ===== *)
theory Js_Text imports Raft_Prelude Complex_Main begin

text \<open>
  What the servers and pages use of JavaScript strings: \<open>includes\<close>, \<open>replace\<close> with a string pattern,
  \<open>split\<close>, \<open>parseInt\<close> without a radix (\<open>None\<close> is \<open>NaN\<close>) and the decimal text of an
  integer.
\<close>

fun str_includes :: "string \<Rightarrow> string \<Rightarrow> bool" where
  "str_includes [] pat = (pat = [])"
| "str_includes (c # cs) pat = (take (length pat) (c # cs) = pat \<or> str_includes cs pat)"

fun str_replace :: "string \<Rightarrow> string \<Rightarrow> string \<Rightarrow> string" where
  "str_replace [] pat rep = (if pat = [] then rep else [])"
| "str_replace (c # cs) pat rep =
     (if take (length pat) (c # cs) = pat then rep @ drop (length pat) (c # cs)
      else c # str_replace cs pat rep)"

fun str_split :: "char \<Rightarrow> string \<Rightarrow> string list" where
  "str_split sep [] = [[]]"
| "str_split sep (c # cs) =
     (if c = sep then [] # str_split sep cs
      else (case str_split sep cs of [] \<Rightarrow> [[c]] | w # ws \<Rightarrow> (c # w) # ws))"

definition digit_table :: "(char \<times> int) list" where
  "digit_table = zip ''0123456789abcdefABCDEF''
     [0, 1, 2, 3, 4, 5, 6, 7, 8, 9, 10, 11, 12, 13, 14, 15, 10, 11, 12, 13, 14, 15]"

definition digit_of :: "int \<Rightarrow> char \<Rightarrow> int option" where
  "digit_of radix c =
     (case map_of digit_table c of Some d \<Rightarrow> if d < radix then Some d else None | None \<Rightarrow> None)"

fun digits_value :: "int \<Rightarrow> int \<Rightarrow> string \<Rightarrow> int" where
  "digits_value radix acc [] = acc"
| "digits_value radix acc (c # cs) =
     (case digit_of radix c of Some d \<Rightarrow> digits_value radix (acc * radix + d) cs | None \<Rightarrow> acc)"

definition is_space :: "char \<Rightarrow> bool" where
  "is_space c \<longleftrightarrow> c \<in> set [CHR '' '', CHR 0x09, CHR 0x0A, CHR 0x0B, CHR 0x0C, CHR 0x0D]"

definition parse_unsigned :: "string \<Rightarrow> int option" where
  "parse_unsigned s =
     (let (radix, ds) =
        (if take 2 s = ''0x'' \<or> take 2 s = ''0X'' then (16, drop 2 s) else (10, s))
      in case ds of
           [] \<Rightarrow> None
         | c # _ \<Rightarrow> (case digit_of radix c of None \<Rightarrow> None | Some _ \<Rightarrow> Some (digits_value radix 0 ds)))"

definition parse_int :: "string \<Rightarrow> int option" where
  "parse_int s =
     (case dropWhile is_space s of
        [] \<Rightarrow> None
      | c # cs \<Rightarrow>
          if c = CHR ''-'' then map_option uminus (parse_unsigned cs)
          else if c = CHR ''+'' then parse_unsigned cs
          else parse_unsigned (c # cs))"

definition digit_char :: "nat \<Rightarrow> char" where
  "digit_char d = ''0123456789'' ! d"

fun show_nat :: "nat \<Rightarrow> string" where
  "show_nat n = (if n < 10 then [digit_char n] else show_nat (n div 10) @ [digit_char (n mod 10)])"

declare show_nat.simps [simp del]

definition show_int :: "int \<Rightarrow> string" where
  "show_int i = (if i < 0 then CHR ''-'' # show_nat (nat (- i)) else show_nat (nat i))"

text \<open>
  \<open>join\<close>, \<open>startsWith\<close>, \<open>padStart\<close> and \<open>toUpperCase\<close> (of ASCII letters), and what the
  pages and reports use of numbers. A number that is not an integer is a rational:
  \<open>Math.round\<close> and \<open>toFixed\<close> round halves up (\<open>toFixed\<close> away from zero), \<open>show_rat\<close> is the decimal
  text of a number with at most 17 digits after the point, written without an exponent.
\<close>

fun str_join :: "string \<Rightarrow> string list \<Rightarrow> string" where
  "str_join sep [] = []"
| "str_join sep [x] = x"
| "str_join sep (x # y # xs) = x @ sep @ str_join sep (y # xs)"

definition starts_with :: "string \<Rightarrow> string \<Rightarrow> bool" where
  "starts_with s pat \<longleftrightarrow> take (length pat) s = pat"

definition pad_start :: "nat \<Rightarrow> char \<Rightarrow> string \<Rightarrow> string" where
  "pad_start n c s = replicate (n - length s) c @ s"

definition upper_table :: "(char \<times> char) list" where
  "upper_table = zip ''abcdefghijklmnopqrstuvwxyz'' ''ABCDEFGHIJKLMNOPQRSTUVWXYZ''"

definition to_upper :: "string \<Rightarrow> string" where
  "to_upper s = map (\<lambda>c. case map_of upper_table c of Some u \<Rightarrow> u | None \<Rightarrow> c) s"

definition js_round :: "rat \<Rightarrow> int" where
  "js_round x = \<lfloor>x + 1 / 2\<rfloor>"

definition fixed_text :: "nat \<Rightarrow> rat \<Rightarrow> string" where
  "fixed_text k x =
     (let n = nat \<lfloor>x * 10 ^ k + 1 / 2\<rfloor>
      in if k = 0 then show_nat n
         else show_nat (n div 10 ^ k) @ CHR ''.'' # pad_start k (CHR ''0'') (show_nat (n mod 10 ^ k)))"

definition to_fixed :: "nat \<Rightarrow> rat \<Rightarrow> string" where
  "to_fixed k x = (if x < 0 then CHR ''-'' # fixed_text k (- x) else fixed_text k x)"

fun frac_digits :: "nat \<Rightarrow> rat \<Rightarrow> string" where
  "frac_digits 0 r = []"
| "frac_digits (Suc n) r =
     (if r = 0 then []
      else digit_char (nat \<lfloor>r * 10\<rfloor>) # frac_digits n (r * 10 - of_int \<lfloor>r * 10\<rfloor>))"

definition show_rat :: "rat \<Rightarrow> string" where
  "show_rat r =
     (let a = \<bar>r\<bar>; f = frac_digits 17 (a - of_int \<lfloor>a\<rfloor>)
      in (if r < 0 then ''-'' else []) @ show_int \<lfloor>a\<rfloor> @ (if f = [] then [] else CHR ''.'' # f))"

text \<open>\<open>parseInt(s, 10)\<close> and \<open>parseFloat(s)\<close>; \<open>None\<close> is \<open>NaN\<close> or an infinity.\<close>

definition parse_decimal :: "string \<Rightarrow> int option" where
  "parse_decimal ds =
     (case ds of
        [] \<Rightarrow> None
      | c # _ \<Rightarrow> (case digit_of 10 c of None \<Rightarrow> None | Some _ \<Rightarrow> Some (digits_value 10 0 ds)))"

definition take_sign :: "string \<Rightarrow> int \<times> string" where
  "take_sign s =
     (case s of
        [] \<Rightarrow> (1, [])
      | c # cs \<Rightarrow> if c = CHR ''-'' then (-1, cs) else if c = CHR ''+'' then (1, cs) else (1, c # cs))"

definition parse_int10 :: "string \<Rightarrow> int option" where
  "parse_int10 s =
     (let (sg, ds) = take_sign (dropWhile is_space s) in map_option (\<lambda>v. sg * v) (parse_decimal ds))"

definition is_digit :: "char \<Rightarrow> bool" where
  "is_digit c \<longleftrightarrow> digit_of 10 c \<noteq> None"

definition float_exponent :: "string \<Rightarrow> int" where
  "float_exponent s =
     (case s of
        [] \<Rightarrow> 0
      | c # cs \<Rightarrow>
          if c = CHR ''e'' \<or> c = CHR ''E''
          then (let (sg, ds) = take_sign cs
                in case parse_decimal ds of Some v \<Rightarrow> sg * v | None \<Rightarrow> 0)
          else 0)"

definition parse_float :: "string \<Rightarrow> rat option" where
  "parse_float s =
     (let (sg, u) = take_sign (dropWhile is_space s);
          ip = takeWhile is_digit u;
          rest = dropWhile is_digit u;
          fp = (if take 1 rest = ''.'' then takeWhile is_digit (drop 1 rest) else []);
          tail = (if take 1 rest = ''.'' then dropWhile is_digit (drop 1 rest) else rest);
          ex = float_exponent tail;
          m = of_int (sg * digits_value 10 0 (ip @ fp)) / 10 ^ length fp
      in if ip = [] \<and> fp = [] then None
         else Some (if ex < 0 then m / 10 ^ nat (- ex) else m * 10 ^ nat ex))"

subsection \<open>Printing and parsing integers\<close>

lemma digit_of_char: "d < 10 \<Longrightarrow> digit_of 10 (digit_char d) = Some (int d)"
proof -
  have "\<forall>d < 10. digit_of 10 (digit_char d) = Some (int d)" by code_simp
  then show "d < 10 \<Longrightarrow> digit_of 10 (digit_char d) = Some (int d)" by blast
qed

lemma digits_value_append:
  "\<forall>c \<in> set xs. digit_of r c \<noteq> None \<Longrightarrow> digits_value r a (xs @ ys) = digits_value r (digits_value r a xs) ys"
  by (induction xs arbitrary: a) auto

lemma show_nat_digits: "c \<in> set (show_nat n) \<Longrightarrow> \<exists>d < 10. c = digit_char d"
proof (induction n rule: show_nat.induct)
  case (1 n)
  then show ?case
    by (subst (asm) (2) show_nat.simps) (auto split: if_splits intro: exI[of _ "n mod 10"])
qed

lemma show_nat_ne: "show_nat n \<noteq> []"
  by (subst show_nat.simps) simp

lemma show_nat_value: "digits_value 10 0 (show_nat n) = int n"
proof (induction n rule: show_nat.induct)
  case (1 n)
  show ?case
  proof (cases "n < 10")
    case True
    then show ?thesis by (subst show_nat.simps) (simp add: digit_of_char)
  next
    case False
    have "\<forall>c \<in> set (show_nat (n div 10)). digit_of 10 c \<noteq> None"
      using show_nat_digits digit_of_char by fastforce
    moreover have "int (n div 10) * 10 + int (n mod 10) = int n"
      by (metis div_mult_mod_eq of_nat_add of_nat_mult of_nat_numeral)
    ultimately show ?thesis
      using 1 False
      by (subst show_nat.simps) (simp add: digits_value_append digit_of_char)
  qed
qed

lemma show_nat_eq [simp]: "show_nat m = show_nat n \<longleftrightarrow> m = n"
  by (metis of_nat_eq_iff show_nat_value)

lemma digit_char_not:
  "d < 10 \<Longrightarrow> digit_char d \<noteq> CHR ''-'' \<and> digit_char d \<noteq> CHR ''+'' \<and> digit_char d \<noteq> CHR ''x'' \<and>
     digit_char d \<noteq> CHR ''X'' \<and> \<not> is_space (digit_char d)"
proof -
  have "\<forall>d < 10. digit_char d \<noteq> CHR ''-'' \<and> digit_char d \<noteq> CHR ''+'' \<and> digit_char d \<noteq> CHR ''x'' \<and>
     digit_char d \<noteq> CHR ''X'' \<and> \<not> is_space (digit_char d)" by code_simp
  then show "d < 10 \<Longrightarrow> ?thesis" by blast
qed

lemma parse_unsigned_show: "parse_unsigned (show_nat n) = Some (int n)"
proof -
  obtain c cs where s: "show_nat n = c # cs" using show_nat_ne by (cases "show_nat n") auto
  have all: "\<exists>d < 10. x = digit_char d" if "x \<in> set (c # cs)" for x
    using show_nat_digits[of x n] that s by simp
  then obtain d where d: "d < 10" "c = digit_char d" by (metis list.set_intros(1))
  have no_hex: "take (Suc 0) cs \<noteq> ''x'' \<and> take (Suc 0) cs \<noteq> ''X''"
  proof (cases cs)
    case (Cons b bs)
    then obtain d' where "d' < 10" "b = digit_char d'" using all by (metis list.set_intros)
    with Cons digit_char_not show ?thesis by auto
  qed simp
  then have "parse_unsigned (show_nat n) = Some (digits_value 10 0 (show_nat n))"
    by (simp add: parse_unsigned_def s d(2)) (simp add: d(1) digit_of_char)
  then show ?thesis by (simp add: show_nat_value)
qed

text \<open>Reading back the decimal text of an integer gives the integer.\<close>

lemma parse_show_int: "parse_int (show_int i) = Some i"
proof -
  obtain c cs where s: "show_nat (nat i) = c # cs" using show_nat_ne by (cases "show_nat (nat i)") auto
  then obtain d where "d < 10" "c = digit_char d"
    using show_nat_digits[of c "nat i"] by auto
  with digit_char_not[of d] s have "parse_int (show_nat (nat i)) = parse_unsigned (show_nat (nat i))"
    by (simp add: parse_int_def)
  moreover have "\<not> is_space (CHR ''-'')" by (simp add: is_space_def)
  ultimately show ?thesis by (simp add: show_int_def parse_int_def parse_unsigned_show)
qed

lemma parse_show_int10: "parse_int10 (show_int i) = Some i"
proof -
  have dec: "parse_decimal (show_nat n) = Some (int n)" for n
  proof -
    obtain c cs where s: "show_nat n = c # cs" using show_nat_ne by (cases "show_nat n") auto
    then obtain d where "d < 10" "c = digit_char d" using show_nat_digits[of c n] by auto
    with s have "parse_decimal (show_nat n) = Some (digits_value 10 0 (show_nat n))"
      by (simp add: parse_decimal_def digit_of_char)
    then show ?thesis by (simp add: show_nat_value)
  qed
  obtain c cs where s: "show_nat (nat i) = c # cs" using show_nat_ne by (cases "show_nat (nat i)") auto
  then obtain d where "d < 10" "c = digit_char d" using show_nat_digits[of c "nat i"] by auto
  with digit_char_not[of d] s have "take_sign (dropWhile is_space (show_nat (nat i))) = (1, show_nat (nat i))"
    by (simp add: take_sign_def)
  moreover have "\<not> is_space (CHR ''-'')" by (simp add: is_space_def)
  ultimately show ?thesis by (simp add: show_int_def parse_int10_def dec take_sign_def)
qed

lemma str_replace_prefix: "s \<noteq> [] \<Longrightarrow> pat \<noteq> [] \<Longrightarrow> str_replace (pat @ s) pat [] = s"
  by (cases pat) auto

lemma str_includes_self: "str_includes (xs @ pat @ ys) pat"
proof (induction xs)
  case Nil
  then show ?case by (cases "pat @ ys") (auto simp flip: append_eq_conv_conj, (metis append_eq_conv_conj)+)
qed simp

end
