(* ===== verification/Replica_Server.thy ===== *)
theory Replica_Server imports Raft_Client Transport Event_Log Log_History Js_Text begin

text \<open>
  The HTTP shell of a replica (\<open>replicas/replicaServer.js\<close>): the routes, the listeners that feed
  the dashboard's timeline and the gateway, and the administration of faults.  Express, the parsing of
  bodies and the requests to the gateway are outside the model: a route takes the fields it reads, a
  request to the gateway is recorded in \<open>posts\<close>.
\<close>

subsection \<open>State and listeners\<close>

datatype event_data =
    TermData int
  | SnapshotData int int
  | BootData int
  | AffectedData "string list"
  | TargetData string
  | LatencyData string int
  | DropData string rat

datatype gateway_post =
    LeaderPost string string
  | StrokePost "payload option" int

record server =
  REPLICA_ID :: string
  PORT :: int
  PEER_URLS :: "string list"
  node :: node
  transport :: transport
  events :: "event_data event_log"
  gatewayNotifyTimer :: bool
  lastSnapshotCount :: int
  posts :: "gateway_post list"

text \<open>\<open>(process.env.PEERS || "").split(",").filter(Boolean)\<close>.\<close>

definition peer_urls :: "string option \<Rightarrow> string list" where
  "peer_urls env = filter (\<lambda>u. u \<noteq> []) (str_split (CHR '','') (case env of None \<Rightarrow> [] | Some s \<Rightarrow> s))"

definition new_server :: "string \<Rightarrow> int \<Rightarrow> string option \<Rightarrow> db \<Rightarrow> int \<Rightarrow> int \<Rightarrow> server" where
  "new_server rid port env d t x =
     \<lparr>REPLICA_ID = rid, PORT = port, PEER_URLS = peer_urls env,
      node = new_node rid (peer_urls env) default_config d (new_state_machine 10000) t x,
      transport = new_transport, events = new_event_log 100, gatewayNotifyTimer = False,
      lastSnapshotCount = 0, posts = []\<rparr>"

text \<open>
  The environment: \<open>process.env.X || d\<close>, where a missing and an empty variable give the default, and
  the settings made of it (\<open>None\<close> for a port that is not a number).
\<close>

definition env_or :: "string option \<Rightarrow> string \<Rightarrow> string" where
  "env_or x d = (case x of None \<Rightarrow> d | Some v \<Rightarrow> if v = [] then d else v)"

record server_config =
  cfg_replicaId :: string
  cfg_port :: "int option"
  cfg_peers :: "string list"
  cfg_gateway :: string
  cfg_dataDir :: string

definition server_config :: "(string \<Rightarrow> string option) \<Rightarrow> server_config" where
  "server_config env =
     \<lparr>cfg_replicaId = env_or (env ''REPLICA_ID'') ''replica1'',
      cfg_port = parse_int (env_or (env ''REPLICA_PORT'') ''4001''),
      cfg_peers = peer_urls (env ''PEERS''),
      cfg_gateway = env_or (env ''GATEWAY_URL'') ''http://gateway:3000'',
      cfg_dataDir = env_or (env ''DATA_DIR'') ''/app/data''\<rparr>"

definition add_to_log :: "string \<Rightarrow> event_data option \<Rightarrow> server \<Rightarrow> server" where
  "add_to_log ty d s = s\<lparr>events := add_event (now (node s)) ty d (events s)\<rparr>"

fun role_text :: "role \<Rightarrow> string" where
  "role_text FOLLOWER = ''follower''"
| "role_text CANDIDATE = ''candidate''"
| "role_text LEADER = ''leader''"

text \<open>\<open>notifyGateway\<close> up to its request, and after it.\<close>

definition notifyGateway :: "server \<Rightarrow> server" where
  "notifyGateway s = s\<lparr>gatewayNotifyTimer := False,
     posts := posts s @ [LeaderPost (REPLICA_ID s)
       (''http://'' @ REPLICA_ID s @ '':'' @ show_int (PORT s))]\<rparr>"

definition notifyGateway_done :: "bool \<Rightarrow> server \<Rightarrow> server" where
  "notifyGateway_done ok s =
     (if ok then s
      else if role (node s) = LEADER then s\<lparr>gatewayNotifyTimer := True\<rparr> else s)"

definition on_role :: "role \<Rightarrow> server \<Rightarrow> server" where
  "on_role r s =
     (let s1 = add_to_log (''role:'' @ role_text r) (Some (TermData (currentTerm (node s)))) s
      in if r = LEADER then notifyGateway s1 else s1\<lparr>gatewayNotifyTimer := False\<rparr>)"

definition on_applied :: "entry \<Rightarrow> server \<Rightarrow> server" where
  "on_applied e s =
     (if role (node s) \<noteq> LEADER \<or> e_type e \<noteq> STROKE then s
      else s\<lparr>posts := posts s @ [StrokePost (e_payload e) (e_index e)]\<rparr>)"

definition on_event :: "node_event \<Rightarrow> server \<Rightarrow> server" where
  "on_event ev s =
     (case ev of RoleEv r \<Rightarrow> on_role r s | CommitEv i \<Rightarrow> s | AppliedEv e \<Rightarrow> on_applied e s)"

text \<open>
  The node moves to \<open>n\<close> and the listeners run on the events it has emitted in doing so; a handler
  that changes the node's role does so before it emits anything.
\<close>

definition dispatch :: "node \<Rightarrow> server \<Rightarrow> server" where
  "dispatch n s =
     fold on_event (drop (length (emitted (node s))) (emitted n)) (s\<lparr>node := n\<rparr>)"

text \<open>The 250 ms timer that puts snapshots on the timeline.\<close>

definition watch_snapshots :: "server \<Rightarrow> server" where
  "watch_snapshots s =
     (if snapshotCount (node s) > lastSnapshotCount s then
        (let m = loadMeta (db (node s))
         in add_to_log ''snapshot'' (Some (SnapshotData (m_lastSnapshotIndex m) (m_lastSnapshotTerm m)))
              (s\<lparr>lastSnapshotCount := snapshotCount (node s)\<rparr>))
      else s)"

definition boot :: "server \<Rightarrow> server" where
  "boot s =
     (let s1 = dispatch (start (node s)) s
      in add_to_log ''boot'' (Some (BootData (restartCount (node s1)))) s1)"

subsection \<open>Raft routes\<close>

definition post_request_vote :: "request_vote \<Rightarrow> server \<Rightarrow> server \<times> vote_reply" where
  "post_request_vote b s =
     (let (n, r) = handleRequestVote b (node s) in (dispatch n s, r))"

definition post_append_entries :: "append_entries \<Rightarrow> server \<Rightarrow> server \<times> append_reply" where
  "post_append_entries b s =
     (let (n, r) = handleAppendEntries b (node s) in (dispatch n s, r))"

definition post_install_snapshot :: "install_snapshot \<Rightarrow> server \<Rightarrow> server \<times> int" where
  "post_install_snapshot b s =
     (let (n, r) = handleInstallSnapshot b (node s) in (dispatch n s, r))"

text \<open>A field with a default, \<open>x ?? d\<close>.\<close>

definition or_default :: "'a option \<Rightarrow> 'a \<Rightarrow> 'a" where
  "or_default x d = (case x of Some v \<Rightarrow> v | None \<Rightarrow> d)"

record heartbeat_body =
  hb_term :: int
  hb_leaderId :: string
  hb_prevLogIndex :: "int option"
  hb_prevLogTerm :: "int option"
  hb_commitIndex :: "int option"
  hb_leaderCommit :: "int option"

definition heartbeat_call :: "heartbeat_body \<Rightarrow> node \<Rightarrow> append_entries" where
  "heartbeat_call b n =
     \<lparr>ae_term = hb_term b, ae_leaderId = hb_leaderId b,
      ae_prevLogIndex = or_default (hb_prevLogIndex b) (lastIndex (db n)),
      ae_prevLogTerm = or_default (hb_prevLogTerm b) (lastTerm (db n)),
      ae_entries = [],
      ae_leaderCommit = or_default (hb_commitIndex b) (or_default (hb_leaderCommit b) (-1))\<rparr>"

definition post_heartbeat :: "heartbeat_body \<Rightarrow> server \<Rightarrow> server \<times> append_reply" where
  "post_heartbeat b s = post_append_entries (heartbeat_call b (node s)) s"

definition sync_call :: "int \<Rightarrow> string \<Rightarrow> entry list \<Rightarrow> int \<Rightarrow> node \<Rightarrow> append_entries" where
  "sync_call t l es c n =
     (let prevIdx = e_index (hd es) - 1;
          prevTerm = (if prevIdx \<ge> 0
                      then (case getEntry (db n) prevIdx of Some e \<Rightarrow> e_term e | None \<Rightarrow> -1) else -1)
      in \<lparr>ae_term = t, ae_leaderId = l, ae_prevLogIndex = prevIdx, ae_prevLogTerm = prevTerm,
          ae_entries = es, ae_leaderCommit = c\<rparr>)"

definition post_sync_log :: "int \<Rightarrow> string \<Rightarrow> entry list \<Rightarrow> int \<Rightarrow> server \<Rightarrow> server \<times> append_reply" where
  "post_sync_log t l es c s =
     (if es = []
      then (s, \<lparr>ar_term = currentTerm (node s), ar_success = True, ar_logLength = None\<rparr>)
      else post_append_entries (sync_call t l es c (node s)) s)"

subsection \<open>Client routes\<close>

definition get_log :: "string option \<Rightarrow> server \<Rightarrow> history_entry list \<times> int \<times> int" where
  "get_log from_q s =
     (let text = (case from_q of Some q \<Rightarrow> if q = [] then ''0'' else q | None \<Rightarrow> ''0'');
          to = commitIndex (node s);
          wire = (case parse_int text of
                    None \<Rightarrow> []
                  | Some from \<Rightarrow> if to \<ge> from then getLogEntries from to (db (node s)) (sm (node s)) else [])
      in (wire, commitIndex (node s), currentTerm (node s)))"

definition portFor :: "string option \<Rightarrow> int option" where
  "portFor rid =
     (let s = str_replace (case rid of Some r \<Rightarrow> r | None \<Rightarrow> []) ''replica'' [];
          num = parse_int (if s = [] then ''1'' else s)
      in map_option (\<lambda>k. 4000 + k) num)"

definition port_text :: "int option \<Rightarrow> string" where
  "port_text p = (case p of Some k \<Rightarrow> show_int k | None \<Rightarrow> ''NaN'')"

text \<open>Responses with a status; \<open>NotLeader\<close> has the leader's id and, on the first check, its URL.\<close>

datatype stroke_response =
    StrokeOk int bool
  | NotLeader "string option" "string option"
  | Unavailable api_error
  | InternalError

fun http_status :: "stroke_response \<Rightarrow> nat" where
  "http_status (StrokeOk i d) = 200"
| "http_status (NotLeader l u) = 403"
| "http_status (Unavailable e) = 503"
| "http_status InternalError = 500"

definition error_response :: "api_error \<Rightarrow> stroke_response" where
  "error_response err =
     (case err of
        NOT_LEADER l \<Rightarrow> NotLeader l None
      | LOST_LEADERSHIP \<Rightarrow> Unavailable err
      | COMMIT_TIMEOUT \<Rightarrow> Unavailable err
      | _ \<Rightarrow> InternalError)"

definition leader_url :: "node \<Rightarrow> string option" where
  "leader_url n =
     (case leaderId n of
        None \<Rightarrow> None
      | Some l \<Rightarrow> if l = [] then None
                  else Some (''http://'' @ l @ '':'' @ port_text (portFor (Some l))))"

text \<open>
  \<open>POST /stroke\<close>: an immediate response, or the append whose promise is awaited; and the response
  when the promise has settled.
\<close>

definition post_stroke :: "payload option \<Rightarrow> server \<Rightarrow> server \<times> (stroke_response + entry)" where
  "post_stroke p s =
     (if role (node s) \<noteq> LEADER then (s, Inl (NotLeader (leaderId (node s)) (leader_url (node s))))
      else
        (let (n, r) = submit_begin STROKE p (node s)
         in (dispatch n s,
             (case r of
                Refused err \<Rightarrow> Inl (error_response err)
              | Cached res \<Rightarrow> Inl (StrokeOk (sr_index res) (sr_deduped res))
              | Appended e \<Rightarrow> Inr e))))"

definition stroke_settled :: "payload option \<Rightarrow> waiter \<Rightarrow> node \<Rightarrow> stroke_response option" where
  "stroke_settled p w n =
     (case w of
        Settled (Inr res) \<Rightarrow>
          (let r = submit_finish p res n in Some (StrokeOk (sr_index r) (sr_deduped r)))
      | Settled (Inl err) \<Rightarrow> Some (error_response err)
      | _ \<Rightarrow> None)"

datatype read_response =
    ReadOk int "jobj list" int
  | ReadNotLeader "string option"
  | ReadFailed nat api_error

definition read_error :: "api_error \<Rightarrow> read_response" where
  "read_error err =
     (case err of
        NOT_LEADER l \<Rightarrow> ReadNotLeader l
      | LEADER_WARMING_UP \<Rightarrow> ReadFailed 503 err
      | _ \<Rightarrow> ReadFailed 500 err)"

definition get_read_linearizable :: "server \<Rightarrow> server \<times> (read_response + int \<times> int)" where
  "get_read_linearizable s =
     (let (n, r) = readIndex_begin (node s)
      in (dispatch n s, (case r of Inl err \<Rightarrow> Inl (read_error err) | Inr it \<Rightarrow> Inr it)))"

definition read_confirmed :: "int \<Rightarrow> append_reply option list \<Rightarrow> server \<Rightarrow> server \<times> read_response option" where
  "read_confirmed t rs s =
     (let (n, err) = readIndex_results t rs (node s)
      in (dispatch n s, map_option read_error err))"

definition read_answer :: "int \<Rightarrow> int \<Rightarrow> server \<Rightarrow> read_response option" where
  "read_answer i t s =
     (case readIndex_wait i t (node s) of
        None \<Rightarrow> None
      | Some (ri, _) \<Rightarrow> Some (ReadOk ri (strokes (sm (node s))) (currentTerm (node s))))"


subsection \<open>Status\<close>

record status_body =
  sb_replicaId :: string
  sb_state :: role
  sb_term :: int
  sb_leaderId :: "string option"
  sb_logLength :: int
  sb_commitIndex :: int
  sb_lastApplied :: int
  sb_firstIndex :: int
  sb_matchIndex :: "(string, int) jsmap"
  sb_nextIndex :: "(string, int) jsmap"
  sb_restartCount :: int
  sb_uptimeMs :: int
  sb_snapshotCount :: int
  sb_lastSnapshotIndex :: int
  sb_lastSnapshotTerm :: int
  sb_dedupeSize :: int

definition get_status :: "server \<Rightarrow> status_body" where
  "get_status s =
     (let st = getStatus (node s) in
      \<lparr>sb_replicaId = st_replicaId st, sb_state = st_role st, sb_term = st_term st,
       sb_leaderId = st_leaderId st, sb_logLength = st_lastIndex st + 1,
       sb_commitIndex = st_commitIndex st, sb_lastApplied = st_lastApplied st,
       sb_firstIndex = st_firstIndex st, sb_matchIndex = st_matchIndex st,
       sb_nextIndex = st_nextIndex st, sb_restartCount = st_restartCount st,
       sb_uptimeMs = st_uptimeMs st, sb_snapshotCount = st_snapshotCount st,
       sb_lastSnapshotIndex = st_lastSnapshotIndex st, sb_lastSnapshotTerm = st_lastSnapshotTerm st,
       sb_dedupeSize = st_dedupeSize st\<rparr>)"

record metrics_body =
  mb_status :: node_status
  mb_faults :: fault_status
  mb_rpc :: "(string, peer_stats) jsmap"
  mb_timeline :: "event_data event_rec list"
  mb_now :: int

definition get_metrics :: "server \<Rightarrow> metrics_body" where
  "get_metrics s =
     \<lparr>mb_status = getStatus (node s), mb_faults = getFaultStatus (transport s),
      mb_rpc = getMetrics (transport s), mb_timeline = list_events (events s), mb_now = now (node s)\<rparr>"

subsection \<open>Fault administration\<close>

definition resolvePeer :: "string list \<Rightarrow> string option \<Rightarrow> string option" where
  "resolvePeer urls input =
     (case input of
        None \<Rightarrow> None
      | Some i \<Rightarrow>
          if i = [] then None
          else if i = ''all'' then Some ''all''
          else if i \<in> set urls then Some i
          else (case find (\<lambda>u. str_includes u (i @ '':'')) urls of
                  None \<Rightarrow> None
                | Some u \<Rightarrow> if u = [] then None else Some u))"

definition applyToPeers ::
  "string list \<Rightarrow> string \<Rightarrow> (string \<Rightarrow> transport \<Rightarrow> transport) \<Rightarrow> transport \<Rightarrow> transport \<times> string list" where
  "applyToPeers urls target fn t =
     (if target = ''all'' then (fold fn urls t, urls) else (fn target t, [target]))"

datatype admin_response =
    AdminOk "string list option"
  | BadRequest string

definition target_text :: "string \<Rightarrow> string" where
  "target_text target = (if target = ''all'' then ''all peers'' else target)"

definition post_partition :: "string option \<Rightarrow> server \<Rightarrow> server \<times> admin_response" where
  "post_partition peer s =
     (case resolvePeer (PEER_URLS s) peer of
        None \<Rightarrow> (s, BadRequest ''unknown peer'')
      | Some target \<Rightarrow>
          (let (t, affected) = applyToPeers (PEER_URLS s) target partitionPeer (transport s)
           in (add_to_log ''fault:partition'' (Some (AffectedData affected)) (s\<lparr>transport := t\<rparr>),
               AdminOk (Some affected))))"

definition post_heal :: "string option \<Rightarrow> server \<Rightarrow> server \<times> admin_response" where
  "post_heal peer s =
     (case resolvePeer (PEER_URLS s) peer of
        None \<Rightarrow> (s, BadRequest ''unknown peer'')
      | Some target \<Rightarrow>
          (let t = (if target = ''all'' then healAll (transport s) else healPeer target (transport s))
           in (add_to_log ''fault:heal'' (Some (TargetData (target_text target))) (s\<lparr>transport := t\<rparr>),
               AdminOk None)))"

text \<open>
  \<open>ms\<close> and \<open>prob\<close> are the numbers \<open>parseInt\<close> and \<open>parseFloat\<close> make of the body's
  fields, \<open>None\<close> when they are not finite.
\<close>

definition post_latency :: "string option \<Rightarrow> int option \<Rightarrow> server \<Rightarrow> server \<times> admin_response" where
  "post_latency peer ms s =
     (case ms of
        None \<Rightarrow> (s, BadRequest ''bad ms'')
      | Some m \<Rightarrow>
          if m < 0 then (s, BadRequest ''bad ms'')
          else (case resolvePeer (PEER_URLS s) peer of
                  None \<Rightarrow> (s, BadRequest ''unknown peer'')
                | Some target \<Rightarrow>
                    (let t = (if target = ''all'' then setGlobalLatency m (transport s)
                              else setPeerLatency target m (transport s))
                     in (add_to_log ''fault:latency'' (Some (LatencyData (target_text target) m))
                           (s\<lparr>transport := t\<rparr>), AdminOk None))))"

definition post_drop :: "string option \<Rightarrow> rat option \<Rightarrow> server \<Rightarrow> server \<times> admin_response" where
  "post_drop peer prob s =
     (case prob of
        None \<Rightarrow> (s, BadRequest ''bad probability'')
      | Some pr \<Rightarrow>
          if pr < 0 \<or> pr > 1 then (s, BadRequest ''bad probability'')
          else (case resolvePeer (PEER_URLS s) peer of
                  None \<Rightarrow> (s, BadRequest ''unknown peer'')
                | Some target \<Rightarrow>
                    (let t = (if target = ''all'' then setGlobalDrop pr (transport s)
                              else setPeerDrop target pr (transport s))
                     in (add_to_log ''fault:drop'' (Some (DropData (target_text target) pr))
                           (s\<lparr>transport := t\<rparr>), AdminOk None))))"

definition post_clear :: "server \<Rightarrow> server \<times> admin_response" where
  "post_clear s =
     (add_to_log ''fault:cleared'' None (s\<lparr>transport := clearAllFaults (transport s)\<rparr>), AdminOk None)"

definition get_fault_status :: "server \<Rightarrow> fault_status" where
  "get_fault_status s = getFaultStatus (transport s)"

text \<open>
  \<open>POST /admin/crash\<close>: the answer goes out and the process, which keeps running until then, exits
  after the delay in milliseconds that is returned.
\<close>

definition post_crash :: "server \<Rightarrow> server \<times> int" where
  "post_crash s = (s, 50)"

text \<open>What a request for the status gets when that long has passed since the crash: nothing after the exit.\<close>

definition status_after_crash :: "int \<Rightarrow> server \<Rightarrow> status_body option" where
  "status_after_crash elapsed s =
     (let (s', delay) = post_crash s in if elapsed < delay then Some (get_status s') else None)"

text \<open>\<open>SIGTERM\<close> and \<open>SIGINT\<close>; the file is closed and the process ends.\<close>

definition shutdown :: "server \<Rightarrow> server" where
  "shutdown s = s\<lparr>node := stop (node s)\<rparr>"

subsection \<open>Facts\<close>

lemma on_event_node [simp]: "node (on_event ev s) = node s"
  by (simp add: on_event_def on_role_def on_applied_def notifyGateway_def add_to_log_def Let_def
      split: node_event.split)

lemma dispatch_node [simp]: "node (dispatch n s) = n"
proof -
  have "node (fold on_event evs s) = node s" for evs s by (induction evs arbitrary: s) simp_all
  then show ?thesis by (simp add: dispatch_def)
qed

lemma heartbeat_prev_matches:
  assumes "log_sorted d" "0 \<le> lastIndex d"
    and "lastIndex d = last_snapshot_index d \<Longrightarrow> lastTerm d = last_snapshot_term d"
  shows "prev_matches d (lastIndex d) (lastTerm d)"
proof (cases "log_entries d = []")
  case True
  then show ?thesis by (simp add: prev_matches_def lastIndex_def lastTerm_def loadMeta_def)
next
  case False
  then have "getEntry d (lastIndex d) = Some (last (log_entries d))"
    using getEntry_iff[OF assms(1)] by (simp add: lastIndex_def)
  with False assms(3) show ?thesis
    by (simp add: prev_matches_def loadMeta_def Let_def lastTerm_def)
qed


lemma handle_append_no_entries:
  assumes "ae_entries r = []" "currentTerm n \<le> ae_term r"
    and "ae_prevLogIndex r < 0 \<or> prev_matches (db n) (ae_prevLogIndex r) (ae_prevLogTerm r)"
  shows "ar_success (snd (handleAppendEntries r n))"
    and "commitIndex (fst (handleAppendEntries r n)) =
      (if ae_leaderCommit r > commitIndex n then min (ae_leaderCommit r) (lastIndex (db n)) else commitIndex n)"
  using assms
  by (cases r n rule: handleAppendEntries_cases; simp add: node_frame store_entries_def)+

definition fold_posts :: "node \<Rightarrow> node_event list \<Rightarrow> gateway_post list" where
  "fold_posts n evs = concat (map (\<lambda>ev. case ev of
     AppliedEv e \<Rightarrow> if role n = LEADER \<and> e_type e = STROKE then [StrokePost (e_payload e) (e_index e)] else []
   | _ \<Rightarrow> []) evs)"

lemma dispatch_posts:
  assumes "RoleEv LEADER \<notin> set (drop (length (emitted (node s))) (emitted n))"
  shows "posts (dispatch n s) = posts s @ fold_posts n (drop (length (emitted (node s))) (emitted n))"
proof -
  have "posts (fold on_event evs s') = posts s' @ fold_posts (node s') evs"
    if "RoleEv LEADER \<notin> set evs" for evs s'
    using that
  proof (induction evs arbitrary: s')
    case (Cons ev evs)
    have "posts (on_event ev s') = posts s' @ fold_posts (node s') [ev]"
      using Cons.prems
      by (cases ev) (auto simp: on_event_def on_role_def on_applied_def add_to_log_def fold_posts_def Let_def)
    with Cons show ?case by (simp add: fold_posts_def)
  qed (simp add: fold_posts_def)
  with assms show ?thesis by (simp add: dispatch_def)
qed

subsection \<open>Properties\<close>

text \<open>
  The heartbeat shim checks nothing about the log. A body without \<open>prevLogIndex\<close> and
  \<open>prevLogTerm\<close> gets the receiver's own last entry for them, so any sender whose term is not stale
  is answered success and can move the receiver's commit index up to its last index, whatever that log
  holds.
\<close>

theorem heartbeat_skips_log_check:
  assumes "hb_prevLogIndex b = None" "hb_prevLogTerm b = None" "currentTerm (node s) \<le> hb_term b"
    and "log_sorted (db (node s))" "hb_commitIndex b = Some c" "commitIndex (node s) < c"
    and "lastIndex (db (node s)) = last_snapshot_index (db (node s)) \<Longrightarrow>
         lastTerm (db (node s)) = last_snapshot_term (db (node s))"
  shows "ar_success (snd (post_heartbeat b s))
       \<and> commitIndex (node (fst (post_heartbeat b s))) = min c (lastIndex (db (node s)))"
proof -
  let ?r = "heartbeat_call b (node s)"
  have r: "ae_entries ?r = []" "ae_term ?r = hb_term b" "ae_leaderCommit ?r = c"
    "ae_prevLogIndex ?r = lastIndex (db (node s))" "ae_prevLogTerm ?r = lastTerm (db (node s))"
    using assms by (simp_all add: heartbeat_call_def or_default_def)
  have "ae_prevLogIndex ?r < 0 \<or> prev_matches (db (node s)) (ae_prevLogIndex ?r) (ae_prevLogTerm ?r)"
    using heartbeat_prev_matches[OF assms(4) _ assms(7)] by (cases "lastIndex (db (node s)) < 0") (simp_all add: r)
  with handle_append_no_entries[of ?r "node s"] r assms(3,6) show ?thesis
    by (simp add: post_heartbeat_def post_append_entries_def case_prod_beta)
qed

definition demo_server :: server where
  "demo_server = (new_server ''replica1'' 4001 (Some ''http://replica2:4002,http://replica3:4003'')
     fresh_db 0 0)\<lparr>node := demo_node\<rparr>"

theorem heartbeat_skips_log_check_witness:
  "commitIndex (node (fst (post_heartbeat \<lparr>hb_term = 2, hb_leaderId = ''x'', hb_prevLogIndex = None,
      hb_prevLogTerm = None, hb_commitIndex = Some 99, hb_leaderCommit = None\<rparr> demo_server))) = 3"
proof -
  have f: "node demo_server = demo_node" "lastIndex (db demo_node) = 3" "log_sorted (db demo_node)"
    using getEntry_demo(2)[OF demo_node_facts(4)] demo_node_facts(5) by (simp_all add: demo_server_def db_ok_def)
  show ?thesis
    using heartbeat_skips_log_check[of "\<lparr>hb_term = 2, hb_leaderId = ''x'', hb_prevLogIndex = None,
      hb_prevLogTerm = None, hb_commitIndex = Some 99, hb_leaderCommit = None\<rparr>" demo_server 99]
    by (simp add: f demo_node_facts)
qed

text \<open>
  The sync shim trusts any batch. The term before the batch is looked up in the receiver's own
  log, so for a batch that starts after an entry the receiver holds above its snapshot the consistency
  check compares that entry with itself: a sender of a term that is not stale is answered success
  whatever precedes the batch in the sender's log.
\<close>

theorem sync_log_skips_log_check:
  assumes "es \<noteq> []" "currentTerm (node s) \<le> t"
    and "getEntry (db (node s)) (e_index (hd es) - 1) = Some e"
    and "last_snapshot_index (db (node s)) < e_index (hd es) - 1"
  shows "ar_success (snd (post_sync_log t l es c s))"
proof -
  let ?r = "sync_call t l es c (node s)"
  have "ae_prevLogIndex ?r < 0 \<or> prev_matches (db (node s)) (ae_prevLogIndex ?r) (ae_prevLogTerm ?r)"
    using assms(3,4) by (simp add: sync_call_def Let_def prev_matches_def loadMeta_def)
  then have "ar_success (snd (handleAppendEntries ?r (node s)))"
    using assms(2)
    by (cases ?r "node s" rule: handleAppendEntries_cases) (simp_all add: sync_call_def Let_def)
  with assms(1) show ?thesis by (simp add: post_sync_log_def post_append_entries_def case_prod_beta)
qed

theorem sync_log_skips_log_check_witness:
  "ar_success (snd (post_sync_log 2 ''x'' [stroke_entry 4 2 ''z'' 1 []] (-1) demo_server))"
  by (rule sync_log_skips_log_check[where e = "stroke_entry 3 2 ''a'' 2 []"])
    (simp_all add: demo_server_def demo_node_facts getEntry_demo)

text \<open>
  What the stroke route answers. Only a leader takes a stroke; any other replica answers 403 with
  the leader it knows and does not change. A submission that has settled is answered 200 exactly when
  it resolved, with the index it resolved with or the one of the deduplication table, 503 when the
  leadership was lost or the commit timed out; one that has not settled is not answered.
\<close>

theorem stroke_route_answers:
  shows "(role (node s) \<noteq> LEADER \<longrightarrow>
            fst (post_stroke p s) = s
          \<and> (\<exists>r. snd (post_stroke p s) = Inl r \<and> http_status r = 403))
       \<and> (\<forall>res. w = Settled (Inr res) \<longrightarrow>
            (\<exists>r. stroke_settled p w n = Some r \<and> http_status r = 200
               \<and> (\<exists>d. r = StrokeOk (sr_index res) d \<or>
                   (\<exists>c q i. request_id p = Some (c, q) \<and> getDedupeIndex (sm n) c q = Some i \<and> r = StrokeOk i True))))
       \<and> (w = Settled (Inl LOST_LEADERSHIP) \<or> w = Settled (Inl COMMIT_TIMEOUT) \<longrightarrow>
            map_option http_status (stroke_settled p w n) = Some 503)
       \<and> (w = Waiting \<or> w = Orphaned \<longrightarrow> stroke_settled p w n = None)"
proof (intro conjI impI allI)
  fix res assume w: "w = Settled (Inr res)"
  have "submit_finish p res n = res \<or> (\<exists>c q i. request_id p = Some (c, q) \<and> getDedupeIndex (sm n) c q = Some i \<and>
      submit_finish p res n = \<lparr>sr_index = i, sr_term = sr_term res, sr_deduped = True\<rparr>)"
    by (auto simp: submit_finish_def split: option.split)
  then show "\<exists>r. stroke_settled p w n = Some r \<and> http_status r = 200
               \<and> (\<exists>d. r = StrokeOk (sr_index res) d \<or>
                   (\<exists>c q i. request_id p = Some (c, q) \<and> getDedupeIndex (sm n) c q = Some i \<and> r = StrokeOk i True))"
    by (auto simp: stroke_settled_def w Let_def)
qed (auto simp: post_stroke_def stroke_settled_def error_response_def)

theorem stroke_route_answers_witness:
  "fst (post_stroke None demo_server) = demo_server \<and>
   map_option http_status (stroke_settled None (Settled (Inl COMMIT_TIMEOUT)) demo_node) = Some 503"
  using stroke_route_answers[of demo_server None "Settled (Inl COMMIT_TIMEOUT)" demo_node]
  by (simp add: demo_server_def demo_node_facts)


lemma resolvePeer_cases:
  assumes "resolvePeer urls (Some i) = Some u"
  shows "u = ''all'' \<and> i = ''all'' \<or> u \<in> set urls \<and> (u = i \<or> str_includes u (i @ '':''))"
  using assms
  by (auto simp: resolvePeer_def find_split split: if_splits option.splits)

lemma fold_partition:
  "set (partitionedPeers (fold partitionPeer ps t)) = set (partitionedPeers t) \<union> set ps"
  by (induction ps arbitrary: t) (auto simp: partitionPeer_def)

text \<open>
  Naming a peer. \<open>resolvePeer\<close> answers \<open>all\<close> only for \<open>all\<close> and otherwise a URL of the
  replica's peers that is the input or has the input before a colon in it; an input that is a peer's
  URL names that peer; and it answers nothing only for an empty input or one that occurs before a
  colon in no peer's URL.
\<close>

theorem resolve_peer_correct:
  assumes "[] \<notin> set urls"
  shows "(resolvePeer urls (Some i) = Some u \<longrightarrow>
            u = ''all'' \<and> i = ''all'' \<or> u \<in> set urls \<and> (u = i \<or> str_includes u (i @ '':'')))
       \<and> (i \<in> set urls \<longrightarrow> resolvePeer urls (Some i) = Some i)
       \<and> (resolvePeer urls (Some i) = None \<longleftrightarrow>
            i = [] \<or> i \<noteq> ''all'' \<and> i \<notin> set urls \<and> (\<forall>v \<in> set urls. \<not> str_includes v (i @ '':'')))
       \<and> resolvePeer urls None = None"
proof -
  have "resolvePeer urls (Some i) = None \<longleftrightarrow>
      i = [] \<or> i \<noteq> ''all'' \<and> i \<notin> set urls \<and> (\<forall>v \<in> set urls. \<not> str_includes v (i @ '':''))"
  proof (cases "find (\<lambda>u. str_includes u (i @ '':'')) urls")
    case None
    then have "\<forall>v \<in> set urls. \<not> str_includes v (i @ '':'')" by (auto simp: find_None_iff)
    with None show ?thesis by (simp add: resolvePeer_def)
  next
    case (Some v)
    then have "v \<in> set urls" "str_includes v (i @ '':'')" by (auto simp: find_split)
    with Some assms show ?thesis by (auto simp: resolvePeer_def)
  qed
  moreover have "i \<in> set urls \<longrightarrow> resolvePeer urls (Some i) = Some i"
    using assms by (auto simp: resolvePeer_def)
  ultimately show ?thesis using resolvePeer_cases by (auto simp: resolvePeer_def)
qed

theorem resolve_peer_correct_witness:
  "resolvePeer (PEER_URLS demo_server) (Some ''http://replica2:4002'') = Some ''http://replica2:4002''"
proof -
  have "[] \<notin> set (PEER_URLS demo_server)" "''http://replica2:4002'' \<in> set (PEER_URLS demo_server)" by code_simp+
  with resolve_peer_correct show ?thesis by blast
qed

text \<open>
  Any text before a colon names a peer. The short form is looked up as a substring, so every
  part of the first peer's URL that ends before a colon, its scheme included, resolves to that peer: a
  request with \<open>http\<close> for the peer injects the fault on the first one instead of being refused.
\<close>

theorem resolve_peer_matches_substring:
  assumes "urls = (pre @ i @ '':'' @ post) # us" "i \<noteq> []" "i \<noteq> ''all''" "i \<notin> set urls"
  shows "resolvePeer urls (Some i) = Some (hd urls)"
  using assms str_includes_self[of pre "i @ '':''" post] by (simp add: resolvePeer_def)

theorem resolve_peer_matches_substring_witness:
  "resolvePeer [''http://replica2:4002''] (Some ''http'') = Some ''http://replica2:4002''"
  using resolve_peer_matches_substring[of "[''http://replica2:4002'']" "[]" "''http''" "''//replica2:4002''" "[]"]
  by simp

text \<open>
  The leader's address. For a replica named \<open>replicaN\<close> the port is \<open>4000 + N\<close>, whatever
  \<open>N\<close>, and a replica that knows it as the leader answers \<open>http://replicaN:PORT\<close> with that port
  in decimal.
\<close>

theorem leader_address:
  "portFor (Some (''replica'' @ show_int (int k))) = Some (4000 + int k)
 \<and> leader_url (n\<lparr>leaderId := Some (''replica'' @ show_int (int k))\<rparr>) =
     Some (''http://replica'' @ show_int (int k) @ '':'' @ show_int (4000 + int k))"
proof -
  have "show_int (int k) \<noteq> []" by (simp add: show_int_def show_nat_ne)
  then have "portFor (Some (''replica'' @ show_int (int k))) = Some (4000 + int k)"
    using str_replace_prefix[of "show_int (int k)" "''replica''"]
    by (simp add: portFor_def Let_def parse_show_int del: append.simps)
  then show ?thesis by (simp add: leader_url_def port_text_def)
qed

text \<open>
  Partitioning everybody. After a partition of \<open>all\<close> every call to a peer of the replica is
  refused, whatever the drop probabilities and the draw; after a heal of \<open>all\<close> none is refused for
  a partition. Each request is put on the timeline.
\<close>

theorem partition_all_refuses:
  assumes "u \<in> set (PEER_URLS s)"
  shows "snd (call_begin u x (transport (fst (post_partition (Some ''all'') s)))) = PARTITIONED
       \<and> snd (call_begin u x (transport (fst (post_heal (Some ''all'') s)))) \<noteq> PARTITIONED
       \<and> events (fst (post_partition (Some ''all'') s)) =
           add_event (now (node s)) ''fault:partition'' (Some (AffectedData (PEER_URLS s))) (events s)"
  using assms
  by (auto simp: post_partition_def post_heal_def resolvePeer_def applyToPeers_def add_to_log_def
      call_begin_def Let_def fold_partition healAll_def)

theorem partition_all_refuses_witness:
  "snd (call_begin ''http://replica3:4003'' 0 (transport (fst (post_partition (Some ''all'') demo_server)))) = PARTITIONED"
proof -
  have "''http://replica3:4003'' \<in> set (PEER_URLS demo_server)" by code_simp
  with partition_all_refuses show ?thesis by blast
qed

lemma fold_posts_applied:
  "role n = LEADER \<Longrightarrow> fold_posts n (map AppliedEv es) =
     map (\<lambda>e. StrokePost (e_payload e) (e_index e)) (filter (\<lambda>e. e_type e = STROKE) es)"
  by (induction es) (simp_all add: fold_posts_def)

text \<open>
  What a leader broadcasts. Each time a leader applies committed entries it sends the gateway
  one request for each stroke entry among them, in order, and nothing for a NOOP. That includes an entry the
  state machine has dropped as a duplicate, so a retried stroke that was appended twice is broadcast
  twice.
\<close>

theorem leader_broadcasts_applied:
  assumes "role (node s) = LEADER" "log_sorted (db (node s))"
  shows "posts (dispatch (applyCommitted (node s)) s) = posts s @
      map (\<lambda>e. StrokePost (e_payload e) (e_index e))
        (filter (\<lambda>e. e_type e = STROKE)
          (getRange (db (node s)) (lastApplied (sm (node s)) + 1) (lastApplied (sm (apply_loop (node s))))))"
proof -
  have em: "emitted (applyCommitted (node s)) = emitted (node s) @ map AppliedEv
      (getRange (db (node s)) (lastApplied (sm (node s)) + 1) (lastApplied (sm (apply_loop (node s)))))"
    using apply_loop_spec[OF assms(2)] by (simp add: applyCommitted_def node_frame)
  have "role (applyCommitted (node s)) = LEADER" using assms(1) by (simp add: node_frame)
  with dispatch_posts[of s "applyCommitted (node s)"] show ?thesis
    by (auto simp: em fold_posts_applied)
qed

theorem leader_broadcasts_applied_witness:
  "length (posts (dispatch (applyCommitted (demo_leader\<lparr>commitIndex := 3\<rparr>)) (demo_server\<lparr>node := demo_leader\<lparr>commitIndex := 3\<rparr>\<rparr>))) = 4
 \<and> length (strokes (sm (applyCommitted (demo_leader\<lparr>commitIndex := 3\<rparr>)))) = 3"
proof -
  let ?s = "demo_server\<lparr>node := demo_leader\<lparr>commitIndex := 3\<rparr>\<rparr>"
  have "role (node ?s) = LEADER" "log_sorted (db (node ?s))" by (simp_all add: demo_leader_facts)
  from leader_broadcasts_applied[OF this]
  have "length (posts (dispatch (applyCommitted (demo_leader\<lparr>commitIndex := 3\<rparr>)) ?s)) =
      length (posts demo_server) + length (filter (\<lambda>e. e_type e = STROKE)
        (getRange (db demo_leader) (lastApplied (sm demo_leader) + 1) (lastApplied (sm (apply_loop (demo_leader\<lparr>commitIndex := 3\<rparr>))))))"
    by simp
  moreover have "posts demo_server = []" by code_simp
  moreover have "length (filter (\<lambda>e. e_type e = STROKE)
        (getRange (db demo_leader) (lastApplied (sm demo_leader) + 1) (lastApplied (sm (apply_loop (demo_leader\<lparr>commitIndex := 3\<rparr>)))))) = 4"
    by code_simp
  moreover have "length (strokes (sm (applyCommitted (demo_leader\<lparr>commitIndex := 3\<rparr>)))) = 3" by code_simp
  ultimately show ?thesis by simp
qed

end
