(* ===== verification/Client_Guarantees.thy ===== *)
theory Client_Guarantees imports Commit_Safety Replica_Server begin

text \<open>
  What the cluster promises its clients: a stroke whose submission a leader has acknowledged is never
  lost, a linearizable read (\<open>GET /read-linearizable\<close>) sees everything that was committed by a
  leader before it began, and \<open>GET /log\<close> returns the committed history. The conditions are those of
  \<open>Commit_Safety\<close>: no snapshot so far, answers taken in the term of their call. Each property names them.
\<close>

subsection \<open>What only grows along a run\<close>

lemma leader_before:
  assumes R: "reachable_if timely D" and st: "step_if timely D C" and Q: "quiet C"
    and u: "(u, t) \<in> leaders D" "role (nodes C u) = LEADER" "currentTerm (nodes C u) = t"
  shows "role (nodes D u) = LEADER \<and> currentTerm (nodes D u) = t \<and> commitIndex (nodes D u) \<le> commitIndex (nodes C u)"
proof -
  have r: "reachable D" by (rule timely_reachable[OF R])
  have step: "step D C" by (rule step_if_mono[OF st]) simp
  note I = reachable_inv[OF r]
  have q: "quiet D" by (rule snapshots_back[OF step Q I])
  have uD: "u \<in> set (urls D)" and ld: "t \<le> currentTerm (nodes D u)"
    "t = currentTerm (nodes D u) \<Longrightarrow> role (nodes D u) \<noteq> CANDIDATE"
    using I u(1) by (auto simp: cluster_inv_def vote_inv_def leader_inv_def)
  obtain w n where w: "w \<in> set (urls D)" "node_move D w n" "recorded (put_node w n D) w C"
    using step_moves[OF I step] unfolding moves_def by blast
  have N: "nodes C = (nodes D)(w := n)" using recorded_frame[OF w(3)] by simp
  have was: "role (nodes D u) = LEADER \<and> currentTerm (nodes D u) = t"
  proof (cases "u = w")
    case False
    with N u(2,3) show ?thesis by simp
  next
    case True
    with N u(2,3) have n: "role n = LEADER" "currentTerm n = t" by simp_all
    then have t: "currentTerm (nodes D u) = t" using move_role(2)[OF w(2)] True by simp
    from w(2) show ?thesis
    proof cases
      case (steadily X)
      with n t True show ?thesis by (auto simp: steady_def)
    next
      case candidacy
      with n show ?thesis by (simp add: node_frame)
    next
      case (victory Q)
      with t True ld(2) show ?thesis by simp
    next
      case (appending ty p)
      with t True show ?thesis by simp
    qed
  qed
  have A: "acks_ok D" using reachable_safety[OF r q] by (simp add: safety_inv_def)
  from step_cchange[OF I reachable_line_inv[OF r q] A st Q uD]
  have "commitIndex (nodes D u) \<le> commitIndex (nodes C u)" by cases (use u(2) in auto)
  with was show ?thesis by simp
qed

text \<open>What a state keeps of an earlier one.\<close>

definition carries :: "cluster \<Rightarrow> cluster \<Rightarrow> bool" where
  "carries C0 C \<longleftrightarrow> urls C = urls C0 \<and> (\<forall>w. currentTerm (nodes C0 w) \<le> currentTerm (nodes C w)) \<and>
     leaders C0 \<subseteq> leaders C \<and> leader_logs C0 \<subseteq> leader_logs C \<and>
     (\<forall>t m. secured C0 t m \<longrightarrow> secured C t m) \<and>
     (\<forall>u t. (u, t) \<in> leaders C0 \<and> role (nodes C u) = LEADER \<and> currentTerm (nodes C u) = t \<longrightarrow>
        role (nodes C0 u) = LEADER \<and> currentTerm (nodes C0 u) = t \<and> commitIndex (nodes C0 u) \<le> commitIndex (nodes C u))"

lemma run_carries:
  assumes "runs C0 C" "reachable_if timely C0" "quiet C"
  shows "carries C0 C \<and> quiet C0"
  using assms
proof (induction rule: rtranclp_induct)
  case base
  have I: "cluster_inv C0" by (rule reachable_inv[OF timely_reachable[OF base.prems(1)]])
  then have "currentTerm (nodes C0 u) = t \<and> role (nodes C0 u) = LEADER"
    if "(u, t) \<in> leaders C0" "role (nodes C0 u) = LEADER" "currentTerm (nodes C0 u) = t" for u t
    using that by simp
  then show ?case using base.prems by (auto simp: carries_def)
next
  case (step D C)
  have R: "reachable_if timely D" by (rule reachable_runs[OF step.hyps(1) step.prems(1)])
  have r: "reachable D" by (rule timely_reachable[OF R])
  have st: "step D C" by (rule step_if_mono[OF step.hyps(2)]) simp
  have q: "quiet D" by (rule snapshots_back[OF st step.prems(2) reachable_inv[OF r]])
  from step.IH[OF step.prems(1) q] have IH: "carries C0 D" "quiet C0" by simp_all
  obtain w n where S: "safe_step D C w n"
    by (rule safety_step[OF reachable_inv[OF r] reachable_line_inv[OF r q] reachable_safety[OF r q] st step.prems(2)])
  note fr = safe_frame[OF S]
  have lead: "role (nodes C0 u) = LEADER \<and> currentTerm (nodes C0 u) = t \<and> commitIndex (nodes C0 u) \<le> commitIndex (nodes C u)"
    if "(u, t) \<in> leaders C0" "role (nodes C u) = LEADER" "currentTerm (nodes C u) = t" for u t
  proof -
    have "(u, t) \<in> leaders D" using that(1) IH(1) by (auto simp: carries_def)
    note d = leader_before[OF R step.hyps(2) step.prems(2) this that(2,3)]
    have "role (nodes C0 u) = LEADER \<and> currentTerm (nodes C0 u) = t \<and> commitIndex (nodes C0 u) \<le> commitIndex (nodes D u)"
      using IH(1) that(1) d unfolding carries_def by blast
    with d show ?thesis by linarith
  qed
  have "urls C = urls C0" using IH(1) fr(2) by (simp add: carries_def)
  moreover have "currentTerm (nodes C0 v) \<le> currentTerm (nodes C v)" for v
    using IH(1) fr(9)[of v] unfolding carries_def by (meson order_trans)
  moreover have "leaders C0 \<subseteq> leaders C" "leader_logs C0 \<subseteq> leader_logs C"
    using IH(1) fr(5,6) unfolding carries_def by blast+
  moreover have "secured C t m" if "secured C0 t m" for t m
    using IH(1) that secured_mono[OF S _ order_refl] unfolding carries_def by blast
  ultimately have "carries C0 C" using lead unfolding carries_def by blast
  with IH(2) show ?case by simp
qed


subsection \<open>Reads\<close>

text \<open>The call of a read, and the answers it awaits: each is what its peer answered between start and end.\<close>

definition read_request :: "node \<Rightarrow> append_entries" where
  "read_request n = \<lparr>ae_term = currentTerm n, ae_leaderId = replicaId n, ae_prevLogIndex = lastIndex (db n),
     ae_prevLogTerm = lastTerm (db n), ae_entries = [], ae_leaderCommit = commitIndex n\<rparr>"

lemma readIndex_begin_request:
  "snd (readIndex_begin n) = Inr (i, t) \<Longrightarrow> fst (readIndex_begin n) = broadcast (ReadCall (read_request n)) n"
  by (auto simp: readIndex_begin_def read_request_def split: if_splits)

definition read_answers :: "cluster \<Rightarrow> cluster \<Rightarrow> string \<Rightarrow> append_reply option list \<Rightarrow> bool" where
  "read_answers C D u rs \<longleftrightarrow>
     list_all2 (\<lambda>p x. case x of None \<Rightarrow> True | Some b \<Rightarrow>
         \<exists>M. runs C M \<and> runs M D \<and> b = snd (handleAppendEntries (read_request (nodes C u)) (nodes M p)))
       (peers (nodes C u)) rs"

lemma ready_entry:
  assumes "plain (db n)" "snd (readIndex_begin n) = Inr (i, t)"
  shows "role n = LEADER" "i = commitIndex n" "t = currentTerm n" "0 \<le> i" "i < int (length (log_entries (db n)))"
    "e_term (log_entries (db n) ! nat i) = t"
proof -
  note f = plain_facts[OF assms(1)]
  have r: "role n = LEADER" "read_ready n" "i = commitIndex n" "t = currentTerm n"
    using assms(2) by (auto simp: readIndex_begin_def split: if_splits)
  then show "role n = LEADER" "i = commitIndex n" "t = currentTerm n" by simp_all
  have "0 \<le> i \<and> i < int (length (log_entries (db n))) \<and> e_term (log_entries (db n) ! nat i) = t"
    using r(2-4) by (auto simp: read_ready_def Let_def loadMeta_def f(1) f(7) split: if_splits option.splits)
  then show "0 \<le> i" "i < int (length (log_entries (db n)))" "e_term (log_entries (db n) ! nat i) = t" by blast+
qed

lemma success_term: "ar_success (snd (handleAppendEntries r n)) \<Longrightarrow> currentTerm n \<le> ae_term r"
  by (cases r n rule: handleAppendEntries_cases) simp_all

text \<open>Who accepts the call of a read was not in a newer term when the read began.\<close>

lemma read_quorum:
  assumes R: "reachable_if timely C" and CD: "runs C D" and q: "quiet D" and u: "u \<in> set (urls C)"
    and ans: "read_answers C D u rs" and ok: "snd (readIndex_results t rs (nodes D u)) = None"
  obtains A where "quorum C A" "\<forall>w \<in> A. currentTerm (nodes C w) \<le> currentTerm (nodes C u)"
proof -
  let ?n = "nodes C u" and ?r = "read_request (nodes C u)"
  let ?G = "{p. \<exists>b. (p, Some b) \<in> set (zip (peers ?n) rs) \<and> ar_success b}"
  have RD: "reachable_if timely D" by (rule reachable_runs[OF CD R])
  have I: "conf C" "conf D" using reachable_inv[OF timely_reachable] R RD by (auto simp: cluster_inv_def vote_inv_def)
  have ud: "urls D = urls C" using run_carries[OF CD R q] by (simp add: carries_def)
  have ps: "distinct (peers ?n)" "set (peers ?n) = set (urls C) - {u}" "distinct (peers (nodes D u))"
    "set (peers (nodes D u)) = set (urls C) - {u}" using I u ud by (simp_all add: conf_def)
  have len: "length (peers (nodes D u)) = length (peers ?n)" using ps by (metis distinct_card)
  have lst: "list_all2 (\<lambda>p x. case x of None \<Rightarrow> True | Some b \<Rightarrow>
         \<exists>M. runs C M \<and> runs M D \<and> b = snd (handleAppendEntries ?r (nodes M p))) (peers ?n) rs"
    using ans by (simp add: read_answers_def)
  note G = card_granted[OF lst ps(1), of ar_success]
  have fin: "finite ?G" and notin: "u \<notin> ?G" using G ps(2) finite_subset by auto
  have "currentTerm (nodes C w) \<le> currentTerm ?n" if w: "w \<in> ?G" for w
  proof -
    obtain b where b: "(w, Some b) \<in> set (zip (peers ?n) rs)" "ar_success b" using w by auto
    from lst b(1) obtain M where M: "runs C M" "runs M D" "b = snd (handleAppendEntries ?r (nodes M w))"
      by (force simp: list_all2_iff)
    have "quiet M" using run_carries[OF M(2) reachable_runs[OF M(1) R] q] by simp
    then have "currentTerm (nodes C w) \<le> currentTerm (nodes M w)"
      using run_carries[OF M(1) R] by (simp add: carries_def)
    moreover have "currentTerm (nodes M w) \<le> ae_term ?r" using success_term b(2) M(3) by blast
    ultimately show ?thesis by (simp add: read_request_def)
  qed
  moreover have "quorum C (insert u ?G)"
  proof -
    have "majority (nodes D u) \<le> 1 + int (length (filter ar_success (answers rs)))"
      using ok by (auto simp: readIndex_results_def count_acks_cases split: option.splits if_splits)
    moreover have "card (set (urls C)) = length (peers ?n) + 1"
      using distinct_card[OF ps(1)] ps(2) u by (metis List.finite_set Suc_eq_plus1 card_Suc_Diff1)
    ultimately have "card (set (urls C)) < 2 * card (insert u ?G)"
      using G fin notin len by (simp add: majority_def card_insert_if)
    with G ps(2) u show ?thesis by (auto simp: quorum_def)
  qed
  ultimately show thesis by (intro that[of "insert u ?G"]) auto
qed

text \<open>What was secured before a leader's term lies below each entry of its term.\<close>

lemma secured_below:
  assumes L: "line_inv C" and V: "safety_inv C" and u: "u \<in> set (urls C)" "role (nodes C u) = LEADER"
    and i: "0 \<le> i" "i < int (length (log_of C u))" "e_term (log_of C u ! nat i) = currentTerm (nodes C u)"
    and m: "secured C t m" "t < currentTerm (nodes C u)"
  shows "int (length m) \<le> i"
proof (cases "m = []")
  case False
  then obtain l where l: "chosen C l" "last_term l \<le> t" "prefix m l" using m(1) by (auto simp: secured_def)
  have p: "prefix l (log_of C u)" using l(2) m(2) by (intro chosen_leader[OF L V l(1) u]) simp
  have "\<not> nat i < length l"
  proof
    assume lt: "nat i < length l"
    have "take (Suc (nat i)) l \<in> leader_logs C \<and> last_term (take (Suc (nat i)) l) \<le> last_term l"
      using L l(1) by (simp add: line_inv_def lines_ok_def chosen_def)
    moreover have "l ! nat i = log_of C u ! nat i" using p lt by (auto simp: prefix_def nth_append)
    ultimately show False using l(2) m(2) i(3) lt by (simp add: last_term_take)
  qed
  with prefix_length_le[OF l(3)] i(1) show ?thesis by linarith
qed (use i(1) in simp)

lemma leader_committed_before:
  assumes R: "reachable_if timely C0" and CC: "runs C0 C" "runs C D" and q: "quiet D"
    and v: "v \<in> set (urls C0)" "role (nodes C0 v) = LEADER" and u: "u \<in> set (urls C0)"
    and beg: "snd (readIndex_begin (nodes C u)) = Inr (i, t)" and ans: "read_answers C D u rs"
    and ok: "snd (readIndex_results t rs (nodes D u)) = None"
  shows "commitIndex (nodes C0 v) \<le> i"
proof -
  have RC: "reachable_if timely C" by (rule reachable_runs[OF CC(1) R])
  have qC: "quiet C" using run_carries[OF CC(2) RC q] by simp
  have K: "carries C0 C" "quiet C0" using run_carries[OF CC(1) R qC] by simp_all
  have uC: "u \<in> set (urls C)" using K(1) u by (simp add: carries_def)
  note rC = timely_reachable[OF RC] and r0 = timely_reachable[OF R]
  note I = reachable_inv[OF rC] and L = reachable_line_inv[OF rC qC] and V = reachable_safety[OF rC qC]
  have I0: "leader_inv C0" "ballot_inv C0" "vote_inv C0" using reachable_inv[OF r0] by (simp_all add: cluster_inv_def vote_inv_def)
  have I1: "vote_inv C" "leader_inv C" using I by (simp_all add: cluster_inv_def vote_inv_def)
  note e = ready_entry[OF held_plain[OF I L qC uC] beg]
  let ?t0 = "currentTerm (nodes C0 v)"
  have lv: "(v, ?t0) \<in> leaders C0" using I0(1) v by (simp add: leader_inv_def)
  have lu: "(u, t) \<in> leaders C" using I1(2) uC e(1,3) by (simp add: leader_inv_def)
  have ok0: "commit_ok C0 v" using reachable_commit[OF R K(2)] v(1) by (simp add: commit_inv_def)
  consider "?t0 < t" | "?t0 = t" | "t < ?t0" by linarith
  then show ?thesis
  proof cases
    case 1
    have "secured C ?t0 (committed (nodes C0 v))" using ok0 K(1) unfolding commit_ok_def carries_def by blast
    then have "int (length (committed (nodes C0 v))) \<le> i"
      using 1 e(3) by (intro secured_below[OF L V uC e(1) e(4,5)]) (simp_all add: e(6))
    with committed_length[OF ok0] show ?thesis by linarith
  next
    case 2
    have "(v, t) \<in> leaders C" using lv 2 K(1) by (auto simp: carries_def)
    then have "v = u" by (rule one_leader[OF I1(1) _ lu])
    with K(1) lv 2 e(1-3) show ?thesis unfolding carries_def by metis
  next
    case 3
    obtain A where A: "quorum C A" "\<forall>w \<in> A. currentTerm (nodes C w) \<le> currentTerm (nodes C u)"
      by (rule read_quorum[OF RC CC(2) q uC ans ok])
    obtain Q where Q: "Q \<subseteq> set (urls C0)" "card (set (urls C0)) < 2 * card Q"
      "\<forall>w \<in> Q. (w, ?t0, replicaId (nodes C0 v)) \<in> ballots C0" using I0(1) lv unfolding leader_inv_def by blast
    have "set (urls C0) = set (urls C)" using K(1) by (simp add: carries_def)
    then obtain w where w: "w \<in> A" "w \<in> Q"
      using ballots.majorities_meet[of "set (urls C)" A Q] A(1) Q(1,2) by (auto simp: quorum_def)
    have "?t0 \<le> currentTerm (nodes C0 w)" using Q(3) w(2) I0(2) unfolding ballot_inv_def by blast
    also have "\<dots> \<le> currentTerm (nodes C w)" using K(1) by (simp add: carries_def)
    also have "\<dots> \<le> t" using A(2) w(1) e(3) by simp
    finally show ?thesis using 3 by simp
  qed
qed

subsection \<open>Properties\<close>

text \<open>
  C6: linearizable reads. Take a run in which no node has taken a snapshot so far and every leader takes the
  answer to a replication call only while it is in the term of that call. A read that the node \<open>u\<close> starts,
  confirms with answers the peers give between the start and the confirmation, and ends when it has waited
  for its index, returns a canvas that begins with the canvas of any node \<open>v\<close> that was leader before the
  read began (so with every stroke acknowledged or broadcast by a leader before), whatever elections, crashes and
  deliveries go on during the read, provided that \<open>u\<close> and \<open>v\<close> have the same bound on their tables of
  clients. Neither condition can be dropped silently: a leader that has just compacted its whole log
  confirms a read without a committed entry of its own term (\<open>RaftNode.js\<close>, line 538).
\<close>

theorem reads_are_linearizable:
  assumes "reachable_if timely C0" "runs C0 C" "runs C D" "runs D E" "quiet E"
    and "v \<in> set (urls C0)" "role (nodes C0 v) = LEADER" "u \<in> set (urls C0)"
    and "snd (readIndex_begin (nodes C u)) = Inr (i, t)"
    and "read_answers C D u rs" "snd (readIndex_results t rs (nodes D u)) = None"
    and "readIndex_wait i t (nodes E u) = Some (i, t)"
    and "dedupeMaxClients (sm (nodes C0 v)) = dedupeMaxClients (sm (nodes E u))"
  shows "commitIndex (nodes C0 v) \<le> i
       \<and> (\<exists>es. sm (nodes E u) = apply_log es (sm (nodes C0 v)))
       \<and> prefix (strokes (sm (nodes C0 v))) (strokes (sm (nodes E u)))"
proof -
  have RD: "reachable_if timely D" by (rule reachable_runs[OF assms(3) reachable_runs[OF assms(2,1)]])
  have RE: "reachable_if timely E" by (rule reachable_runs[OF assms(4) RD])
  have run: "runs C0 E" using assms(2-4) by (meson rtranclp_trans)
  have qD: "quiet D" using run_carries[OF assms(4) RD assms(5)] by simp
  have K: "carries C0 E" "quiet C0" using run_carries[OF run assms(1,5)] by simp_all
  have le: "commitIndex (nodes C0 v) \<le> i"
    by (rule leader_committed_before[OF assms(1-3) qD assms(6-11)])
  have uE: "u \<in> set (urls E)" using K(1) assms(8) by (simp add: carries_def)
  have ok0: "commit_ok C0 v" "applied_ok (nodes C0 v)"
    using reachable_commit[OF assms(1) K(2)] assms(6) by (simp_all add: commit_inv_def)
  have okE: "commit_ok E u" "applied_ok (nodes E u)"
    using reachable_commit[OF RE assms(5)] uE by (simp_all add: commit_inv_def)
  note r = timely_reachable[OF RE]
  let ?a = "committed (nodes C0 v)" and ?b = "committed (nodes E u)"
  have s0: "secured E (currentTerm (nodes C0 v)) ?a" using ok0(1) K(1) unfolding commit_ok_def carries_def by blast
  have sE: "secured E (currentTerm (nodes E u)) ?b" using okE(1) by (simp add: commit_ok_def)
  have "i \<le> commitIndex (nodes E u)"
    using assms(12) okE(2) by (simp add: readIndex_wait_def applied_ok_def split: if_splits)
  then have "length ?a \<le> length ?b" using le by (simp add: committed_length ok0(1) okE(1))
  then have "prefix ?a ?b"
    using commits_comparable[OF reachable_line_inv[OF r assms(5)] reachable_safety[OF r assms(5)] s0 sE]
    by (metis prefix_length_le prefix_length_prefix prefix_order.refl)
  then obtain es where es: "?b = ?a @ es" by (auto simp: prefix_def)
  have "sm (nodes C0 v) = apply_log ?a (new_state_machine (dedupeMaxClients (sm (nodes C0 v))))"
    using ok0(2) unfolding applied_ok_def committed_def by metis
  moreover have "sm (nodes E u) = apply_log ?b (new_state_machine (dedupeMaxClients (sm (nodes E u))))"
    using okE(2) unfolding applied_ok_def committed_def by metis
  ultimately have e: "sm (nodes E u) = apply_log es (sm (nodes C0 v))"
    using assms(13) by (simp add: es)
  with le strokes_grow[of es "sm (nodes C0 v)"] show ?thesis by (auto simp: prefix_def)
qed


lemma demo_reads:
  "runs cluster4 cluster6" "runs cluster6 cluster7" "runs cluster7 cluster8" "runs cluster6 cluster8"
proof -
  note s = demo_longer_reachable(7,8,9,5)
  show "runs cluster4 cluster6" using s(1,2) by (meson r_into_rtranclp rtranclp_trans)
  show "runs cluster6 cluster7" "runs cluster7 cluster8" "runs cluster6 cluster8"
    using s(3,4) by (meson r_into_rtranclp rtranclp_trans)+
qed

theorem reads_are_linearizable_witness:
  "\<exists>rs. read_answers cluster7 cluster8 ''a'' rs \<and> snd (readIndex_results 1 rs (nodes cluster8 ''a'')) = None \<and>
     prefix (strokes (sm (nodes cluster6 ''a''))) (strokes (sm (nodes cluster8 ''a''))) \<and>
     strokes (sm (nodes cluster6 ''a'')) = [stroke_of demo_stroke]"
proof -
  let ?a = "nodes cluster6 ''a''"
  let ?rs = "[Some (snd (handleAppendEntries demo_heartbeat (nodes cluster5 ''b''))), None]"
  have a: "nodes cluster7 ''a'' = sendAppendEntriesToAll ?a" "nodes cluster8 ''a'' = sendAppendEntriesToAll ?a"
    "nodes cluster7 ''b'' = nodes cluster5 ''b''"
    by (simp_all add: demo_longer_frame(2,3)) (simp add: cluster7_def cluster6_def)
  have beg: "snd (readIndex_begin (sendAppendEntriesToAll ?a)) = Inr (1, 1)" by code_simp
  have rq: "read_request (sendAppendEntriesToAll ?a) = demo_heartbeat" by code_simp
  have ps: "peers (sendAppendEntriesToAll ?a) = [''b'', ''c'']" by code_simp
  have ans: "read_answers cluster7 cluster8 ''a'' ?rs"
    unfolding read_answers_def a(1) ps rq
    by (simp, rule exI[of _ cluster7]) (simp add: demo_reads a(3))
  have ok: "snd (readIndex_results 1 ?rs (sendAppendEntriesToAll ?a)) = None" by code_simp
  have la: "lastApplied (sm ?a) = 1" "strokes (sm ?a) = [stroke_of demo_stroke]" by code_simp+
  have sm: "sm (sendAppendEntriesToAll ?a) = sm ?a" by (simp add: node_frame)
  have u: "''a'' \<in> set (urls cluster6)" using demo_longer_frame(1) by (simp add: cluster8_def cluster7_def)
  have "readIndex_wait 1 1 (nodes cluster8 ''a'') = Some (1, 1)" by (simp add: readIndex_wait_def a sm la)
  with reads_are_linearizable[OF demo_longer_reachable(2) demo_reads(2,3) rtranclp.rtrancl_refl demo_longer_quiet(2)
      u demo_commit_facts(1) u, of 1 1 ?rs] beg ans ok la(2) show ?thesis
    by (intro exI[of _ ?rs]) (simp add: a sm)
qed

text \<open>
  C7: an acknowledged stroke is kept. Take a run in which no node has taken a snapshot so far and every leader
  takes the answer to a replication call only while it is in the term of that call. When the promise of a submission
  resolves while its node still leads the term of the entry, then in every state of the run from that moment on
  a node that has committed as far has this very entry at the index that was acknowledged, and so has every
  leader of that term or a later one, whatever elections, crashes and deliveries follow.
\<close>

theorem acknowledged_stroke_kept:
  assumes "reachable_if timely C" "u \<in> set (urls C)"
    and "submit_begin STROKE p (nodes C u) = (n, Appended e)"
    and "runs (put_node u n C) D" "await_check (e_index e) (e_term e) (nodes D u) = Settled (Inr res)"
    and "role (nodes D u) = LEADER" "currentTerm (nodes D u) = e_term e"
    and "runs D E" "quiet E" "v \<in> set (urls C)"
    and "e_index e \<le> commitIndex (nodes E v) \<or> role (nodes E v) = LEADER \<and> e_term e \<le> currentTerm (nodes E v)"
  shows "sr_index res = e_index e \<and> e_payload e = p \<and> getEntry (db (nodes E v)) (e_index e) = Some e"
proof -
  let ?C = "put_node u n C" and ?k = "nat (e_index e)"
  have sub: "role (nodes C u) = LEADER" "n = sendAppendEntriesToAll (fst (appendLocal STROKE p (nodes C u)))"
    "e = snd (appendLocal STROKE p (nodes C u))"
    using assms(3) by (auto simp: submit_begin_def Let_def case_prod_beta split: option.splits if_splits)
  have "step_if timely C ?C" using client_submit[OF assms(2), of timely p] assms(3) by simp
  then have R: "reachable_if timely ?C" by (rule reach_step[OF assms(1)])
  have RD: "reachable_if timely D" by (rule reachable_runs[OF assms(4) R])
  have RE: "reachable_if timely E" by (rule reachable_runs[OF assms(8) RD])
  have qE: "carries D E" "quiet D" using run_carries[OF assms(8) RD assms(9)] by simp_all
  have qD: "carries ?C D" "quiet ?C" using run_carries[OF assms(4) R qE(2)] by simp_all
  note LC = reachable_line_inv[OF timely_reachable[OF R] qD(2)] and LD = reachable_line_inv[OF timely_reachable[OF RD] qE(2)]
    and LE = reachable_line_inv[OF timely_reachable[OF RE] assms(9)] and VE = reachable_safety[OF timely_reachable[OF RE] assms(9)]
  have ok: "db_ok (db (nodes C u))"
    using reachable_inv[OF timely_reachable[OF assms(1)]] assms(2) by (auto simp: cluster_inv_def vote_inv_def dest: soundD)
  have f: "e_index e = lastIndex (db (nodes C u)) + 1" "e_term e = currentTerm (nodes C u)" "e_payload e = p"
    "role n = LEADER" "currentTerm n = e_term e"
    by (simp_all add: sub node_frame)
  have log: "log_of ?C u = log_of C u @ [e]"
    using append_one(1)[OF ok f(1)] by (simp add: sub(2) node_frame) (simp add: sub(3) node_frame)
  have plC: "plain (db (nodes ?C u))"
    using held_plain[OF reachable_inv[OF timely_reachable[OF R]] LC qD(2), of u] assms(2) by simp
  have "lastIndex (db n) = e_index e" using log by (simp add: lastIndex_def)
  then have k: "?k = length (log_of C u)" "0 \<le> e_index e" using plain_facts(4)[OF plC] log by simp_all
  have urls: "urls D = urls C" "urls E = urls C" using qD(1) qE(1) by (simp_all add: carries_def)
  have "log_of ?C u \<in> leader_logs D" using LC assms(2) f(4) qD(1) by (auto simp: line_inv_def held_ok_def carries_def)
  moreover have "last_term (log_of ?C u) = e_term e" by (simp only: log) (simp add: last_term_def)
  moreover have h: "log_of D u \<in> leader_logs D" "last_term (log_of D u) = e_term e"
    "\<forall>l \<in> leader_logs D. last_term l = e_term e \<longrightarrow> length l \<le> length (log_of D u)"
    using LD assms(2,6,7) urls(1) by (auto simp: line_inv_def held_ok_def)
  ultimately have "prefix (log_of C u @ [e]) (log_of D u)"
    unfolding log[symmetric] using LD by (intro line_prefix[of D]) (simp_all add: line_inv_def)
  then obtain zs where zs: "log_of D u = log_of C u @ e # zs" by (auto simp: prefix_def)
  let ?m = "committed (nodes D u)"
  have okD: "commit_ok D u" using reachable_commit[OF RD qE(2)] assms(2) urls(1) by (simp add: commit_inv_def)
  have ci: "e_index e \<le> commitIndex (nodes D u)" "sr_index res = e_index e"
    using assms(5-7) by (auto simp: await_check_def split: if_splits)
  have len: "?k < length ?m" using committed_length[OF okD] ci k(2) by linarith
  have "?m ! ?k = log_of D u ! ?k" using len by (simp add: committed_def)
  then have em: "?m ! ?k = e" by (simp add: zs k(1))
  have sec: "secured E (e_term e) ?m" using okD qE(1) assms(7) by (auto simp: commit_ok_def carries_def)
  have vE: "v \<in> set (urls E)" using assms(10) urls(2) by simp
  have plE: "plain (db (nodes E v))"
    by (rule held_plain[OF reachable_inv[OF timely_reachable[OF RE]] LE assms(9) vE])
  have at: "getEntry (db (nodes E v)) (e_index e) = Some e" if "prefix x (log_of E v)" "?k < length x" "x ! ?k = e" for x
    using that k(2) by (auto simp: plain_facts(7)[OF plE] prefix_def nth_append)
  have "getEntry (db (nodes E v)) (e_index e) = Some e" using assms(11)
  proof
    assume c: "e_index e \<le> commitIndex (nodes E v)"
    have okE: "commit_ok E v" using reachable_commit[OF RE assms(9)] vE by (simp add: commit_inv_def)
    then have "secured E (currentTerm (nodes E v)) (committed (nodes E v))" by (simp add: commit_ok_def)
    from commits_comparable[OF LE VE sec this] have "take (Suc ?k) (committed (nodes E v)) = take (Suc ?k) ?m"
      using len committed_length[OF okE] c k(2) by (auto simp: prefix_def)
    moreover have l: "?k < length (committed (nodes E v))" using committed_length[OF okE] c k(2) by linarith
    ultimately have "committed (nodes E v) ! ?k = e" using em by (metis lessI nth_take)
    with l show ?thesis by (intro at[of "committed (nodes E v)"]) (simp_all add: committed_def take_is_prefix)
  next
    assume l: "role (nodes E v) = LEADER \<and> e_term e \<le> currentTerm (nodes E v)"
    from sec len obtain l' where l': "chosen E l'" "last_term l' \<le> e_term e" "prefix ?m l'" by (auto simp: secured_def)
    have "prefix l' (log_of E v)" using l l'(2) by (intro chosen_leader[OF LE VE l'(1) vE]) simp_all
    with l'(3) len em show ?thesis by (intro at[of ?m]) (auto intro: prefix_order.trans)
  qed
  with ci(2) f(3) show ?thesis by simp
qed

theorem acknowledged_stroke_kept_witness:
  "getEntry (db (nodes cluster8 ''b'')) 1 = Some demo_stroke"
proof -
  have s: "snd (submit_begin STROKE (Some demo_payload) (nodes cluster3 ''a'')) = Appended demo_stroke" by code_simp
  have e: "e_index demo_stroke = 1" "e_term demo_stroke = 1" by (simp_all add: demo_stroke_def)
  have "await_check 1 1 (nodes cluster6 ''a'') = Settled (Inr \<lparr>sr_index = 1, sr_term = 1, sr_deduped = False\<rparr>)"
    by (simp add: await_check_def demo_commit_facts)
  with acknowledged_stroke_kept[OF demo_reachable(3), of "''a''" "Some demo_payload"
      "fst (submit_begin STROKE (Some demo_payload) (nodes cluster3 ''a''))" demo_stroke cluster6 _ cluster8 "''b''"] s
  show ?thesis
    by (simp add: demo_cluster_facts demo_reads(1,4)[unfolded cluster4_def] demo_longer_quiet e demo_commit_facts
        demo_longer_facts(5) prod_eq_iff)
qed

subsection \<open>The history route\<close>

lemma entry_of_own_commit:
  assumes "reachable_if timely C" "quiet C" "u \<in> set (urls C)" "e \<in> set (committed (nodes C u))"
  shows "getEntry (db (nodes C u)) (e_index e) = Some e \<and> e_index e \<le> commitIndex (nodes C u)"
proof -
  let ?n = "nodes C u"
  note r = timely_reachable[OF assms(1)]
  have pl: "plain (db ?n)" by (rule held_plain[OF reachable_inv[OF r] reachable_line_inv[OF r assms(2)] assms(2,3)])
  obtain k where k: "k < length (committed ?n)" "committed ?n ! k = e" using assms(4) by (auto simp: in_set_conv_nth)
  then have l: "k < length (log_entries (db ?n))" "log_entries (db ?n) ! k = e" "int k \<le> commitIndex ?n"
    by (auto simp: committed_def)
  have "positions (log_entries (db ?n))" using pl by (simp add: plain_def)
  with l have "e_index e = int k" by (auto simp: positions_def)
  with l show ?thesis by (simp add: plain_facts(7)[OF pl])
qed

text \<open>The row of the history that stands for an entry.\<close>

definition history_row :: "entry \<Rightarrow> history_entry" where
  "history_row e = \<lparr>h_index = Some (JInt (e_index e)), h_term = Some (e_term e), h_stroke = p_fields (payload_of e)\<rparr>"

lemma committed_rows:
  assumes "reachable_if timely C" "quiet C" "u \<in> set (urls C)"
  defines "n \<equiv> nodes C u"
  assumes "int (card (clients (committed n))) \<le> dedupeMaxClients (sm n)"
    and "\<forall>e \<in> set (committed n). e_type e = STROKE \<longrightarrow> plain_payload e"
  shows "getLogEntries from (commitIndex n) (db n) (sm n) =
     map history_row (filter (\<lambda>e. from \<le> e_index e) (accepted [] (committed n)))"
proof -
  note b = board_of_committed[OF assms(1-3), folded n_def]
  have st: "strokes (sm n) = map stroke_of (accepted [] (committed n))"
    using apply_log_dedupe[OF b(2,3) assms(5)] unfolding b(1)[symmetric] by blast
  have sub: "set (accepted [] (committed n)) \<subseteq> set (committed n)" by (rule accepted_subset)
  have "plain_payload e" if "e \<in> set (accepted [] (committed n))" for e
    using accepted_fresh[OF that] that sub assms(6) by (auto simp: fresh_def)
  with sub b(3) have "\<forall>e \<in> set (accepted [] (committed n)). plain_payload e \<and> 0 \<le> e_index e" by blast
  from history_of_canvas[OF st this] have
    "getLogEntries from (commitIndex n) (db n) (sm n) = map (\<lambda>e. \<lparr>h_index = Some (JInt (e_index e)),
        h_term = map_option e_term (getEntry (db n) (e_index e)), h_stroke = p_fields (payload_of e)\<rparr>)
      (filter (\<lambda>e. from \<le> e_index e \<and> e_index e \<le> commitIndex n) (accepted [] (committed n)))" .
  moreover have "getEntry (db n) (e_index e) = Some e \<and> e_index e \<le> commitIndex n" if "e \<in> set (accepted [] (committed n))" for e
    using entry_of_own_commit[OF assms(1-3)] that sub by (auto simp: n_def)
  then have "filter (\<lambda>e. from \<le> e_index e \<and> e_index e \<le> commitIndex n) (accepted [] (committed n)) =
      filter (\<lambda>e. from \<le> e_index e) (accepted [] (committed n))" "\<forall>e \<in> set (accepted [] (committed n)).
      getEntry (db n) (e_index e) = Some e" by (auto cong: filter_cong)
  ultimately show ?thesis by (auto simp: history_row_def)
qed

text \<open>
  C32: the committed history. Take a run in which no node has taken a snapshot so far and every leader takes
  the answer to a replication call only while it is in the term of that call, and a replica whose committed
  entries (those of its log from index 0 to its commit index) have at most \<open>dedupeMaxClients\<close> clients and no
  stroke among them with a property \<open>index\<close> of its own. Then \<open>GET /log?from=q\<close> returns, in order, one
  row for each fresh committed stroke (no committed stroke before it has its client and an equal or higher number)
  from the index that \<open>q\<close> stands for on: its log index, its term and the canvas fields it was sent with. Without
  \<open>from\<close> the rows are those of all fresh committed strokes. The commit index and term are those of the
  replica. A stroke with a property \<open>index\<close> is put out under that one (\<open>StateMachine.js\<close>, line 69).
\<close>

theorem committed_history:
  assumes "reachable_if timely C" "quiet C" "u \<in> set (urls C)" "node s = nodes C u"
    and "int (card (clients es)) \<le> dedupeMaxClients (sm (node s))"
    and "\<forall>e \<in> set es. e_type e = STROKE \<longrightarrow> plain_payload e"
    and "es = getRange (db (node s)) 0 (commitIndex (node s))" "parse_int q = Some from"
  shows "get_log (Some q) s = (map history_row (filter (\<lambda>e. from \<le> e_index e) (accepted [] es)),
            commitIndex (node s), currentTerm (node s))
       \<and> get_log None s = (map history_row (accepted [] es), commitIndex (node s), currentTerm (node s))"
proof -
  have es: "es = committed (node s)" using applied_canvas(3)[OF assms(1-3)] assms(4,7) by simp
  note rows = committed_rows[OF assms(1-3), folded assms(4), OF assms(5,6)[unfolded es], folded es]
  have bd: "0 \<le> e_index e \<and> e_index e \<le> commitIndex (node s)" if "e \<in> set (accepted [] es)" for e
    using that accepted_subset[of "[]" es] board_of_committed(3)[OF assms(1-3)] entry_of_own_commit[OF assms(1-3)]
    by (auto simp: es assms(4))
  have none: "filter (\<lambda>e. k \<le> e_index e) (accepted [] es) = []" if "commitIndex (node s) < k" for k
    using that bd by (fastforce simp: filter_empty_conv)
  have "q \<noteq> []" using assms(8) by (auto simp: parse_int_def)
  moreover have "filter (\<lambda>e. 0 \<le> e_index e) (accepted [] es) = accepted [] es" using bd by (simp add: filter_id_conv)
  moreover have "parse_int ''0'' = Some 0" by code_simp
  ultimately show ?thesis using assms(8) rows none[of "from"] none[of 0] by (auto simp: get_log_def Let_def)
qed

theorem committed_history_witness:
  "\<exists>s. node s = nodes cluster8 ''a'' \<and>
     get_log (Some ''1'') s = ([\<lparr>h_index = Some (JInt 1), h_term = Some 1, h_stroke = []\<rparr>], 1, 1)"
proof -
  define s where "s = (new_server ''a'' 4001 None fresh_db 0 0)\<lparr>node := nodes cluster8 ''a''\<rparr>"
  let ?es = "[demo_noop, demo_stroke]"
  have s: "node s = nodes cluster8 ''a''" by (simp add: s_def)
  have "lastApplied (sm (nodes cluster6 ''a'')) = 1" "dedupeMaxClients (sm (nodes cluster6 ''a'')) = 10" by code_simp+
  then have mx: "dedupeMaxClients (sm (node s)) = 10" by (simp add: s demo_longer_frame(2,3) node_frame)
  have u: "''a'' \<in> set (urls cluster8)" by (simp add: demo_longer_frame(1))
  have "committed (nodes cluster8 ''a'') = ?es" using demo_longer_facts(3,4) by (simp add: committed_def)
  then have es: "?es = getRange (db (node s)) 0 (commitIndex (node s))"
    using applied_canvas(3)[OF demo_longer_reachable(4) demo_longer_quiet(2) u] by (simp add: s)
  have "clients ?es \<subseteq> {''c''}"
    by (auto simp: mem_clients ident_def demo_noop_def demo_stroke_def payload_of_def demo_payload_def)
  from card_mono[OF _ this] have c: "int (card (clients ?es)) \<le> dedupeMaxClients (sm (node s))" by (simp add: mx)
  have p: "\<forall>e \<in> set ?es. e_type e = STROKE \<longrightarrow> plain_payload e"
    by (simp add: demo_noop_def demo_stroke_def plain_payload_def payload_of_def demo_payload_def)
  have q: "parse_int ''1'' = Some 1" by code_simp
  have rows: "map history_row (filter (\<lambda>e. 1 \<le> e_index e) (accepted [] ?es)) =
      [\<lparr>h_index = Some (JInt 1), h_term = Some 1, h_stroke = []\<rparr>]" by code_simp
  from committed_history[OF demo_longer_reachable(4) demo_longer_quiet(2) u s c p es q] s
  have "get_log (Some ''1'') s = ([\<lparr>h_index = Some (JInt 1), h_term = Some 1, h_stroke = []\<rparr>], 1, 1)"
    by (simp only: rows demo_longer_facts(2,4))
  with s show ?thesis by blast
qed

end
