(* ===== verification/Canvas.thy ===== *)
theory Canvas imports Raft_Types Js_Text begin

text \<open>
  The drawing client (\<open>frontend/canvas.js\<close>): pointer strokes, the identity \<open>(clientId, seq)\<close>
  kept in the session storage, the queue of strokes that await their echo, the WebSocket with its
  reconnection backoff, and the replay of history.  Drawing on the DOM canvas is recorded in
  \<open>drawn\<close>, what is sent to the gateway in \<open>wire\<close>.  Coordinates are rationals; a color that is
  empty and a size that is 0 stand for a missing property, as \<open>||\<close> treats them.
\<close>

record cstroke =
  c_clientId :: string
  c_seq :: int
  c_x1 :: rat
  c_y1 :: rat
  c_x2 :: rat
  c_y2 :: rat
  c_color :: string
  c_size :: int

record segment =
  g_from :: "rat \<times> rat"
  g_to :: "rat \<times> rat"
  g_color :: string
  g_size :: int

datatype ws_state = WS_CONNECTING | WS_OPEN | WS_CLOSED

datatype ws_status = ST_connected | ST_connecting | ST_reconnecting | ST_disconnected

text \<open>The per-tab session storage.\<close>

record session =
  ss_clientId :: "string option"
  ss_seq :: "string option"

record canvas =
  currentColor :: string
  currentSize :: int
  isDrawing :: bool
  lastPos :: "rat \<times> rat"
  localLogIndex :: int
  isEraser :: bool
  activeSwatch :: "string option"
  customColor :: string
  CLIENT_ID :: string
  storage :: session
  seqCounter :: int
  pendingStrokes :: "cstroke list"
  ws :: "ws_state option"
  status :: ws_status
  reconnectDelay :: rat
  reconnectTimer :: "rat option"
  isReconnecting :: bool
  overlayHidden :: bool
  drawn :: "segment list"
  wire :: "cstroke list"

definition RECONNECT_DELAY_MS :: rat where "RECONNECT_DELAY_MS = 2000"

definition RECONNECT_MAX_MS :: rat where "RECONNECT_MAX_MS = 10000"

text \<open>
  Loading the page: \<open>uuid\<close> is the identifier drawn when the tab has none; \<open>custom\<close> the color
  the picker shows. The page alone writes its session storage, so the text that \<open>parseInt(..., 10)\<close> reads
  is a decimal number; the counter \<open>NaN\<close> that another text would give is left out, and is 0 here.
\<close>

definition load_page :: "string \<Rightarrow> string \<Rightarrow> session \<Rightarrow> canvas" where
  "load_page uuid custom ss =
     (let cid = (case ss_clientId ss of Some i \<Rightarrow> if i \<noteq> [] then i else uuid | None \<Rightarrow> uuid);
          stored = (case ss_seq ss of Some t \<Rightarrow> if t \<noteq> [] then t else ''0'' | None \<Rightarrow> ''0'');
          sq = (case parse_int10 stored of Some k \<Rightarrow> k | None \<Rightarrow> 0)
      in \<lparr>currentColor = ''#1a1a2e'', currentSize = 4, isDrawing = False, lastPos = (0, 0),
          localLogIndex = -1, isEraser = False, activeSwatch = None, customColor = custom,
          CLIENT_ID = cid, storage = ss\<lparr>ss_clientId := Some cid\<rparr>, seqCounter = sq,
          pendingStrokes = [], ws = None, status = ST_disconnected,
          reconnectDelay = RECONNECT_DELAY_MS, reconnectTimer = None, isReconnecting = False,
          overlayHidden = True, drawn = [], wire = []\<rparr>)"

definition nextSeq :: "canvas \<Rightarrow> canvas \<times> int" where
  "nextSeq c =
     (let k = seqCounter c + 1
      in (c\<lparr>seqCounter := k, storage := (storage c)\<lparr>ss_seq := Some (show_int k)\<rparr>\<rparr>, k))"

definition drawSegment :: "rat \<times> rat \<Rightarrow> rat \<times> rat \<Rightarrow> string \<Rightarrow> int \<Rightarrow> canvas \<Rightarrow> canvas" where
  "drawSegment a b col sz c =
     c\<lparr>drawn := drawn c @ [\<lparr>g_from = a, g_to = b, g_color = (if col = [] then ''#1a1a2e'' else col),
                            g_size = (if sz = 0 then 4 else sz)\<rparr>]\<rparr>"

text \<open>\<open>Math.round(x * 100) / 100\<close>.\<close>

definition round2 :: "rat \<Rightarrow> rat" where
  "round2 x = of_int \<lfloor>x * 100 + 1/2\<rfloor> / 100"

definition makeStroke :: "rat \<times> rat \<Rightarrow> rat \<times> rat \<Rightarrow> canvas \<Rightarrow> canvas \<times> cstroke" where
  "makeStroke a b c =
     (let (c1, sq) = nextSeq c
      in (c1, \<lparr>c_clientId = CLIENT_ID c1, c_seq = sq, c_x1 = round2 (fst a), c_y1 = round2 (snd a),
               c_x2 = round2 (fst b), c_y2 = round2 (snd b), c_color = currentColor c1,
               c_size = currentSize c1\<rparr>))"

definition ws_send :: "cstroke \<Rightarrow> canvas \<Rightarrow> canvas" where
  "ws_send s c = c\<lparr>wire := wire c @ [s]\<rparr>"

definition flushPendingStrokes :: "canvas \<Rightarrow> canvas" where
  "flushPendingStrokes c =
     (if ws c \<noteq> Some WS_OPEN then c else fold ws_send (pendingStrokes c) c)"

definition sendStroke :: "rat \<times> rat \<Rightarrow> rat \<times> rat \<Rightarrow> canvas \<Rightarrow> canvas" where
  "sendStroke a b c =
     (let (c1, s) = makeStroke a b c;
          c2 = c1\<lparr>pendingStrokes := pendingStrokes c1 @ [s]\<rparr>
      in if ws c2 \<noteq> Some WS_OPEN then c2 else ws_send s c2)"

subsection \<open>Pointer events\<close>

definition onPointerDown :: "rat \<times> rat \<Rightarrow> canvas \<Rightarrow> canvas" where
  "onPointerDown pos c =
     (let c1 = c\<lparr>isDrawing := True, lastPos := pos\<rparr>;
          b = (fst pos + 1/100, snd pos + 1/100)
      in sendStroke pos b (drawSegment pos b (currentColor c1) (currentSize c1) c1))"

definition onPointerMove :: "rat \<times> rat \<Rightarrow> canvas \<Rightarrow> canvas" where
  "onPointerMove pos c =
     (if \<not> isDrawing c then c
      else (sendStroke (lastPos c) pos
              (drawSegment (lastPos c) pos (currentColor c) (currentSize c) c))\<lparr>lastPos := pos\<rparr>)"

definition onPointerUp :: "canvas \<Rightarrow> canvas" where
  "onPointerUp c = c\<lparr>isDrawing := False\<rparr>"

subsection \<open>The WebSocket\<close>

definition setStatus :: "ws_status \<Rightarrow> canvas \<Rightarrow> canvas" where
  "setStatus st c = c\<lparr>status := st\<rparr>"

definition connectWebSocket :: "canvas \<Rightarrow> canvas" where
  "connectWebSocket c = (setStatus ST_connecting c)\<lparr>ws := Some WS_CONNECTING\<rparr>"

definition on_open :: "canvas \<Rightarrow> canvas" where
  "on_open c =
     flushPendingStrokes ((setStatus ST_connected (c\<lparr>ws := Some WS_OPEN\<rparr>))
       \<lparr>reconnectDelay := RECONNECT_DELAY_MS, isReconnecting := False, overlayHidden := True\<rparr>)"

text \<open>\<open>findIndex\<close> and \<open>splice(i, 1)\<close>: the first matching stroke is removed.\<close>

fun remove_first :: "('a \<Rightarrow> bool) \<Rightarrow> 'a list \<Rightarrow> 'a list option" where
  "remove_first P [] = None"
| "remove_first P (x # xs) = (if P x then Some xs else map_option ((#) x) (remove_first P xs))"

definition on_message :: "cstroke \<Rightarrow> int \<Rightarrow> canvas \<Rightarrow> canvas" where
  "on_message s logIndex c =
     (let c1 = (case remove_first (\<lambda>p. c_clientId p = c_clientId s \<and> c_seq p = c_seq s) (pendingStrokes c) of
                  Some ps \<Rightarrow> c\<lparr>pendingStrokes := ps\<rparr>
                | None \<Rightarrow> drawSegment (c_x1 s, c_y1 s) (c_x2 s, c_y2 s) (c_color s) (c_size s) c)
      in if logIndex > localLogIndex c1 then c1\<lparr>localLogIndex := logIndex\<rparr> else c1)"

definition scheduleReconnect :: "canvas \<Rightarrow> canvas" where
  "scheduleReconnect c =
     (if reconnectTimer c \<noteq> None then c
      else (setStatus ST_reconnecting (c\<lparr>isReconnecting := True\<rparr>))
             \<lparr>reconnectTimer := Some (reconnectDelay c)\<rparr>)"

definition on_close :: "canvas \<Rightarrow> canvas" where
  "on_close c = scheduleReconnect (setStatus ST_disconnected (c\<lparr>ws := Some WS_CLOSED\<rparr>))"

definition on_error :: "canvas \<Rightarrow> canvas" where
  "on_error c = c\<lparr>ws := Some WS_CLOSED\<rparr>"

definition overlay_timer :: "canvas \<Rightarrow> canvas" where
  "overlay_timer c = (if isReconnecting c then c\<lparr>overlayHidden := False\<rparr> else c)"

definition reconnect_timer :: "canvas \<Rightarrow> canvas" where
  "reconnect_timer c =
     (case reconnectTimer c of
        None \<Rightarrow> c
      | Some _ \<Rightarrow>
          (let c1 = connectWebSocket (c\<lparr>reconnectTimer := None\<rparr>)
           in c1\<lparr>reconnectDelay := min (reconnectDelay c1 * (3/2)) RECONNECT_MAX_MS\<rparr>))"

subsection \<open>History, tools\<close>

text \<open>
  \<open>replayHistory\<close>: the answers of the replicas in order, \<open>None\<close> for a failed request, else the
  strokes of its entries (an entry may have none) and its commit index; the first one with entries
  is drawn.
\<close>

fun replayHistory :: "(cstroke option list \<times> int option) option list \<Rightarrow> canvas \<Rightarrow> canvas" where
  "replayHistory [] c = c"
| "replayHistory (None # rs) c = replayHistory rs c"
| "replayHistory (Some (es, ci) # rs) c =
     (if es = [] then replayHistory rs c
      else (fold (\<lambda>s. drawSegment (c_x1 s, c_y1 s) (c_x2 s, c_y2 s) (c_color s) (c_size s))
                 (List.map_filter (\<lambda>e. e) es) c)
             \<lparr>localLogIndex := (case ci of Some i \<Rightarrow> i | None \<Rightarrow> int (length es) - 1)\<rparr>)"

definition toggleEraser :: "canvas \<Rightarrow> canvas" where
  "toggleEraser c =
     (let c1 = c\<lparr>isEraser := \<not> isEraser c\<rparr>
      in if isEraser c1 then c1\<lparr>currentColor := ''#ffffff'', activeSwatch := None\<rparr>
         else c1\<lparr>currentColor := (case activeSwatch c1 of Some col \<Rightarrow> col | None \<Rightarrow> customColor c1)\<rparr>)"

definition chooseSwatch :: "string \<Rightarrow> canvas \<Rightarrow> canvas" where
  "chooseSwatch col c =
     c\<lparr>activeSwatch := Some col, currentColor := col, customColor := col, isEraser := False\<rparr>"

definition chooseCustom :: "string \<Rightarrow> canvas \<Rightarrow> canvas" where
  "chooseCustom col c =
     c\<lparr>customColor := col, currentColor := col, activeSwatch := None, isEraser := False\<rparr>"

definition chooseSize :: "int \<Rightarrow> canvas \<Rightarrow> canvas" where
  "chooseSize k c = c\<lparr>currentSize := k\<rparr>"

definition clearCanvas :: "canvas \<Rightarrow> canvas" where
  "clearCanvas c = c\<lparr>drawn := [], localLogIndex := -1\<rparr>"


subsection \<open>Runs of a page\<close>

datatype canvas_op =
    Down "rat \<times> rat"
  | Move "rat \<times> rat"
  | Up
  | Connect
  | Opened
  | Message cstroke int
  | Closed
  | Failed
  | OverlayTimer
  | ReconnectTimer
  | Replay "(cstroke option list \<times> int option) option list"
  | Eraser
  | Swatch string
  | Custom string
  | Size int
  | Clear

fun canvas_step :: "canvas \<Rightarrow> canvas_op \<Rightarrow> canvas" where
  "canvas_step c (Down p) = onPointerDown p c"
| "canvas_step c (Move p) = onPointerMove p c"
| "canvas_step c Up = onPointerUp c"
| "canvas_step c Connect = connectWebSocket c"
| "canvas_step c Opened = on_open c"
| "canvas_step c (Message s i) = on_message s i c"
| "canvas_step c Closed = on_close c"
| "canvas_step c Failed = on_error c"
| "canvas_step c OverlayTimer = overlay_timer c"
| "canvas_step c ReconnectTimer = reconnect_timer c"
| "canvas_step c (Replay rs) = replayHistory rs c"
| "canvas_step c Eraser = toggleEraser c"
| "canvas_step c (Swatch col) = chooseSwatch col c"
| "canvas_step c (Custom col) = chooseCustom col c"
| "canvas_step c (Size k) = chooseSize k c"
| "canvas_step c Clear = clearCanvas c"

abbreviation canvas_run :: "canvas \<Rightarrow> canvas_op list \<Rightarrow> canvas" where
  "canvas_run \<equiv> foldl canvas_step"

definition key :: "cstroke \<Rightarrow> string \<times> int" where
  "key s = (c_clientId s, c_seq s)"

text \<open>The fields that carry the identity and the queue, and what each operation does to them.\<close>

definition queue_of :: "canvas \<Rightarrow> string \<times> session \<times> int \<times> cstroke list" where
  "queue_of c = (CLIENT_ID c, storage c, seqCounter c, pendingStrokes c)"

lemma flush_eq: "flushPendingStrokes c = c\<lparr>wire := wire c @ (if ws c = Some WS_OPEN then pendingStrokes c else [])\<rparr>"
proof -
  have "fold ws_send xs c = c\<lparr>wire := wire c @ xs\<rparr>" for xs c
    by (induction xs arbitrary: c) (simp_all add: ws_send_def)
  then show ?thesis by (simp add: flushPendingStrokes_def)
qed

lemma fold_draw:
  "fold (\<lambda>s. drawSegment (f s) (g s) (h s) (k s)) es c =
     c\<lparr>drawn := drawn c @ map (\<lambda>s. \<lparr>g_from = f s, g_to = g s,
        g_color = (if h s = [] then ''#1a1a2e'' else h s), g_size = (if k s = 0 then 4 else k s)\<rparr>) es\<rparr>"
  by (induction es arbitrary: c) (simp_all add: drawSegment_def)

lemma replay_frame [simp]:
  "queue_of (replayHistory rs c) = queue_of c" "wire (replayHistory rs c) = wire c"
  "reconnectDelay (replayHistory rs c) = reconnectDelay c" "reconnectTimer (replayHistory rs c) = reconnectTimer c"
  by (induction rs c rule: replayHistory.induct) (simp_all add: fold_draw queue_of_def)

lemma sendStroke_queue:
  "\<exists>s. pendingStrokes (sendStroke a b c) = pendingStrokes c @ [s] \<and> c_clientId s = CLIENT_ID c \<and>
     c_seq s = seqCounter c + 1 \<and> seqCounter (sendStroke a b c) = seqCounter c + 1 \<and>
     CLIENT_ID (sendStroke a b c) = CLIENT_ID c \<and>
     storage (sendStroke a b c) = (storage c)\<lparr>ss_seq := Some (show_int (seqCounter c + 1))\<rparr> \<and>
     wire (sendStroke a b c) = wire c @ (if ws c = Some WS_OPEN then [s] else [])"
  by (simp add: sendStroke_def makeStroke_def nextSeq_def Let_def ws_send_def)

lemma remove_first_split:
  "remove_first P xs = Some ys \<Longrightarrow> \<exists>us x vs. xs = us @ x # vs \<and> P x \<and> ys = us @ vs"
proof (induction xs arbitrary: ys)
  case (Cons x xs)
  show ?case
  proof (cases "P x")
    case True
    with Cons.prems show ?thesis by (intro exI[of _ "[]"] exI[of _ x] exI[of _ xs]) simp
  next
    case False
    with Cons.prems obtain zs where "remove_first P xs = Some zs" "ys = x # zs" by auto
    with Cons.IH obtain us y vs where "xs = us @ y # vs" "P y" "zs = us @ vs" by blast
    with \<open>ys = x # zs\<close> show ?thesis by (intro exI[of _ "x # us"] exI[of _ y] exI[of _ vs]) simp
  qed
qed simp

lemma remove_first_None: "remove_first P xs = None \<longleftrightarrow> (\<forall>x \<in> set xs. \<not> P x)"
  by (induction xs) auto

lemma canvas_frame:
  "queue_of (onPointerUp c) = queue_of c" "wire (onPointerUp c) = wire c"
  "queue_of (connectWebSocket c) = queue_of c" "wire (connectWebSocket c) = wire c"
  "queue_of (on_close c) = queue_of c" "wire (on_close c) = wire c"
  "queue_of (on_error c) = queue_of c" "wire (on_error c) = wire c"
  "queue_of (overlay_timer c) = queue_of c" "wire (overlay_timer c) = wire c"
  "queue_of (reconnect_timer c) = queue_of c" "wire (reconnect_timer c) = wire c"
  "queue_of (toggleEraser c) = queue_of c" "wire (toggleEraser c) = wire c"
  "queue_of (chooseSwatch col c) = queue_of c" "wire (chooseSwatch col c) = wire c"
  "queue_of (chooseCustom col c) = queue_of c" "wire (chooseCustom col c) = wire c"
  "queue_of (chooseSize k c) = queue_of c" "wire (chooseSize k c) = wire c"
  "queue_of (clearCanvas c) = queue_of c" "wire (clearCanvas c) = wire c"
  by (simp_all add: queue_of_def onPointerUp_def connectWebSocket_def setStatus_def on_close_def
      scheduleReconnect_def on_error_def overlay_timer_def reconnect_timer_def toggleEraser_def
      chooseSwatch_def chooseCustom_def chooseSize_def clearCanvas_def Let_def split: option.split)

text \<open>How a step changes the queue: it makes one stroke, drops one that was echoed, or keeps it.\<close>

lemma canvas_step_queue:
  obtains (makes) s where "pendingStrokes (canvas_step c op) = pendingStrokes c @ [s]"
      "c_clientId s = CLIENT_ID c" "c_seq s = seqCounter c + 1" "seqCounter (canvas_step c op) = seqCounter c + 1"
      "CLIENT_ID (canvas_step c op) = CLIENT_ID c"
      "storage (canvas_step c op) = (storage c)\<lparr>ss_seq := Some (show_int (seqCounter c + 1))\<rparr>"
      "set (wire (canvas_step c op)) \<subseteq> set (wire c) \<union> {s}"
  | (echo) us s x i vs where "op = Message x i" "key s = key x" "pendingStrokes c = us @ s # vs"
      "pendingStrokes (canvas_step c op) = us @ vs" "seqCounter (canvas_step c op) = seqCounter c"
      "CLIENT_ID (canvas_step c op) = CLIENT_ID c" "storage (canvas_step c op) = storage c"
      "wire (canvas_step c op) = wire c"
  | (keeps) "queue_of (canvas_step c op) = queue_of c"
      "set (wire (canvas_step c op)) \<subseteq> set (wire c) \<union> set (pendingStrokes c)"
proof (cases op)
  case (Down p)
  let ?c = "drawSegment p (fst p + 1/100, snd p + 1/100) (currentColor c) (currentSize c) (c\<lparr>isDrawing := True, lastPos := p\<rparr>)"
  obtain s where "pendingStrokes (sendStroke p (fst p + 1/100, snd p + 1/100) ?c) = pendingStrokes ?c @ [s]"
    "c_clientId s = CLIENT_ID ?c" "c_seq s = seqCounter ?c + 1"
    "seqCounter (sendStroke p (fst p + 1/100, snd p + 1/100) ?c) = seqCounter ?c + 1"
    "CLIENT_ID (sendStroke p (fst p + 1/100, snd p + 1/100) ?c) = CLIENT_ID ?c"
    "storage (sendStroke p (fst p + 1/100, snd p + 1/100) ?c) = (storage ?c)\<lparr>ss_seq := Some (show_int (seqCounter ?c + 1))\<rparr>"
    "wire (sendStroke p (fst p + 1/100, snd p + 1/100) ?c) = wire ?c @ (if ws ?c = Some WS_OPEN then [s] else [])"
    using sendStroke_queue[of p "(fst p + 1/100, snd p + 1/100)" ?c] by (elim exE conjE)
  then show ?thesis by (intro makes[of s]) (auto simp: Down onPointerDown_def Let_def drawSegment_def)
next
  case (Move p)
  show ?thesis
  proof (cases "isDrawing c")
    case False
    then show ?thesis by (intro keeps) (simp_all add: Move onPointerMove_def)
  next
    case True
    let ?c = "drawSegment (lastPos c) p (currentColor c) (currentSize c) c"
    obtain s where "pendingStrokes (sendStroke (lastPos c) p ?c) = pendingStrokes ?c @ [s]"
      "c_clientId s = CLIENT_ID ?c" "c_seq s = seqCounter ?c + 1"
      "seqCounter (sendStroke (lastPos c) p ?c) = seqCounter ?c + 1"
      "CLIENT_ID (sendStroke (lastPos c) p ?c) = CLIENT_ID ?c"
      "storage (sendStroke (lastPos c) p ?c) = (storage ?c)\<lparr>ss_seq := Some (show_int (seqCounter ?c + 1))\<rparr>"
      "wire (sendStroke (lastPos c) p ?c) = wire ?c @ (if ws ?c = Some WS_OPEN then [s] else [])"
      using sendStroke_queue[of "lastPos c" p ?c] by (elim exE conjE)
    with True show ?thesis by (intro makes[of s]) (auto simp: Move onPointerMove_def drawSegment_def)
  qed
next
  case (Message x i)
  show ?thesis
  proof (cases "remove_first (\<lambda>p. c_clientId p = c_clientId x \<and> c_seq p = c_seq x) (pendingStrokes c)")
    case None
    then show ?thesis
      by (intro keeps) (simp_all add: Message on_message_def Let_def queue_of_def drawSegment_def)
  next
    case (Some ps)
    from remove_first_split[OF this] obtain us s vs where
      "pendingStrokes c = us @ s # vs" "c_clientId s = c_clientId x" "c_seq s = c_seq x" "ps = us @ vs" by blast
    with Some show ?thesis
      by (intro echo[of x i s us vs]) (simp_all add: Message on_message_def Let_def key_def)
  qed
next
  case Opened
  show ?thesis by (intro keeps) (auto simp: Opened on_open_def flush_eq queue_of_def setStatus_def)
qed (intro keeps; simp add: canvas_frame)+


text \<open>
  The queue is in ascending order of the sequence numbers, all of this client and none above the
  counter, which the session storage holds too; nothing was sent that is above the counter.
\<close>

definition session_ok :: "session \<Rightarrow> int \<Rightarrow> bool" where
  "session_ok ss k \<longleftrightarrow> (ss_seq ss = None \<and> k = 0) \<or> ss_seq ss = Some (show_int k)"

definition queue_ok :: "canvas \<Rightarrow> bool" where
  "queue_ok c \<longleftrightarrow> session_ok (storage c) (seqCounter c) \<and> ss_clientId (storage c) = Some (CLIENT_ID c) \<and>
     sorted_wrt (<) (map c_seq (pendingStrokes c)) \<and>
     (\<forall>s \<in> set (pendingStrokes c). c_clientId s = CLIENT_ID c \<and> c_seq s \<le> seqCounter c)"

definition sent_ok :: "int \<Rightarrow> canvas \<Rightarrow> bool" where
  "sent_ok k c \<longleftrightarrow> k \<le> seqCounter c \<and>
     (\<forall>s \<in> set (wire c) \<union> set (pendingStrokes c). c_clientId s = CLIENT_ID c \<and> k < c_seq s \<and> c_seq s \<le> seqCounter c)"

lemma queue_ok_step: "queue_ok c \<Longrightarrow> queue_ok (canvas_step c op)"
proof (cases rule: canvas_step_queue[of c op, case_names makes echo keeps])
  assume q: "queue_ok c"
  {
    case (makes s)
    with q show ?thesis by (fastforce simp: queue_ok_def session_ok_def sorted_wrt_append)
  next
    case (echo us s x i vs)
    with q show ?thesis by (auto simp: queue_ok_def sorted_wrt_append)
  next
    case keeps
    with q show ?thesis by (simp add: queue_ok_def queue_of_def)
  }
qed

lemma sent_ok_step: "sent_ok k c \<Longrightarrow> sent_ok k (canvas_step c op)"
proof (cases rule: canvas_step_queue[of c op, case_names makes echo keeps])
  assume q: "sent_ok k c"
  {
    case (makes s)
    have "t \<in> set (wire c) \<union> set (pendingStrokes c) \<or> t = s"
      if "t \<in> set (wire (canvas_step c op)) \<union> set (pendingStrokes (canvas_step c op))" for t
      using that makes(1,7) by auto
    then have "c_clientId t = CLIENT_ID c \<and> k < c_seq t \<and> c_seq t \<le> seqCounter c + 1"
      if "t \<in> set (wire (canvas_step c op)) \<union> set (pendingStrokes (canvas_step c op))" for t
      using that q makes(2,3) by (force simp: sent_ok_def)
    with q makes(4,5) show ?thesis by (simp add: sent_ok_def)
  next
    case (echo us s x i vs)
    with q show ?thesis by (simp add: sent_ok_def)
  next
    case keeps
    then have "set (wire (canvas_step c op)) \<union> set (pendingStrokes (canvas_step c op)) \<subseteq>
        set (wire c) \<union> set (pendingStrokes c)" by (auto simp: queue_of_def)
    moreover have "CLIENT_ID (canvas_step c op) = CLIENT_ID c" "seqCounter (canvas_step c op) = seqCounter c"
      using keeps(1) by (simp_all add: queue_of_def)
    ultimately show ?thesis using q unfolding sent_ok_def by (metis subsetD)
  }
qed

text \<open>Two strokes with one sequence number are one stroke.\<close>

definition one_stroke :: "canvas \<Rightarrow> bool" where
  "one_stroke c \<longleftrightarrow> (\<forall>s \<in> set (wire c) \<union> set (pendingStrokes c). \<forall>s' \<in> set (wire c) \<union> set (pendingStrokes c).
     c_seq s = c_seq s' \<longrightarrow> s = s')"

lemma one_stroke_step:
  assumes "sent_ok k c" "one_stroke c"
  shows "one_stroke (canvas_step c op)"
proof -
  let ?A = "set (wire c) \<union> set (pendingStrokes c)"
    and ?B = "set (wire (canvas_step c op)) \<union> set (pendingStrokes (canvas_step c op))"
  have sub: "one_stroke (canvas_step c op)" if "?B \<subseteq> ?A"
    using assms(2) that unfolding one_stroke_def by blast
  show ?thesis
  proof (cases rule: canvas_step_queue[of c op, case_names makes echo keeps])
    case (makes s)
    have B: "?B \<subseteq> insert s ?A" using makes(1,7) by auto
    have "c_seq t < c_seq s" if "t \<in> ?A" for t using assms(1) that makes(3) by (force simp: sent_ok_def)
    then have "c_seq t \<noteq> c_seq s" if "t \<in> ?A" for t using that by force
    with B assms(2) show ?thesis unfolding one_stroke_def by (metis insert_iff subsetD)
  next
    case echo
    then show ?thesis by (intro sub) auto
  next
    case keeps
    then show ?thesis by (intro sub) (auto simp: queue_of_def)
  qed
qed

lemma one_stroke_run: "sent_ok k c \<Longrightarrow> one_stroke c \<Longrightarrow> one_stroke (canvas_run c ops)"
proof (induction ops arbitrary: c)
  case (Cons op ops)
  from Cons.IH[OF sent_ok_step[OF Cons.prems(1)] one_stroke_step[OF Cons.prems]] show ?case by simp
qed simp

lemma canvas_run_ok:
  "queue_ok c \<and> sent_ok k c \<Longrightarrow> queue_ok (canvas_run c ops) \<and> sent_ok k (canvas_run c ops)"
  by (induction ops arbitrary: c) (simp_all add: queue_ok_step sent_ok_step)

lemma client_id_run: "CLIENT_ID (canvas_run c ops) = CLIENT_ID c"
proof (induction ops arbitrary: c)
  case (Cons op ops)
  have "CLIENT_ID (canvas_step c op) = CLIENT_ID c"
    by (cases rule: canvas_step_queue[of c op]) (auto simp: queue_of_def)
  with Cons show ?case by simp
qed simp

lemma load_page_ok:
  assumes "session_ok ss k" "ss_clientId ss \<noteq> Some []" "ss_clientId ss = None \<longrightarrow> uuid \<noteq> []"
  shows "seqCounter (load_page uuid custom ss) = k" "queue_ok (load_page uuid custom ss)"
    "sent_ok k (load_page uuid custom ss)"
    "CLIENT_ID (load_page uuid custom ss) = (case ss_clientId ss of Some i \<Rightarrow> i | None \<Rightarrow> uuid)"
proof -
  have "parse_int10 ''0'' = Some 0" by code_simp
  moreover have "show_int k \<noteq> []" by (simp add: show_int_def show_nat_ne)
  ultimately show sq: "seqCounter (load_page uuid custom ss) = k"
    using assms(1) by (auto simp: load_page_def Let_def session_ok_def parse_show_int10)
  show "sent_ok k (load_page uuid custom ss)"
    using sq by (simp add: sent_ok_def) (simp add: load_page_def Let_def)
  show "CLIENT_ID (load_page uuid custom ss) = (case ss_clientId ss of Some i \<Rightarrow> i | None \<Rightarrow> uuid)"
    using assms by (auto simp: load_page_def Let_def split: option.split)
  show "queue_ok (load_page uuid custom ss)"
    using sq assms(1) by (simp add: queue_ok_def) (simp add: load_page_def Let_def session_ok_def)
qed

subsection \<open>Properties\<close>

text \<open>
  C30: an identity is never reused. Take a tab whose session storage is empty or holds what the page wrote
  there, any run of the page, a reload and any run after it. Of all strokes that are queued or were sent
  before or after the reload, no two different ones have the same client id and sequence number; all carry
  the tab's client id, which the reload keeps; those made after it have larger numbers; and the queue never
  holds two strokes with one number. So the servers' deduplication never takes a new stroke for an old one.
\<close>

theorem keys_never_reused:
  fixes ss :: session and uuid custom uuid2 custom2 :: string and ops ops2 :: "canvas_op list"
  assumes "session_ok ss k" "ss_clientId ss \<noteq> Some []" "uuid \<noteq> []"
  defines "before \<equiv> canvas_run (load_page uuid custom ss) ops"
  defines "after \<equiv> canvas_run (load_page uuid2 custom2 (storage before)) ops2"
  defines "old \<equiv> set (wire before) \<union> set (pendingStrokes before)"
  defines "new \<equiv> set (wire after) \<union> set (pendingStrokes after)"
  shows "CLIENT_ID after = CLIENT_ID before
       \<and> (\<forall>s \<in> old \<union> new. c_clientId s = CLIENT_ID before)
       \<and> (\<forall>s \<in> old \<union> new. \<forall>s' \<in> old \<union> new. key s = key s' \<longrightarrow> s = s')
       \<and> (\<forall>s \<in> old. \<forall>s' \<in> new. c_seq s < c_seq s')
       \<and> distinct (map key (pendingStrokes before)) \<and> distinct (map key (pendingStrokes after))"
proof -
  note l = load_page_ok[OF assms(1,2), of uuid custom]
  have fresh: "one_stroke (load_page x y z)" for x y z by (simp add: one_stroke_def load_page_def Let_def)
  have b: "queue_ok before" "sent_ok k before"
    using canvas_run_ok[of "load_page uuid custom ss" k ops] l assms(3) by (simp_all add: before_def)
  have b1: "one_stroke before"
    using assms(3) unfolding before_def by (intro one_stroke_run[OF l(3) fresh]) simp
  have ne: "CLIENT_ID before \<noteq> []"
    using l(4) assms(2,3) by (auto simp: before_def client_id_run split: option.splits)
  from b(1) have st: "session_ok (storage before) (seqCounter before)" "ss_clientId (storage before) = Some (CLIENT_ID before)"
    by (simp_all add: queue_ok_def)
  note l2 = load_page_ok[OF st(1), of uuid2 custom2]
  have a: "queue_ok after" "sent_ok (seqCounter before) after"
    using canvas_run_ok[of "load_page uuid2 custom2 (storage before)" "seqCounter before" ops2] l2 st(2) ne
    by (simp_all add: after_def)
  have a1: "one_stroke after"
    using st(2) ne unfolding after_def by (intro one_stroke_run[OF l2(3) fresh]) simp_all
  have id: "CLIENT_ID after = CLIENT_ID before"
    using l2(4) st(2) ne by (simp add: after_def client_id_run)
  have own: "c_clientId s = CLIENT_ID before" if "s \<in> old \<union> new" for s
    using that a(2) b(2) id by (auto simp: sent_ok_def old_def new_def)
  have lt: "c_seq s < c_seq s'" if "s \<in> old" "s' \<in> new" for s s'
    using that a(2) b(2) unfolding sent_ok_def old_def new_def by (meson le_less_trans)
  have "s = s'" if "s \<in> old \<union> new" "s' \<in> old \<union> new" "key s = key s'" for s s'
  proof -
    have eq: "c_seq s = c_seq s'" using that(3) by (simp add: key_def)
    have "\<not> (s \<in> old \<and> s' \<in> new)" "\<not> (s' \<in> old \<and> s \<in> new)" using lt[of s s'] lt[of s' s] eq by auto
    with that(1,2) have "(s \<in> old \<and> s' \<in> old) \<or> (s \<in> new \<and> s' \<in> new)" by blast
    then show ?thesis using eq b1 a1 unfolding one_stroke_def old_def new_def by blast
  qed
  moreover have "distinct (map key (pendingStrokes c))" if "queue_ok c" for c
    using sorted_wrt_less_distinct[of c_seq "pendingStrokes c"] that
    by (auto simp: queue_ok_def key_def distinct_map inj_on_def)
  ultimately show ?thesis using id own lt a(1) b(1) by blast
qed

theorem keys_never_reused_witness:
  "\<exists>s s'. pendingStrokes (canvas_run (load_page ''u'' ''#000000'' \<lparr>ss_clientId = None, ss_seq = None\<rparr>) [Down (1, 2)]) = [s] \<and>
     pendingStrokes (canvas_run (load_page ''v'' ''#000000'' (storage (canvas_run
       (load_page ''u'' ''#000000'' \<lparr>ss_clientId = None, ss_seq = None\<rparr>) [Down (1, 2)]))) [Down (3, 4)]) = [s'] \<and>
     c_seq s < c_seq s'"
proof -
  let ?ss = "\<lparr>ss_clientId = None, ss_seq = None\<rparr>"
  let ?b = "canvas_run (load_page ''u'' ''#000000'' ?ss) [Down (1, 2)]"
  let ?a = "canvas_run (load_page ''v'' ''#000000'' (storage ?b)) [Down (3, 4)]"
  have ok: "session_ok ?ss 0" by (simp add: session_ok_def)
  obtain s where s: "pendingStrokes ?b = [s]"
    using sendStroke_queue
    by (simp add: onPointerDown_def Let_def load_page_def sendStroke_def makeStroke_def nextSeq_def ws_send_def drawSegment_def)
  obtain s' where s': "pendingStrokes ?a = [s']"
    using sendStroke_queue
    by (simp add: onPointerDown_def Let_def load_page_def sendStroke_def makeStroke_def nextSeq_def ws_send_def drawSegment_def)
  have "c_seq s < c_seq s'"
    using keys_never_reused[OF ok, where uuid = "''u''" and custom = "''#000000''" and ops = "[Down (1, 2)]" and
        ?uuid2.0 = "''v''" and ?custom2.0 = "''#000000''" and ?ops2.0 = "[Down (3, 4)]"] s s'
    by simp
  with s s' show ?thesis by blast
qed


lemma stays_pending:
  assumes "s \<in> set (pendingStrokes c)" "\<forall>x i. Message x i \<in> set ops \<longrightarrow> key x \<noteq> key s"
  shows "s \<in> set (pendingStrokes (canvas_run c ops))"
  using assms
proof (induction ops arbitrary: c)
  case (Cons op ops)
  have "s \<in> set (pendingStrokes (canvas_step c op))"
  proof (cases rule: canvas_step_queue[of c op, case_names makes echo keeps])
    case (echo us s' x i vs)
    have "key x \<noteq> key s" using Cons.prems(2) echo(1) by (meson list.set_intros(1))
    with echo Cons.prems(1) show ?thesis by auto
  qed (use Cons.prems(1) in \<open>auto simp: queue_of_def\<close>)
  moreover have "\<forall>x i. Message x i \<in> set ops \<longrightarrow> key x \<noteq> key s" using Cons.prems(2) by simp
  ultimately show ?case using Cons.IH by simp
qed simp

text \<open>
  No stroke is forgotten. Every stroke drawn is queued with the next sequence number, and it stays
  queued, whatever happens to the connection, until its own echo arrives; whenever the socket opens in
  between it is sent again, and opening sends exactly the queue, in order. An echo takes exactly one
  stroke out of the queue and draws nothing.
\<close>

theorem pending_until_echo:
  assumes "queue_ok c" "s \<in> set (pendingStrokes c)" "\<forall>x i. Message x i \<in> set ops \<longrightarrow> key x \<noteq> key s"
  shows "s \<in> set (pendingStrokes (canvas_run c ops))
       \<and> wire (canvas_step (canvas_run c ops) Opened) =
           wire (canvas_run c ops) @ pendingStrokes (canvas_run c ops)
       \<and> (key x = key s \<longrightarrow>
            pendingStrokes (canvas_step (canvas_run c ops) (Message x i)) =
              filter (\<lambda>p. key p \<noteq> key s) (pendingStrokes (canvas_run c ops))
          \<and> drawn (canvas_step (canvas_run c ops) (Message x i)) = drawn (canvas_run c ops))
       \<and> (\<exists>m. pendingStrokes (sendStroke a b c) = pendingStrokes c @ [m] \<and> c_seq m = seqCounter c + 1)"
proof -
  let ?d = "canvas_run c ops"
  note st = stays_pending[OF assms(2,3)]
  have "wire (canvas_step ?d Opened) = wire ?d @ pendingStrokes ?d"
    by (simp add: on_open_def flush_eq setStatus_def)
  moreover have "pendingStrokes (canvas_step ?d (Message x i)) = filter (\<lambda>p. key p \<noteq> key s) (pendingStrokes ?d)
      \<and> drawn (canvas_step ?d (Message x i)) = drawn ?d" if k: "key x = key s"
  proof -
    have "queue_ok ?d" using assms(1) queue_ok_step by (induction ops arbitrary: c) auto
    then have srt: "sorted_wrt (<) (map c_seq (pendingStrokes ?d))" by (simp add: queue_ok_def)
    let ?P = "\<lambda>p. c_clientId p = c_clientId x \<and> c_seq p = c_seq x"
    have "\<exists>p \<in> set (pendingStrokes ?d). ?P p" using st k by (auto simp: key_def)
    then obtain ps where ps: "remove_first ?P (pendingStrokes ?d) = Some ps"
      using remove_first_None[of ?P "pendingStrokes ?d"] by fastforce
    from remove_first_split[OF ps] obtain us p vs where
      p: "pendingStrokes ?d = us @ p # vs" "?P p" "ps = us @ vs" by blast
    have "key q \<noteq> key s" if "q \<in> set us \<union> set vs" for q
      using that srt p k by (auto simp: key_def sorted_wrt_append)
    then have "ps = filter (\<lambda>p. key p \<noteq> key s) (pendingStrokes ?d)"
      using p k by (auto simp: key_def filter_id_conv)
    with ps show ?thesis by (simp add: on_message_def Let_def)
  qed
  moreover have "\<exists>m. pendingStrokes (sendStroke a b c) = pendingStrokes c @ [m] \<and> c_seq m = seqCounter c + 1"
    using sendStroke_queue[of a b c] by blast
  ultimately show ?thesis using st by blast
qed

definition demo_page :: canvas where
  "demo_page = sendStroke (1, 2) (3, 4) (load_page ''u'' ''#000000'' \<lparr>ss_clientId = None, ss_seq = None\<rparr>)"

theorem pending_until_echo_witness:
  "\<exists>s. pendingStrokes demo_page = [s] \<and>
     pendingStrokes (canvas_run demo_page [Closed, ReconnectTimer, Opened]) = pendingStrokes demo_page \<and>
     s \<in> set (wire (canvas_step (canvas_run demo_page [Closed, ReconnectTimer]) Opened))"
proof -
  have ok: "session_ok \<lparr>ss_clientId = None, ss_seq = None\<rparr> 0" by (simp add: session_ok_def)
  then have "queue_ok (load_page ''u'' ''#000000'' \<lparr>ss_clientId = None, ss_seq = None\<rparr>)"
    by (rule load_page_ok) simp_all
  then have "queue_ok (canvas_step (load_page ''u'' ''#000000'' \<lparr>ss_clientId = None, ss_seq = None\<rparr>) Connect)"
    by (rule queue_ok_step)
  obtain s where s: "pendingStrokes demo_page = [s]"
    by (simp add: demo_page_def Let_def load_page_def sendStroke_def makeStroke_def nextSeq_def ws_send_def)
  have q: "queue_ok demo_page"
  proof -
    have zero: "parse_int10 ''0'' = Some 0" by code_simp
    have "CLIENT_ID demo_page = ''u''" "seqCounter demo_page = 1" "ss_seq (storage demo_page) = Some (show_int 1)"
      "ss_clientId (storage demo_page) = Some ''u''" "c_clientId s = ''u''" "c_seq s = 1"
      using s by (auto simp: demo_page_def Let_def load_page_def sendStroke_def makeStroke_def nextSeq_def ws_send_def
          zero)
    with s show ?thesis by (simp add: queue_ok_def session_ok_def)
  qed
  have p: "pendingStrokes (canvas_run demo_page [Closed, ReconnectTimer]) = pendingStrokes demo_page"
    "pendingStrokes (canvas_run demo_page [Closed, ReconnectTimer, Opened]) = pendingStrokes demo_page"
    by (simp_all add: on_close_def scheduleReconnect_def setStatus_def reconnect_timer_def Let_def
        connectWebSocket_def on_open_def flush_eq split: option.split)
  have "s \<in> set (wire (canvas_step (canvas_run demo_page [Closed, ReconnectTimer]) Opened))"
    using pending_until_echo[OF q, of s "[Closed, ReconnectTimer]"] s p(1) by simp
  with s p(2) show ?thesis by simp
qed

definition delay_ok :: "canvas \<Rightarrow> bool" where
  "delay_ok c \<longleftrightarrow> 2000 \<le> reconnectDelay c \<and> reconnectDelay c \<le> 10000 \<and>
     (case reconnectTimer c of None \<Rightarrow> True | Some d \<Rightarrow> 2000 \<le> d \<and> d \<le> 10000)"

lemma delay_step: "delay_ok c \<Longrightarrow> delay_ok (canvas_step c op)"
proof (cases op)
  case ReconnectTimer
  assume "delay_ok c"
  with ReconnectTimer show ?thesis
    by (auto simp: delay_ok_def reconnect_timer_def connectWebSocket_def setStatus_def Let_def
        RECONNECT_MAX_MS_def min_def split: option.split)
qed (auto simp: delay_ok_def onPointerDown_def onPointerMove_def onPointerUp_def sendStroke_def makeStroke_def
    nextSeq_def ws_send_def drawSegment_def connectWebSocket_def setStatus_def on_open_def flush_eq
    RECONNECT_DELAY_MS_def on_message_def on_close_def scheduleReconnect_def on_error_def overlay_timer_def
    toggleEraser_def chooseSwatch_def chooseCustom_def chooseSize_def clearCanvas_def Let_def split: option.split)

lemma delay_run: "delay_ok c \<Longrightarrow> delay_ok (canvas_run c ops)"
  by (induction ops arbitrary: c) (simp_all add: delay_step)

lemma failed_attempt_delay:
  "reconnectDelay (canvas_run c [Closed, ReconnectTimer]) = min (reconnectDelay c * (3/2)) 10000"
  by (simp add: on_close_def scheduleReconnect_def setStatus_def reconnect_timer_def connectWebSocket_def
      Let_def RECONNECT_MAX_MS_def split: option.split)

lemma failed_attempts_delay:
  assumes "2000 \<le> reconnectDelay c" "reconnectDelay c \<le> 10000"
  shows "reconnectDelay (canvas_run c (concat (replicate k [Closed, ReconnectTimer])))
       = min (reconnectDelay c * (3/2) ^ k) 10000"
  using assms
proof (induction k arbitrary: c)
  case (Suc k)
  let ?c = "canvas_run c [Closed, ReconnectTimer]"
  have d: "reconnectDelay ?c = min (reconnectDelay c * (3/2)) 10000" by (rule failed_attempt_delay)
  have "2000 \<le> reconnectDelay ?c" "reconnectDelay ?c \<le> 10000"
    using Suc.prems unfolding d by simp_all
  note ih = Suc.IH[OF this]
  have one: "(1 :: rat) \<le> (3/2) ^ k" by (rule one_le_power) simp
  have "min (min (reconnectDelay c * (3/2)) 10000 * (3/2) ^ k) 10000 =
      min (reconnectDelay c * (3/2) ^ Suc k) (10000 :: rat)"
  proof (cases "reconnectDelay c * (3/2) \<le> 10000")
    case False
    have lo: "10000 \<le> (10000 :: rat) * (3/2) ^ k"
      using mult_left_mono[OF one, of 10000] by simp
    have "10000 * (3/2) ^ k \<le> reconnectDelay c * (3/2) * (3/2) ^ k"
      using False by (intro mult_right_mono) simp_all
    from order_trans[OF lo this] have "10000 \<le> reconnectDelay c * (3/2) ^ Suc k"
      unfolding power_Suc mult.assoc .
    moreover have "min (reconnectDelay c * (3/2)) 10000 = (10000 :: rat)" using False by simp
    ultimately show ?thesis using lo by (metis min.absorb2)
  qed (simp add: mult.assoc)
  with ih d show ?case by simp
qed simp

text \<open>
  C33: reconnection backs off and stays bounded. In every run of the page the reconnection delay, and any
  delay a pending reconnection was started with, is between two and ten seconds; opening resets it to
  two, after which \<open>k\<close> failed attempts in a row multiply it by 3/2 each, up to ten seconds; and a
  second close while a reconnection is pending starts no other.
\<close>

theorem reconnect_backoff:
  "(2000 \<le> reconnectDelay (canvas_run (load_page uuid custom ss) ops)
     \<and> reconnectDelay (canvas_run (load_page uuid custom ss) ops) \<le> 10000
     \<and> (case reconnectTimer (canvas_run (load_page uuid custom ss) ops) of
          None \<Rightarrow> True | Some d \<Rightarrow> 2000 \<le> d \<and> d \<le> 10000))
 \<and> reconnectDelay (canvas_run (on_open c) (concat (replicate k [Closed, ReconnectTimer])))
     = min (2000 * (3/2) ^ k) 10000
 \<and> reconnectTimer (on_close (on_close c)) = reconnectTimer (on_close c)"
proof (intro conjI)
  have "delay_ok (load_page uuid custom ss)"
    by (simp add: delay_ok_def load_page_def Let_def RECONNECT_DELAY_MS_def)
  then have "delay_ok (canvas_run (load_page uuid custom ss) ops)" by (rule delay_run)
  then show "2000 \<le> reconnectDelay (canvas_run (load_page uuid custom ss) ops)"
    "reconnectDelay (canvas_run (load_page uuid custom ss) ops) \<le> 10000"
    "case reconnectTimer (canvas_run (load_page uuid custom ss) ops) of
          None \<Rightarrow> True | Some d \<Rightarrow> 2000 \<le> d \<and> d \<le> 10000"
    by (simp_all add: delay_ok_def)
  have "reconnectDelay (on_open c) = 2000"
    by (simp add: on_open_def flush_eq RECONNECT_DELAY_MS_def)
  with failed_attempts_delay[of "on_open c" k]
  show "reconnectDelay (canvas_run (on_open c) (concat (replicate k [Closed, ReconnectTimer])))
     = min (2000 * (3/2) ^ k) 10000" by simp
  show "reconnectTimer (on_close (on_close c)) = reconnectTimer (on_close c)"
    by (simp add: on_close_def scheduleReconnect_def setStatus_def)
qed

end
