(* ===== verification/Gateway.thy ===== *)
theory Gateway imports Raft_Types begin

text \<open>
  The gateway (\<open>gateway/gateway.js\<close>): the leader it remembers, the forwarding of a stroke with
  discovery, redirection and three attempts, and the broadcast to the connected clients.

  \<open>forwardStrokeToLeader\<close> and \<open>discoverLeader\<close> are split at their \<open>await\<close>s: a
  \<open>forward\<close> is where the loop stands, and \<open>forward_step\<close> takes what the awaited request has
  come back with.  The remembered leader is shared by all requests and by \<open>/leader\<close>, so other
  steps may change it in between.  A stroke is passed on as it is; \<open>'s\<close> is its type.
\<close>

definition REPLICA_URLS :: "string list" where
  "REPLICA_URLS = [''http://replica1:4001'', ''http://replica2:4002'', ''http://replica3:4003'']"

record gateway_client =
  cl_id :: nat
  cl_open :: bool

record 's gateway =
  currentLeaderUrl :: "string option"
  currentLeaderId :: "string option"
  ws_clients :: "gateway_client list"
  ws_sent :: "(nat \<times> 's \<times> int) list"

definition new_gateway :: "'s gateway" where
  "new_gateway = \<lparr>currentLeaderUrl = None, currentLeaderId = None, ws_clients = [], ws_sent = []\<rparr>"

definition truthy :: "string option \<Rightarrow> bool" where
  "truthy s = (case s of None \<Rightarrow> False | Some t \<Rightarrow> t \<noteq> [])"

subsection \<open>Clients\<close>

definition ws_connect :: "nat \<Rightarrow> 's gateway \<Rightarrow> 's gateway" where
  "ws_connect i g = g\<lparr>ws_clients := ws_clients g @ [\<lparr>cl_id = i, cl_open = True\<rparr>]\<rparr>"

definition ws_close :: "nat \<Rightarrow> 's gateway \<Rightarrow> 's gateway" where
  "ws_close i g = g\<lparr>ws_clients := filter (\<lambda>c. cl_id c \<noteq> i) (ws_clients g)\<rparr>"

text \<open>A message of a client: \<open>parsed.stroke ?? parsed\<close>; \<open>None\<close> is a text that does not parse.\<close>

definition ws_message :: "('s \<times> 's option) option \<Rightarrow> 's option" where
  "ws_message parsed =
     (case parsed of
        None \<Rightarrow> None
      | Some (whole, stroke) \<Rightarrow> Some (case stroke of Some s \<Rightarrow> s | None \<Rightarrow> whole))"

subsection \<open>Forwarding a stroke\<close>

text \<open>
  The outcome of \<open>POST /stroke\<close> at a replica: its answer; a refusal with the leader's id and URL in it,
  if any; or no response. The last two are exceptions of the HTTP client, with the code it gives them.
\<close>

datatype 'r stroke_reply =
    Accepted 'r
  | Redirect "string option" "string option" "string option"
  | NoResponse "string option"

text \<open>The code of an exception: that of the client's request, or the one set when no leader is found.\<close>

datatype gateway_error =
    NO_LEADER
  | FORWARD_ERROR "string option"

fun reply_code :: "'r stroke_reply \<Rightarrow> string option" where
  "reply_code (Accepted x) = None"
| "reply_code (Redirect rid url code) = code"
| "reply_code (NoResponse code) = code"

text \<open>
  Where a forward stands: polling the statuses of the listed replicas, waiting for a replica's answer
  to the stroke, or finished; with the number of its attempt.
\<close>

datatype 'r forward =
    Polling nat "string list"
  | Posting nat string
  | Finished "gateway_error + 'r"

datatype 'r answer =
    StatusAnswer "(string \<times> string) option"
  | StrokeAnswer "'r stroke_reply"

text \<open>The head of an attempt, up to its first \<open>await\<close>.\<close>

definition attempt_start :: "nat \<Rightarrow> 's gateway \<Rightarrow> 'r forward" where
  "attempt_start k g =
     (case currentLeaderUrl g of
        Some u \<Rightarrow> if u \<noteq> [] then Posting k u else Polling k REPLICA_URLS
      | None \<Rightarrow> Polling k REPLICA_URLS)"

text \<open>After a discovery, and at the end of the loop's body.\<close>

definition attempt_next :: "nat \<Rightarrow> gateway_error \<Rightarrow> 's gateway \<Rightarrow> 'r forward" where
  "attempt_next k err g = (if k = 2 then Finished (Inl err) else attempt_start (Suc k) g)"

definition discovery_done :: "nat \<Rightarrow> 's gateway \<Rightarrow> 'r forward" where
  "discovery_done k g =
     (if truthy (currentLeaderUrl g)
      then Posting k (case currentLeaderUrl g of Some u \<Rightarrow> u | None \<Rightarrow> [])
      else attempt_next k NO_LEADER g)"

text \<open>
  \<open>StatusAnswer (Some (state, id))\<close> is the answer of the replica at the head of the list,
  \<open>None\<close> a request that failed.
\<close>

definition discover_answer :: "string \<Rightarrow> (string \<times> string) option \<Rightarrow> 's gateway \<Rightarrow> 's gateway \<times> bool" where
  "discover_answer url st g =
     (case st of
        Some (state, rid) \<Rightarrow>
          if state = ''leader''
          then (g\<lparr>currentLeaderUrl := Some url, currentLeaderId := Some rid\<rparr>, True) else (g, False)
      | None \<Rightarrow> (g, False))"

definition stroke_failed :: "'r stroke_reply \<Rightarrow> 's gateway \<Rightarrow> 's gateway" where
  "stroke_failed r g =
     (case r of
        Redirect rid url code \<Rightarrow>
          if truthy url then g\<lparr>currentLeaderUrl := url, currentLeaderId := rid\<rparr>
          else g\<lparr>currentLeaderUrl := None\<rparr>
      | _ \<Rightarrow> g\<lparr>currentLeaderUrl := None\<rparr>)"

fun forward_step :: "'r answer \<Rightarrow> 's gateway \<times> 'r forward \<Rightarrow> 's gateway \<times> 'r forward" where
  "forward_step (StatusAnswer st) (g, Polling k (u # us)) =
     (let (g', found) = discover_answer u st g
      in if found \<or> us = [] then (g', discovery_done k g') else (g', Polling k us))"
| "forward_step (StrokeAnswer r) (g, Posting k u) =
     (case r of
        Accepted x \<Rightarrow> (g, Finished (Inr x))
      | _ \<Rightarrow> (let g' = stroke_failed r g in (g', attempt_next k (FORWARD_ERROR (reply_code r)) g')))"
| "forward_step a (g, f) = (g, f)"

definition forward_begin :: "'s gateway \<Rightarrow> 's gateway \<times> 'r forward" where
  "forward_begin g = (g, attempt_start 0 g)"

subsection \<open>Routes\<close>

datatype 'r gateway_response =
    GwOk 'r
  | GwBad string
  | GwUnavailable string

text \<open>\<open>err.code || "FORWARD_FAILED"\<close>\<close>

fun error_code :: "gateway_error \<Rightarrow> string" where
  "error_code NO_LEADER = ''NO_LEADER''"
| "error_code (FORWARD_ERROR code) = (case code of Some c \<Rightarrow> if c \<noteq> [] then c else ''FORWARD_FAILED'' | None \<Rightarrow> ''FORWARD_FAILED'')"

definition stroke_route_begin :: "'s option \<Rightarrow> 's gateway \<Rightarrow> 'r gateway_response + ('s gateway \<times> 'r forward)" where
  "stroke_route_begin stroke g =
     (case stroke of None \<Rightarrow> Inl (GwBad ''stroke required'') | Some _ \<Rightarrow> Inr (forward_begin g))"

definition stroke_route_end :: "'r forward \<Rightarrow> 'r gateway_response option" where
  "stroke_route_end f =
     (case f of
        Finished (Inr x) \<Rightarrow> Some (GwOk x)
      | Finished (Inl e) \<Rightarrow> Some (GwUnavailable (error_code e))
      | _ \<Rightarrow> None)"

definition post_leader :: "string option \<Rightarrow> string option \<Rightarrow> 's gateway \<Rightarrow> 's gateway \<times> bool" where
  "post_leader rid url g =
     (if \<not> truthy rid \<or> \<not> truthy url then (g, False)
      else (g\<lparr>currentLeaderId := rid, currentLeaderUrl := url\<rparr>, True))"

definition post_broadcast :: "'s option \<Rightarrow> int \<Rightarrow> 's gateway \<Rightarrow> 's gateway \<times> nat option" where
  "post_broadcast stroke logIndex g =
     (case stroke of
        None \<Rightarrow> (g, None)
      | Some s \<Rightarrow>
          (let open_cl = filter cl_open (ws_clients g)
           in (g\<lparr>ws_clients := open_cl,
                 ws_sent := ws_sent g @ map (\<lambda>c. (cl_id c, s, logIndex)) open_cl\<rparr>,
               Some (length open_cl))))"

record gateway_status =
  gs_connectedClients :: nat
  gs_currentLeaderId :: "string option"
  gs_currentLeaderUrl :: "string option"

definition gateway_get_status :: "'s gateway \<Rightarrow> gateway_status" where
  "gateway_get_status g = \<lparr>gs_connectedClients = length (ws_clients g),
     gs_currentLeaderId = currentLeaderId g, gs_currentLeaderUrl = currentLeaderUrl g\<rparr>"

subsection \<open>Facts\<close>

text \<open>How many more answers a forward can take.\<close>

fun forward_budget :: "'r forward \<Rightarrow> nat" where
  "forward_budget (Polling k us) = 4 * (2 - k) + length us + 1"
| "forward_budget (Posting k u) = 4 * (2 - k) + 1"
| "forward_budget (Finished r) = 0"

fun forward_ok :: "'r forward \<Rightarrow> bool" where
  "forward_ok (Polling k us) = (k \<le> 2 \<and> us \<noteq> [] \<and> length us \<le> 3)"
| "forward_ok (Posting k u) = (k \<le> 2 \<and> u \<noteq> [])"
| "forward_ok (Finished r) = True"

fun awaits :: "'r forward \<Rightarrow> 'r answer \<Rightarrow> bool" where
  "awaits (Polling k us) (StatusAnswer st) = True"
| "awaits (Posting k u) (StrokeAnswer r) = True"
| "awaits f a = False"

lemma attempt_start_ok: "k \<le> 2 \<Longrightarrow> forward_ok (attempt_start k g)"
  by (auto simp: attempt_start_def REPLICA_URLS_def split: option.split)

lemma attempt_start_budget:
  "forward_budget (attempt_start k g) \<le> 4 * (2 - k) + 4"
  by (auto simp: attempt_start_def REPLICA_URLS_def split: option.split)

lemma attempt_next_ok: "k \<le> 2 \<Longrightarrow> forward_ok (attempt_next k e g)"
  by (auto simp: attempt_next_def intro: attempt_start_ok)

lemma attempt_next_budget:
  assumes "k \<le> 2"
  shows "forward_budget (attempt_next k e g) \<le> 4 * (2 - k)"
proof (cases "k = 2")
  case True
  then show ?thesis by (simp add: attempt_next_def)
next
  case False
  with assms have "4 * (2 - Suc k) + 4 = 4 * (2 - k)" by arith
  with attempt_start_budget[of "Suc k" g] False show ?thesis
    by (simp add: attempt_next_def)
qed

lemma discovery_done_ok: "k \<le> 2 \<Longrightarrow> forward_ok (discovery_done k g)"
  by (auto simp: discovery_done_def attempt_next_ok truthy_def split: option.splits)

lemma discovery_done_budget:
  "k \<le> 2 \<Longrightarrow> forward_budget (discovery_done k g) \<le> 4 * (2 - k) + 1"
  by (cases "truthy (currentLeaderUrl g)")
    (simp_all add: discovery_done_def le_SucI[OF attempt_next_budget])

lemma forward_step_ok:
  "forward_ok f \<Longrightarrow> forward_ok (snd (forward_step a (g, f)))"
  by (cases "(a, (g, f))" rule: forward_step.cases)
    (auto simp: Let_def case_prod_beta discovery_done_ok attempt_next_ok split: stroke_reply.split)

lemma forward_step_budget:
  fixes f :: "'r forward"
  assumes "forward_ok f" "awaits f a"
  shows "forward_budget (snd (forward_step a (g, f))) < forward_budget f"
proof (cases f)
  case (Polling k us)
  then obtain u us' st where us: "us = u # us'" "a = StatusAnswer st"
    using assms by (cases us; cases a) auto
  from us Polling assms(1)
  have "forward_budget (discovery_done k (fst (discover_answer u st g)) :: 'r forward) <
      forward_budget (Polling k us :: 'r forward)"
    using le_less_trans[OF discovery_done_budget[of k "fst (discover_answer u st g)"],
        of "4 * (2 - k) + length us + 1"] by simp
  with us Polling show ?thesis by (cases us') (simp_all add: Let_def case_prod_beta)
next
  case (Posting k u)
  then obtain r where "a = StrokeAnswer r" using assms by (cases a) auto
  then show ?thesis
    using Posting assms(1) attempt_next_budget[of k "FORWARD_ERROR (reply_code r)" "stroke_failed r g"]
    by (auto simp: Let_def less_Suc_eq_le split: stroke_reply.split)
qed (use assms in \<open>simp\<close>)


text \<open>
  A run of one forward: the answers it awaits, in order, each with the gateway's state at that moment,
  which other requests may have changed.
\<close>

fun forward_run :: "'r forward \<Rightarrow> ('s gateway \<times> 'r answer) list \<Rightarrow> 'r forward" where
  "forward_run f [] = f"
| "forward_run f ((g, a) # as) = forward_run (snd (forward_step a (g, f))) as"

fun run_awaits :: "'r forward \<Rightarrow> ('s gateway \<times> 'r answer) list \<Rightarrow> bool" where
  "run_awaits f [] = True"
| "run_awaits f ((g, a) # as) = (awaits f a \<and> run_awaits (snd (forward_step a (g, f))) as)"

lemma forward_run_budget:
  "forward_ok f \<Longrightarrow> run_awaits f as \<Longrightarrow> length as + forward_budget (forward_run f as) \<le> forward_budget f"
proof (induction f as rule: forward_run.induct)
  case (2 f g a as)
  then have "length as + forward_budget (forward_run (snd (forward_step a (g, f))) as) \<le>
      forward_budget (snd (forward_step a (g, f)))"
    by (simp add: forward_step_ok)
  with forward_step_budget[of f a g] 2 show ?case by simp
qed simp

lemma forward_run_ok: "forward_ok f \<Longrightarrow> forward_ok (forward_run f as)"
  by (induction f as rule: forward_run.induct) (simp_all add: forward_step_ok)

lemma budget_zero: "forward_ok f \<Longrightarrow> forward_budget f = 0 \<longleftrightarrow> (\<exists>r. f = Finished r)"
  by (cases f) auto

subsection \<open>Properties\<close>

lemma unfinished_awaits: "forward_ok f \<Longrightarrow> (\<nexists>r. f = Finished r) \<Longrightarrow> \<exists>a. awaits f a"
  by (cases f) (auto intro: exI[of _ "StatusAnswer st" for st] exI[of _ "StrokeAnswer r" for r])

text \<open>
  C29: forwarding ends. Whatever the replicas answer and whatever other requests do to the remembered
  leader in the meantime, a forwarded stroke awaits at most twelve answers: three attempts, each with at
  most three status polls and one post. A forward that has no result yet has awaited fewer and awaits another
  answer, so it never gets stuck; one that has a result answers the route. It is assumed that every request
  of the gateway ends, with an answer or an error, as its time limit makes it.
\<close>

theorem forward_terminates:
  fixes as :: "('s gateway \<times> 'r answer) list"
  assumes "run_awaits (snd (forward_begin g)) as"
  defines "f \<equiv> forward_run (snd (forward_begin g)) as"
  shows "length as \<le> 12
       \<and> ((\<exists>r. f = Finished r) \<or> length as < 12 \<and> (\<exists>a. awaits f a))
       \<and> ((\<exists>r. f = Finished r) \<longleftrightarrow> stroke_route_end f \<noteq> None)"
proof -
  let ?f = "snd (forward_begin g) :: 'r forward"
  have ok: "forward_ok ?f" "forward_budget ?f \<le> 12"
    using attempt_start_ok[of 0 g] attempt_start_budget[of 0 g] by (simp_all add: forward_begin_def)
  note b = forward_run_budget[OF ok(1) assms(1), folded f_def] and r = forward_run_ok[OF ok(1), of as, folded f_def]
  have "length as < 12 \<and> (\<exists>a. awaits f a)" if "\<nexists>r. f = Finished r"
    using b ok(2) unfinished_awaits[OF r that] budget_zero[OF r] that by force
  moreover have "(\<exists>r. f = Finished r) \<longleftrightarrow> stroke_route_end f \<noteq> None"
    by (cases f) (auto simp: stroke_route_end_def split: sum.split)
  ultimately show ?thesis using b ok(2) by auto
qed

text \<open>The longest forward: in each attempt the last replica polled says it leads, and the post to it fails.\<close>

definition demo_answers :: "(int gateway \<times> int answer) list" where
  "demo_answers = concat (replicate 3 (map (\<lambda>a. (new_gateway, a))
     [StatusAnswer None, StatusAnswer None, StatusAnswer (Some (''leader'', ''replica3'')),
      StrokeAnswer (NoResponse (Some ''ECONNABORTED''))]))"

theorem forward_terminates_witness:
  "run_awaits (snd (forward_begin (new_gateway :: int gateway))) demo_answers \<and> length demo_answers = 12 \<and>
   (\<exists>r. forward_run (snd (forward_begin (new_gateway :: int gateway))) demo_answers = Finished r)"
proof -
  have r: "run_awaits (snd (forward_begin (new_gateway :: int gateway))) demo_answers" by code_simp
  have l: "length demo_answers = 12" by code_simp
  from forward_terminates[OF r] l have "\<exists>r. forward_run (snd (forward_begin (new_gateway :: int gateway))) demo_answers = Finished r"
    by auto
  with r l show ?thesis by blast
qed

text \<open>
  Redirection. A replica that refuses a stroke and names the leader's URL is followed: the gateway
  remembers that leader and, while attempts are left, posts the same stroke there next; any other failure
  makes it forget the leader and poll. An accepted stroke ends the forward with the replica's answer and
  keeps the remembered leader.
\<close>

theorem forward_follows_redirect:
  "(truthy url \<and> k < 2 \<longrightarrow>
      forward_step (StrokeAnswer (Redirect rid url code)) (g, Posting k u) =
        (g\<lparr>currentLeaderUrl := url, currentLeaderId := rid\<rparr>, Posting (Suc k) (the url)))
 \<and> (\<not> truthy url \<and> k < 2 \<longrightarrow>
      forward_step (StrokeAnswer (Redirect rid url code)) (g, Posting k u) =
        (g\<lparr>currentLeaderUrl := None\<rparr>, Polling (Suc k) REPLICA_URLS))
 \<and> forward_step (StrokeAnswer (Accepted x)) (g, Posting k u) = (g, Finished (Inr x))"
  by (auto simp: Let_def stroke_failed_def attempt_next_def attempt_start_def truthy_def split: option.splits)

theorem forward_follows_redirect_witness:
  "snd (forward_step (StrokeAnswer (Redirect (Some ''replica2'') (Some ''http://replica2:4002'') (Some ''ERR_BAD_REQUEST'')))
      (new_gateway, Posting 0 ''http://replica1:4001'')) = Posting 1 ''http://replica2:4002''"
proof -
  have "truthy (Some ''http://replica2:4002'') \<and> (0 :: nat) < 2" by (simp add: truthy_def)
  with forward_follows_redirect show ?thesis by (metis One_nat_def option.sel snd_conv)
qed

text \<open>
  Broadcast. A committed stroke is sent once to every client whose socket is open, in the order
  they connected, and to no other; the others are forgotten, and the leader is told how many were reached.
\<close>

theorem broadcast_reaches_open:
  "(\<exists>g'. post_broadcast (Some s) i g = (g', Some (length (filter cl_open (ws_clients g))))
      \<and> ws_sent g' = ws_sent g @ map (\<lambda>c. (cl_id c, s, i)) (filter cl_open (ws_clients g))
      \<and> ws_clients g' = filter cl_open (ws_clients g)
      \<and> currentLeaderUrl g' = currentLeaderUrl g)
 \<and> post_broadcast None i g = (g, None)"
  by (simp add: post_broadcast_def Let_def)

end
