(* ===== verification/Stroke_Path.thy ===== *)
theory Stroke_Path imports Commit_Safety Replica_Server Canvas Gateway begin

text \<open>
  A stroke's way from a tab to the board: the page (\<open>Canvas\<close>), the gateway with the strokes it is
  forwarding (\<open>Gateway\<close>) and the replicas (\<open>Cluster\<close>), as one step relation.

  A message of the tab, once sent, may be handled by the gateway at any time, more than once or never,
  and a request of the gateway, once made, may reach its replica at any time, more than once or never;
  the answers a forward gets, what others tell the gateway and the messages the page receives are
  arbitrary.  Other clients submit what they like under identifiers of their own.  \<open>earlier\<close> are the
  messages sent before the last reload of the tab.
\<close>

subsection \<open>The stroke as a payload\<close>

definition js_number :: "rat \<Rightarrow> jval" where
  "js_number x = (if of_int \<lfloor>x\<rfloor> = x then JInt \<lfloor>x\<rfloor> else JFlt x)"

text \<open>What \<open>apply\<close> sees of a stroke of \<open>makeStroke\<close> after its way as JSON.\<close>

definition stroke_payload :: "cstroke \<Rightarrow> payload" where
  "stroke_payload s =
     \<lparr>p_clientId = Some (c_clientId s), p_seq = Some (c_seq s),
      p_fields = [(''x1'', js_number (c_x1 s)), (''y1'', js_number (c_y1 s)),
        (''x2'', js_number (c_x2 s)), (''y2'', js_number (c_y2 s)),
        (''color'', JStr (c_color s)), (''size'', JInt (c_size s))]\<rparr>"

subsection \<open>The step relation\<close>

record path =
  tab :: canvas
  earlier :: "cstroke list"
  gate :: "cstroke gateway"
  forwards :: "(cstroke \<times> int forward) list"
  posted :: "(string \<times> cstroke) set"
  store :: cluster

definition messages :: "path \<Rightarrow> cstroke list" where
  "messages S = earlier S @ wire (tab S)"

text \<open>The request a forward of \<open>s\<close> waits for.\<close>

definition requested :: "cstroke \<Rightarrow> int forward \<Rightarrow> (string \<times> cstroke) set" where
  "requested s f = (case f of Posting k u \<Rightarrow> {(u, s)} | _ \<Rightarrow> {})"

definition forward_new :: "cstroke \<Rightarrow> path \<Rightarrow> path" where
  "forward_new s S =
     (let (g, f) = forward_begin (gate S)
      in S\<lparr>gate := g, forwards := forwards S @ [(s, f)], posted := posted S \<union> requested s f\<rparr>)"

definition forward_answer :: "nat \<Rightarrow> int answer \<Rightarrow> path \<Rightarrow> path" where
  "forward_answer i a S =
     (let s = fst (forwards S ! i); (g, f) = forward_step a (gate S, snd (forwards S ! i))
      in S\<lparr>gate := g, forwards := (forwards S)[i := (s, f)], posted := posted S \<union> requested s f\<rparr>)"

definition from_tab :: "string \<Rightarrow> entry \<Rightarrow> bool" where
  "from_tab c e \<longleftrightarrow> e_type e = STROKE \<and> p_clientId (payload_of e) = Some c"

text \<open>A step of the replicas in which no entry is made for a submission under the identifier \<open>c\<close>.\<close>

definition step_of_others :: "string \<Rightarrow> cluster \<Rightarrow> cluster \<Rightarrow> bool" where
  "step_of_others c C C' \<longleftrightarrow> step_if timely C C' \<and> (\<forall>e \<in> created C' - created C. \<not> from_tab c e)"

inductive path_step :: "path \<Rightarrow> path \<Rightarrow> bool" where
  page_event: "path_step S (S\<lparr>tab := canvas_step (tab S) op\<rparr>)"
| reload: "path_step S (S\<lparr>tab := load_page uuid custom (storage (tab S)), earlier := messages S\<rparr>)"
| message: "s \<in> set (messages S) \<Longrightarrow> path_step S (forward_new s S)"
| answered: "i < length (forwards S) \<Longrightarrow> path_step S (forward_answer i a S)"
| leader_known: "path_step S (S\<lparr>gate := fst (post_leader rid url (gate S))\<rparr>)"
| broadcast: "path_step S (S\<lparr>gate := fst (post_broadcast p i (gate S))\<rparr>)"
| connected: "path_step S (S\<lparr>gate := ws_connect i (gate S)\<rparr>)"
| disconnected: "path_step S (S\<lparr>gate := ws_close i (gate S)\<rparr>)"
| submitted: "(u, s) \<in> posted S \<Longrightarrow> u \<in> set (urls (store S)) \<Longrightarrow>
    path_step S (S\<lparr>store := put_node u (fst (submit_begin STROKE (Some (stroke_payload s)) (nodes (store S) u))) (store S)\<rparr>)"
| replicas: "step_of_others (CLIENT_ID (tab S)) (store S) C \<Longrightarrow> path_step S (S\<lparr>store := C\<rparr>)"

definition path_start :: "path \<Rightarrow> bool" where
  "path_start S \<longleftrightarrow>
     (\<exists>uuid custom ss k. uuid \<noteq> [] \<and> ss_clientId ss \<noteq> Some [] \<and> session_ok ss k \<and>
        tab S = load_page uuid custom ss) \<and>
     earlier S = [] \<and> gate S = new_gateway \<and> forwards S = [] \<and> posted S = {} \<and> initial (store S)"

inductive path_reachable :: "path \<Rightarrow> bool" where
  path_init: "path_start S \<Longrightarrow> path_reachable S"
| path_next: "path_reachable S \<Longrightarrow> path_step S S' \<Longrightarrow> path_reachable S'"

subsection \<open>Where an entry of the tab comes from\<close>

definition made :: "path \<Rightarrow> cstroke set" where
  "made S = set (messages S) \<union> set (pendingStrokes (tab S))"

definition tab_ok :: "path \<Rightarrow> bool" where
  "tab_ok S \<longleftrightarrow> queue_ok (tab S) \<and> CLIENT_ID (tab S) \<noteq> [] \<and>
     (\<forall>s \<in> made S. c_clientId s = CLIENT_ID (tab S) \<and> c_seq s \<le> seqCounter (tab S)) \<and>
     inj_on c_seq (made S)"

definition origin_ok :: "path \<Rightarrow> bool" where
  "origin_ok S \<longleftrightarrow> fst ` set (forwards S) \<subseteq> set (messages S) \<and> snd ` posted S \<subseteq> set (messages S) \<and>
     (\<forall>e \<in> created (store S). from_tab (CLIENT_ID (tab S)) e \<longrightarrow>
        (\<exists>s \<in> set (messages S). e_payload e = Some (stroke_payload s)))"

lemma tab_same:
  "tab S' = tab S \<Longrightarrow> earlier S' = earlier S \<Longrightarrow> tab_ok S' = tab_ok S \<and> messages S' = messages S"
  by (simp add: tab_ok_def made_def messages_def)

lemma tab_event:
  assumes "tab_ok S"
  shows "tab_ok (S\<lparr>tab := canvas_step (tab S) op\<rparr>)"
proof -
  let ?S = "S\<lparr>tab := canvas_step (tab S) op\<rparr>"
  have q: "queue_ok (canvas_step (tab S) op)" using assms queue_ok_step by (simp add: tab_ok_def)
  have old: "c_clientId s = CLIENT_ID (tab S)" "c_seq s \<le> seqCounter (tab S)" if "s \<in> made S" for s
    using assms that by (simp_all add: tab_ok_def)
  have inj: "inj_on c_seq (made S)" and ne: "CLIENT_ID (tab S) \<noteq> []" using assms by (simp_all add: tab_ok_def)
  show ?thesis
  proof (cases rule: canvas_step_queue[of "tab S" op, case_names makes echo keeps])
    case (makes s)
    have sub: "made ?S \<subseteq> insert s (made S)" using makes(1,7) by (auto simp: made_def messages_def)
    have "inj_on c_seq (insert s (made S))" using inj old(2) makes(3) by force
    then have "inj_on c_seq (made ?S)" using sub by (rule inj_on_subset)
    moreover have "c_clientId t = CLIENT_ID (tab S) \<and> c_seq t \<le> seqCounter (tab S) + 1" if "t \<in> made ?S" for t
      using that sub old[of t] makes(2,3) by fastforce
    ultimately show ?thesis using q ne makes(4,5) by (simp add: tab_ok_def)
  next
    case (echo us s x i vs)
    have sub: "made ?S \<subseteq> made S" using echo(3,4,8) by (auto simp: made_def messages_def)
    have "inj_on c_seq (made ?S)" by (rule inj_on_subset[OF inj sub])
    moreover have "c_clientId t = CLIENT_ID (tab S) \<and> c_seq t \<le> seqCounter (tab S)" if "t \<in> made ?S" for t
      using that sub old[of t] by blast
    ultimately show ?thesis using q ne echo(5,6) by (simp add: tab_ok_def)
  next
    case keeps
    have sub: "made ?S \<subseteq> made S" using keeps by (auto simp: made_def messages_def queue_of_def)
    have "inj_on c_seq (made ?S)" by (rule inj_on_subset[OF inj sub])
    moreover have "c_clientId t = CLIENT_ID (tab S) \<and> c_seq t \<le> seqCounter (tab S)" if "t \<in> made ?S" for t
      using that sub old[of t] by blast
    ultimately show ?thesis using q ne keeps(1) by (simp add: tab_ok_def queue_of_def)
  qed
qed

lemma load_page_empty:
  "wire (load_page uuid custom ss) = []" "pendingStrokes (load_page uuid custom ss) = []"
  by (simp_all add: load_page_def Let_def)

lemma tab_reload:
  assumes "tab_ok S"
  shows "tab_ok (S\<lparr>tab := load_page uuid custom (storage (tab S)), earlier := messages S\<rparr>)"
    and "CLIENT_ID (load_page uuid custom (storage (tab S))) = CLIENT_ID (tab S)"
proof -
  have st: "session_ok (storage (tab S)) (seqCounter (tab S))" "ss_clientId (storage (tab S)) = Some (CLIENT_ID (tab S))"
    and ne: "CLIENT_ID (tab S) \<noteq> []"
    using assms by (simp_all add: tab_ok_def queue_ok_def)
  note l = load_page_ok[OF st(1), of uuid custom]
  show cid: "CLIENT_ID (load_page uuid custom (storage (tab S))) = CLIENT_ID (tab S)" using l(4) st(2) ne by simp
  have sub: "made (S\<lparr>tab := load_page uuid custom (storage (tab S)), earlier := messages S\<rparr>) \<subseteq> made S"
    by (auto simp: made_def messages_def load_page_empty)
  have "inj_on c_seq (made S)" using assms by (simp add: tab_ok_def)
  from inj_on_subset[OF this sub] l(1,2) st(2) ne cid assms sub show
    "tab_ok (S\<lparr>tab := load_page uuid custom (storage (tab S)), earlier := messages S\<rparr>)"
    unfolding tab_ok_def by (auto dest: subsetD)
qed

lemma wire_grows: "\<exists>vs. wire (canvas_step c op) = wire c @ vs"
proof (cases op)
  case (Down p)
  then show ?thesis by (simp add: onPointerDown_def Let_def sendStroke_def makeStroke_def nextSeq_def ws_send_def drawSegment_def)
next
  case (Move p)
  then show ?thesis by (simp add: onPointerMove_def Let_def sendStroke_def makeStroke_def nextSeq_def ws_send_def drawSegment_def)
next
  case (Message s i)
  then show ?thesis by (simp add: on_message_def Let_def drawSegment_def split: option.split)
next
  case Opened
  then show ?thesis by (simp add: on_open_def flush_eq setStatus_def)
qed (simp_all add: canvas_frame)

lemma path_step_tab:
  assumes "tab_ok S" "path_step S S'"
  shows "set (messages S) \<subseteq> set (messages S')" "CLIENT_ID (tab S') = CLIENT_ID (tab S)" "tab_ok S'"
proof -
  have "set (messages S) \<subseteq> set (messages S') \<and> CLIENT_ID (tab S') = CLIENT_ID (tab S) \<and> tab_ok S'"
    using assms(2)
  proof cases
    case (page_event op)
    obtain vs where "wire (canvas_step (tab S) op) = wire (tab S) @ vs" using wire_grows by blast
    with page_event tab_event[OF assms(1), of op] client_id_run[of "tab S" "[op]"] show ?thesis
      by (auto simp: messages_def)
  next
    case (reload uuid custom)
    with tab_reload[OF assms(1), of uuid custom] show ?thesis by (auto simp: messages_def)
  next
    case (message s)
    with assms(1) tab_same[of S' S] show ?thesis by (simp add: forward_new_def case_prod_beta Let_def)
  next
    case (answered i a)
    with assms(1) tab_same[of S' S] show ?thesis by (simp add: forward_answer_def case_prod_beta Let_def)
  qed (use assms(1) tab_same[of S' S] in simp_all)
  then show "set (messages S) \<subseteq> set (messages S')" "CLIENT_ID (tab S') = CLIENT_ID (tab S)" "tab_ok S'" by blast+
qed

lemma submit_created:
  assumes "cluster_inv C" "u \<in> set (urls C)"
    and "e \<in> created (put_node u (fst (submit_begin STROKE p (nodes C u))) C)" "e \<notin> created C"
  shows "e_payload e = p"
proof -
  have logs: "set (log_entries (db (nodes C u))) \<subseteq> created C" "db_ok (db (nodes C u))"
    using assms(1,2) by (auto simp: cluster_inv_def entry_inv_def vote_inv_def dest: soundD)
  let ?n = "fst (submit_begin STROKE p (nodes C u))" and ?e = "snd (appendLocal STROKE p (nodes C u))"
  have "?n = nodes C u \<or> ?n = sendAppendEntriesToAll (fst (appendLocal STROKE p (nodes C u)))"
    by (auto simp: submit_begin_def Let_def case_prod_beta split: option.splits)
  moreover have "log_entries (db (sendAppendEntriesToAll (fst (appendLocal STROKE p (nodes C u))))) =
      log_entries (db (nodes C u)) @ [?e]"
    using append_one(1)[OF logs(2), of ?e] by (simp add: node_frame)
  ultimately have "set (log_entries (db ?n)) \<subseteq> insert ?e (created C)" using logs(1) by auto
  then have "e = ?e" using assms(3,4) by (auto simp: own_entries_def split: if_splits)
  then show ?thesis by (simp add: node_frame)
qed

lemma path_store:
  assumes "path_reachable S"
  shows "reachable_if timely (store S)"
  using assms
proof induction
  case (path_init S)
  then show ?case by (auto simp: path_start_def intro: reach_init)
next
  case (path_next S S')
  from path_next(2) show ?case
  proof cases
    case (submitted u s)
    have "step_if timely (store S) (store S')"
      unfolding submitted(1) using client_submit[OF submitted(3)] by simp
    with path_next.IH show ?thesis by (rule reach_step)
  next
    case (replicas C)
    then have "step_if timely (store S) (store S')" by (simp add: step_of_others_def)
    with path_next.IH show ?thesis by (rule reach_step)
  qed (use path_next.IH in \<open>simp_all add: forward_new_def forward_answer_def case_prod_beta Let_def\<close>)
qed

lemma origin_mono:
  assumes "origin_ok S" "set (messages S) \<subseteq> set (messages S')" "CLIENT_ID (tab S') = CLIENT_ID (tab S)"
    and "forwards S' = forwards S" "posted S' = posted S" "store S' = store S"
  shows "origin_ok S'"
  using assms unfolding origin_ok_def by simp (meson order_trans subsetD)

lemma path_origin:
  assumes "path_reachable S"
  shows "tab_ok S \<and> origin_ok S"
  using assms
proof induction
  case (path_init S)
  then obtain uuid custom ss k where s: "uuid \<noteq> []" "ss_clientId ss \<noteq> Some []" "session_ok ss k" "tab S = load_page uuid custom ss"
    and e: "earlier S = []" "forwards S = []" "posted S = {}" "created (store S) = {}"
    by (auto simp: path_start_def initial_def)
  have w: "made S = {}" by (simp add: made_def messages_def e s(4) load_page_empty)
  have "CLIENT_ID (tab S) \<noteq> []" using s by (auto simp: load_page_ok(4) split: option.split)
  with load_page_ok(2)[OF s(3,2), of uuid custom] s(1,4) show ?case
    by (simp add: tab_ok_def origin_ok_def e w)
next
  case (path_next S S')
  have T: "tab_ok S" and O: "origin_ok S" using path_next.IH by simp_all
  note st = path_step_tab[OF T path_next.hyps(2)]
  have "origin_ok S'" using path_next.hyps(2)
  proof cases
    case (message s)
    with O st(1,2) show ?thesis
      by (auto simp: origin_ok_def forward_new_def case_prod_beta Let_def requested_def messages_def split: forward.splits)
  next
    case (answered i a)
    have "fst (forwards S ! i) \<in> set (messages S)" using O answered(2) by (force simp: origin_ok_def)
    with O answered show ?thesis
      by (auto simp: origin_ok_def forward_answer_def case_prod_beta Let_def requested_def messages_def
          dest!: set_update_subset_insert[THEN subsetD] split: forward.splits)
  next
    case (submitted u s)
    have I: "cluster_inv (store S)" by (rule reachable_inv[OF timely_reachable[OF path_store[OF path_next.hyps(1)]]])
    have s: "s \<in> set (messages S)" using O submitted(2) by (force simp: origin_ok_def)
    have "\<exists>s \<in> set (messages S). e_payload e = Some (stroke_payload s)"
      if "e \<in> created (store S')" "from_tab (CLIENT_ID (tab S)) e" for e
    proof (cases "e \<in> created (store S)")
      case True
      with O that(2) show ?thesis by (simp add: origin_ok_def)
    next
      case False
      with submit_created[OF I submitted(3), of e "Some (stroke_payload s)"] that(1) s show ?thesis
        unfolding submitted(1) by auto
    qed
    with O show ?thesis unfolding origin_ok_def submitted(1) by (simp add: messages_def)
  next
    case (replicas C)
    with O show ?thesis by (auto simp: origin_ok_def step_of_others_def messages_def)
  qed (rule origin_mono[OF O st(1,2)]; simp)+
  with st(3) show ?case by simp
qed

subsection \<open>The strokes a log accepts, client by client\<close>

lemma accepted_sorted:
  "sorted_wrt (\<lambda>x y. \<forall>c q q'. ident x = Some (c, q) \<and> ident y = Some (c, q') \<longrightarrow> q < q') (accepted prior es)"
proof (induction prior es rule: accepted.induct)
  case (2 prior a es)
  have "q < q'" if "y \<in> set (accepted (prior @ [a]) es)" "ident a = Some (c, q)" "ident y = Some (c, q')" for y c q q'
    using accepted_fresh[OF that(1)] that(2,3) by (simp add: fresh_def)
  with 2 show ?case by simp
qed simp

lemma accepted_covers:
  "e \<in> set es \<Longrightarrow> ident e = Some (c, q) \<Longrightarrow> \<exists>x \<in> set (accepted [] es). \<exists>q'. ident x = Some (c, q') \<and> q \<le> q'"
proof (induction es arbitrary: e q rule: rev_induct)
  case (snoc a es)
  show ?case
  proof (cases "e \<in> set es")
    case True
    from snoc.IH[OF this snoc.prems(2)] show ?thesis by (auto simp: accepted_snoc)
  next
    case False
    with snoc.prems(1) have e: "e = a" by simp
    show ?thesis
    proof (cases "fresh es a")
      case True
      with e snoc.prems(2) show ?thesis by (auto simp: accepted_snoc)
    next
      case False
      have "e_type a = STROKE" using snoc.prems(2) e by (auto simp: ident_def split: if_splits)
      with False snoc.prems(2) e obtain e' q' where e': "e' \<in> set es" "ident e' = Some (c, q')" "q \<le> q'"
        by (fastforce simp: fresh_def list_all_iff split: option.splits)
      from snoc.IH[OF e'(1,2)] e'(3) show ?thesis by (auto simp: accepted_snoc intro: order_trans)
    qed
  qed
qed simp

lemma stroke_payload_id [simp]:
  "p_clientId (stroke_payload s) = Some (c_clientId s)" "p_seq (stroke_payload s) = Some (c_seq s)"
  "request_id (Some (stroke_payload s)) = Some (key s)"
  by (simp_all add: stroke_payload_def request_id_def key_def)

lemma stroke_ident:
  "e_type e = STROKE \<Longrightarrow> e_payload e = Some (stroke_payload s) \<Longrightarrow> ident e = Some (key s)"
  by (simp add: ident_def payload_of_def key_def)

lemma accepted_append: "accepted prior (es @ fs) = accepted prior es @ accepted (prior @ es) fs"
  by (induction prior es rule: accepted.induct) simp_all

lemma accepted_later:
  assumes "e \<in> set prior" "ident e = Some (c, q)" "x \<in> set (accepted prior es)" "ident x = Some (c, q')"
  shows "q < q'"
  using accepted_fresh[OF assms(3)] assms(1,2,4) by (auto simp: fresh_def list_all_iff)

subsection \<open>A run for the witnesses\<close>

text \<open>
  A tab draws two strokes. The gateway knows no leader when the first arrives and polls; before the
  second arrives the new leader has told its address, so the second is posted first. It is committed.
\<close>

definition demo_first :: cstroke where
  "demo_first = \<lparr>c_clientId = ''u'', c_seq = 1, c_x1 = 1, c_y1 = 2, c_x2 = 101/100, c_y2 = 201/100,
     c_color = ''#1a1a2e'', c_size = 4\<rparr>"

definition demo_second :: cstroke where
  "demo_second = \<lparr>c_clientId = ''u'', c_seq = 2, c_x1 = 1, c_y1 = 2, c_x2 = 5, c_y2 = 2,
     c_color = ''#1a1a2e'', c_size = 4\<rparr>"

definition demo_body :: payload where
  "demo_body = \<lparr>p_clientId = Some ''u'', p_seq = Some 2,
     p_fields = [(''x1'', JInt 1), (''y1'', JInt 2), (''x2'', JInt 5), (''y2'', JInt 2),
       (''color'', JStr ''#1a1a2e''), (''size'', JInt 4)]\<rparr>"

definition demo_session :: session where
  "demo_session = \<lparr>ss_clientId = None, ss_seq = None\<rparr>"

definition demo_tab :: canvas where
  "demo_tab = canvas_run (load_page ''u'' ''#000000'' demo_session) [Connect, Opened, Down (1, 2), Move (5, 2)]"

lemma demo_body_second: "stroke_payload demo_second = demo_body"
  by (simp add: stroke_payload_def demo_second_def demo_body_def js_number_def)

lemma demo_tab_facts:
  "wire demo_tab = [demo_first, demo_second]" "pendingStrokes demo_tab = [demo_first, demo_second]"
  "CLIENT_ID demo_tab = ''u''"
proof -
  have r: "round2 1 = 1" "round2 2 = 2" "round2 5 = 5" "round2 (101/100) = 101/100" "round2 (201/100) = 201/100"
    by (simp_all add: round2_def floor_eq_iff)
  have "parse_int10 ''0'' = Some 0" by code_simp
  then show "wire demo_tab = [demo_first, demo_second]" "pendingStrokes demo_tab = [demo_first, demo_second]"
    "CLIENT_ID demo_tab = ''u''"
    by (simp_all add: demo_tab_def demo_session_def load_page_def Let_def connectWebSocket_def setStatus_def on_open_def flush_eq
        onPointerDown_def onPointerMove_def drawSegment_def sendStroke_def makeStroke_def nextSeq_def ws_send_def r
        demo_first_def demo_second_def)
qed

definition drawn_entry :: entry where
  "drawn_entry = \<lparr>e_index = 1, e_term = 1, e_type = STROKE, e_payload = Some demo_body\<rparr>"

definition demo_batch :: append_entries where
  "demo_batch = \<lparr>ae_term = 1, ae_leaderId = ''a'', ae_prevLogIndex = -1, ae_prevLogTerm = -1,
     ae_entries = [demo_noop, drawn_entry], ae_leaderCommit = -1\<rparr>"

definition board4 :: cluster where
  "board4 = put_node ''a'' (fst (submit_begin STROKE (Some demo_body) (nodes cluster3 ''a''))) cluster3"

definition board5 :: cluster where
  "board5 = (put_node ''b'' (fst (handleAppendEntries demo_batch (nodes board4 ''b''))) board4)
     \<lparr>append_answers := insert (''b'', ''a'', demo_batch, snd (handleAppendEntries demo_batch (nodes board4 ''b'')))
        (append_answers board4)\<rparr>"

definition board6 :: cluster where
  "board6 = put_node ''a'' (appendReply ''b'' demo_batch demo_ack (nodes board5 ''a'')) board5"

lemma demo_board_steps:
  "step_if timely board4 board5" "step_if timely board5 board6"
proof -
  have u: "urls board4 = [''a'', ''b'', ''c'']" by (simp add: board4_def demo_cluster_facts)
  have c: "(''a'', ''b'', AppendCall demo_batch) \<in> calls board4" by code_simp
  show "step_if timely board4 board5"
    unfolding board5_def by (rule deliver_append[OF c]) (simp_all add: u)
  have "(''a'', ''b'', AppendCall demo_batch) \<in> calls board5" using c by (simp add: board5_def)
  moreover have "(''b'', ''a'', demo_batch, demo_ack) \<in> append_answers board5" by code_simp
  moreover have "timely demo_batch (nodes board5 ''a'')" by code_simp
  ultimately show "step_if timely board5 board6"
    unfolding board6_def by (intro append_answer) (simp_all add: board5_def u)
qed

lemma demo_board_facts:
  "urls board6 = [''a'', ''b'', ''c'']" "role (nodes board6 ''a'') = LEADER"
  "log_entries (db (nodes board6 ''a'')) = [demo_noop, drawn_entry]" "commitIndex (nodes board6 ''a'') = 1"
  "dedupeMaxClients (sm (nodes board6 ''a'')) = 10"
  "quiet board6"
proof -
  show u: "urls board6 = [''a'', ''b'', ''c'']"
    by (simp add: board6_def board5_def board4_def demo_cluster_facts)
  show "role (nodes board6 ''a'') = LEADER" by code_simp
  show "log_entries (db (nodes board6 ''a'')) = [demo_noop, drawn_entry]" by code_simp
  show "commitIndex (nodes board6 ''a'') = 1" by code_simp
  show "dedupeMaxClients (sm (nodes board6 ''a'')) = 10" by code_simp
  have "snapshots (db (nodes board6 ''a'')) = []" by code_simp
  moreover have "snapshots (db (nodes board6 ''b'')) = []" by code_simp
  moreover have "snapshots (db (nodes board6 ''c'')) = []" by code_simp
  ultimately show "quiet board6" by (simp add: quiet_def u)
qed

definition demo_path :: path where
  "demo_path = \<lparr>tab = demo_tab, earlier = [],
     gate = fst (post_leader (Some ''a'') (Some ''a'') new_gateway),
     forwards = [(demo_first, Polling 0 REPLICA_URLS), (demo_second, Posting 0 ''a'')],
     posted = {(''a'', demo_second)}, store = board6\<rparr>"

lemma no_new_strokes:
  assumes "step_if timely C C'" "\<forall>e \<in> created C'. e_payload e \<noteq> None \<longrightarrow> e \<in> created C"
  shows "step_of_others c C C'"
  using assms by (auto simp: step_of_others_def from_tab_def payload_of_def empty_payload_def split: option.splits)

lemma demo_created:
  "created cluster1 = {}" "created cluster2 = {}" "created cluster3 = {demo_noop}"
  "created board4 = {demo_noop, drawn_entry}" "created board5 = {demo_noop, drawn_entry}"
  "created board6 = {demo_noop, drawn_entry}"
proof -
  show "created cluster1 = {}" by code_simp
  show "created cluster2 = {}" by code_simp
  show "created cluster3 = {demo_noop}" by code_simp
  show "created board4 = {demo_noop, drawn_entry}" by code_simp
  show b5: "created board5 = {demo_noop, drawn_entry}" by code_simp
  show "created board6 = {demo_noop, drawn_entry}" by code_simp
qed

lemma path_events: "path_reachable S \<Longrightarrow> path_reachable (S\<lparr>tab := canvas_run (tab S) ops\<rparr>)"
proof (induction ops arbitrary: S)
  case (Cons op ops)
  have "path_reachable (S\<lparr>tab := canvas_step (tab S) op\<rparr>)" by (rule path_next[OF Cons.prems page_event])
  from Cons.IH[OF this] show ?case by simp
qed simp

lemma demo_path_reachable: "path_reachable demo_path"
proof -
  let ?S = "\<lambda>C. \<lparr>tab = demo_tab, earlier = [], gate = new_gateway, forwards = [], posted = {}, store = C\<rparr>"
  let ?l = "load_page ''u'' ''#000000'' demo_session"
  have "path_start \<lparr>tab = ?l, earlier = [], gate = new_gateway, forwards = [], posted = {}, store = cluster0\<rparr>"
    unfolding path_start_def
    by (intro conjI exI[of _ "''u''"] exI[of _ "''#000000''"] exI[of _ demo_session] exI[of _ 0])
      (simp_all add: demo_session_def session_ok_def demo_initial)
  from path_events[OF path_init[OF this], of "[Connect, Opened, Down (1, 2), Move (5, 2)]"]
  have r0: "path_reachable (?S cluster0)" by (simp add: demo_tab_def)
  have on: "path_reachable (S\<lparr>store := C\<rparr>)"
    if "path_reachable S" "step_if timely (store S) C" "\<forall>e \<in> created C. e_payload e \<noteq> None \<longrightarrow> e \<in> created (store S)" for S C
    by (rule path_next[OF that(1) replicas[OF no_new_strokes[OF that(2,3)]]])
  have st: "step_if timely cluster0 cluster1" "step_if timely cluster1 cluster2" "step_if timely cluster2 cluster3"
    by (rule demo_reachable(6) demo_reachable(7) demo_reachable(8))+
  have r3: "path_reachable (?S cluster3)"
    using on[OF on[OF on[OF r0, of cluster1], of cluster2], of cluster3] st
    by (simp add: demo_created demo_noop_def)
  have m: "set (messages (?S cluster3)) = {demo_first, demo_second}" by (simp add: messages_def demo_tab_facts(1))
  let ?g = "fst (post_leader (Some ''a'') (Some ''a'') new_gateway)"
  let ?P = "\<lparr>tab = demo_tab, earlier = [], gate = ?g, forwards = [(demo_first, Polling 0 REPLICA_URLS)], posted = {}, store = cluster3\<rparr>"
  have f1: "forward_new demo_first (?S cluster3) = (?S cluster3)\<lparr>forwards := [(demo_first, Polling 0 REPLICA_URLS)]\<rparr>"
    by (simp add: forward_new_def forward_begin_def attempt_start_def new_gateway_def requested_def)
  have "path_reachable (forward_new demo_first (?S cluster3))"
    by (rule path_next[OF r3 message]) (simp add: m)
  from path_next[OF this leader_known[of _ "Some ''a''" "Some ''a''"]]
  have "path_reachable ?P" unfolding f1 by simp
  from path_next[OF this message[of demo_second]]
  have "path_reachable (forward_new demo_second ?P)" by (simp add: messages_def demo_tab_facts(1))
  moreover have "forward_new demo_second ?P = demo_path\<lparr>store := cluster3\<rparr>"
    by (simp add: forward_new_def forward_begin_def attempt_start_def post_leader_def truthy_def new_gateway_def
        requested_def demo_path_def)
  ultimately have r4: "path_reachable (demo_path\<lparr>store := cluster3\<rparr>)" by simp
  have "path_reachable (demo_path\<lparr>store := board4\<rparr>)"
    using path_next[OF r4 submitted[of "''a''" demo_second]]
    by (simp add: demo_path_def demo_cluster_facts demo_body_second board4_def)
  from on[OF on[OF this, of board5], of board6] demo_board_steps show ?thesis
    by (simp add: demo_created demo_path_def)
qed

subsection \<open>Properties\<close>

text \<open>
  C8: a board shows a tab's strokes in drawing order, each at most once. Take a run of a page, the gateway and
  the replicas in which no replica has taken a snapshot so far and every leader takes the answer to a replication
  call only while it is in the term of that call, and a replica whose committed entries have at most
  \<open>dedupeMaxClients\<close> clients. Whatever happens on the way (reconnections, reloads, redirections, repeated and
  reordered messages, elections and crashes), the strokes of the tab on the board of the replica are strokes the
  tab has sent, with their coordinates, color and size, in ascending order of their sequence numbers; and a
  stroke of the tab that the replica has committed is missing only where a later one of the tab is on the board.
\<close>

theorem board_shows_tab_in_order:
  assumes "path_reachable S" "quiet (store S)" "u \<in> set (urls (store S))"
    and "int (card (clients (committed (nodes (store S) u)))) \<le> dedupeMaxClients (sm (nodes (store S) u))"
  shows "\<exists>shown mine.
     strokes (sm (nodes (store S) u)) = map stroke_of shown
   \<and> set shown \<subseteq> set (committed (nodes (store S) u))
   \<and> map e_payload (filter (from_tab (CLIENT_ID (tab S))) shown) = map (\<lambda>s. Some (stroke_payload s)) mine
   \<and> set mine \<subseteq> set (messages S)
   \<and> sorted_wrt (<) (map c_seq mine)
   \<and> (\<forall>e \<in> set (committed (nodes (store S) u)). \<forall>s \<in> set (messages S).
        e_type e = STROKE \<and> e_payload e = Some (stroke_payload s) \<longrightarrow>
        s \<in> set mine \<or> (\<exists>s' \<in> set mine. c_seq s < c_seq s'))"
proof -
  let ?n = "nodes (store S) u" and ?c = "CLIENT_ID (tab S)"
  define shown where "shown = accepted [] (committed ?n)"
  define F where "F = filter (from_tab ?c) shown"
  note b = board_of_committed[OF path_store[OF assms(1)] assms(2,3)]
  have board: "strokes (sm ?n) = map stroke_of shown"
    using apply_log_dedupe[OF b(2,3) assms(4)] unfolding b(1)[symmetric] shown_def by blast
  have T: "tab_ok S" and O: "origin_ok S" using path_origin[OF assms(1)] by simp_all
  have own: "c_clientId s = ?c" if "s \<in> set (messages S)" for s
    using T that by (simp add: tab_ok_def made_def)
  have sub: "set shown \<subseteq> set (committed ?n)" using accepted_subset by (simp add: shown_def)
  have "\<exists>s. s \<in> set (messages S) \<and> e_payload e = Some (stroke_payload s)" if "e \<in> set F" for e
    using that sub b(4) O unfolding F_def origin_ok_def by (simp add: Bex_def) blast
  then obtain f where f: "\<And>e. e \<in> set F \<Longrightarrow> f e \<in> set (messages S) \<and> e_payload e = Some (stroke_payload (f e))"
    by metis
  have id: "ident e = Some (?c, c_seq (f e))" if "e \<in> set F" for e
    using f[OF that] own that by (simp add: F_def from_tab_def stroke_ident key_def)
  have "sorted_wrt (\<lambda>x y. c_seq (f x) < c_seq (f y)) F"
  proof (rule sorted_wrt_mono_rel)
    show "sorted_wrt (\<lambda>x y. \<forall>c q q'. ident x = Some (c, q) \<and> ident y = Some (c, q') \<longrightarrow> q < q') F"
      unfolding F_def shown_def by (rule sorted_wrt_filter[OF accepted_sorted])
  qed (use id in simp)
  then have srt: "sorted_wrt (<) (map c_seq (map f F))" by (simp add: sorted_wrt_map)
  have "s \<in> set (map f F) \<or> (\<exists>s' \<in> set (map f F). c_seq s < c_seq s')"
    if e: "e \<in> set (committed ?n)" "s \<in> set (messages S)" "e_type e = STROKE" "e_payload e = Some (stroke_payload s)" for e s
  proof -
    have "ident e = Some (?c, c_seq s)" using e own by (simp add: stroke_ident key_def)
    from accepted_covers[OF e(1) this] obtain x q where
      x: "x \<in> set shown" "ident x = Some (?c, q)" "c_seq s \<le> q" by (auto simp: shown_def)
    from x(1,2) have xF: "x \<in> set F"
      by (auto simp: F_def from_tab_def ident_def split: if_splits option.splits)
    with id[OF xF] x(2) have q: "q = c_seq (f x)" by simp
    have "s = f x" if "c_seq s = c_seq (f x)"
      using T that e(2) f[OF xF] by (auto simp: tab_ok_def made_def dest: inj_onD)
    moreover have "f x \<in> set (map f F)" using xF by simp
    moreover have "c_seq s \<le> c_seq (f x)" using x(3) q by simp
    ultimately show ?thesis by (metis order_le_less)
  qed
  with board sub f srt show ?thesis
    by (intro exI[of _ shown] exI[of _ "map f F"]) (auto simp: F_def)
qed

theorem board_shows_tab_in_order_witness:
  "\<exists>mine. set mine \<subseteq> {demo_first, demo_second} \<and> demo_second \<in> set mine \<and> sorted_wrt (<) (map c_seq mine)"
proof -
  let ?n = "nodes (store demo_path) ''a''"
  have st: "store demo_path = board6" by (simp add: demo_path_def)
  have com: "committed ?n = [demo_noop, drawn_entry]" by (simp add: st committed_def demo_board_facts)
  have m: "set (messages demo_path) = {demo_first, demo_second}"
    by (simp add: messages_def demo_path_def demo_tab_facts)
  have "clients [demo_noop, drawn_entry] \<subseteq> {''u''}"
    by (auto simp: mem_clients ident_def demo_noop_def drawn_entry_def payload_of_def demo_body_def)
  from card_mono[OF _ this] have "int (card (clients (committed ?n))) \<le> dedupeMaxClients (sm ?n)"
    by (simp add: com) (simp add: st demo_board_facts)
  from board_shows_tab_in_order[OF demo_path_reachable _ _ this]
  obtain mine where mine: "set mine \<subseteq> {demo_first, demo_second}" "sorted_wrt (<) (map c_seq mine)"
    "\<forall>e \<in> set (committed ?n). \<forall>s \<in> set (messages demo_path).
        e_type e = STROKE \<and> e_payload e = Some (stroke_payload s) \<longrightarrow>
        s \<in> set mine \<or> (\<exists>s' \<in> set mine. c_seq s < c_seq s')"
    using demo_board_facts(1,6) m unfolding st by auto
  have "demo_second \<in> set mine \<or> (\<exists>s' \<in> set mine. c_seq demo_second < c_seq s')"
    using mine(3) by (simp add: com m drawn_entry_def demo_body_second)
  moreover have "\<not> c_seq demo_second < c_seq s'" if "s' \<in> set mine" for s'
    using that mine(1) by (auto simp: demo_first_def demo_second_def)
  ultimately show ?thesis using mine(1,2) by blast
qed

text \<open>
  C28: a stroke that is overtaken is lost. When the leader has applied a later stroke of the tab, the
  stroke is answered as committed with an index that is not its own, nothing is appended, the gateway
  takes the answer for its success, no entry with its identity is ever accepted, and the page keeps the
  stroke in its queue, as no echo of it comes.
\<close>

theorem overtaken_stroke_lost:
  assumes "role (node sv) = LEADER" "sm (node sv) = apply_log pre (new_state_machine mx)"
    and "e \<in> set pre" "ident e = Some (c_clientId s, q)" "c_seq s < q"
    and "sorted_wrt (<) (map e_index (pre @ suf))" "\<forall>e \<in> set (pre @ suf). 0 \<le> e_index e"
    and "int (card (clients (pre @ suf))) \<le> mx"
    and "s \<in> set (pendingStrokes c)" "\<forall>x i. Message x i \<in> set ops \<longrightarrow> key x \<noteq> key s"
  shows "\<exists>i e'. post_stroke (Some (stroke_payload s)) sv = (sv, Inl (StrokeOk i True))
       \<and> e' \<in> set pre \<and> e_index e' = i \<and> (\<exists>q'. ident e' = Some (c_clientId s, q') \<and> c_seq s < q')
       \<and> forward_step (StrokeAnswer (Accepted i)) (g, Posting k v) = (g, Finished (Inr i))
       \<and> strokes (apply_log (pre @ suf) (new_state_machine mx)) =
           strokes (sm (node sv)) @ map stroke_of (accepted pre suf)
       \<and> (\<forall>x \<in> set (accepted pre suf). ident x \<noteq> Some (key s))
       \<and> s \<in> set (pendingStrokes (canvas_run c ops))"
proof -
  let ?m = "apply_log pre (new_state_machine mx)" and ?c = "c_clientId s"
  have "card (clients pre) \<le> card (clients (pre @ suf))" by (simp add: card_mono)
  with assms(6-8) have p: "sorted_wrt (<) (map e_index pre)" "\<forall>e \<in> set pre. 0 \<le> e_index e" "int (card (clients pre)) \<le> mx"
    by (simp_all add: sorted_wrt_append)
  note d = apply_log_dedupe[OF p] and d' = apply_log_dedupe[OF assms(6-8)]
  from d have t: "table_of pre (dedupe ?m)" by blast
  obtain r where r: "map_get (dedupe ?m) ?c = Some r"
    using table_of_None[OF t, of ?c] assms(3,4) by (fastforce simp: mem_clients)
  obtain e' where e': "e' \<in> set pre" "ident e' = Some (?c, d_seq r)" "e_index e' = d_index r"
    using table_of_Some(1)[OF t r] by blast
  have later: "c_seq s < d_seq r" using table_of_Some(2)[OF t r assms(3,4)] assms(5) by simp
  then have "getDedupeIndex (sm (node sv)) ?c (c_seq s) = Some (d_index r)"
    by (simp add: getDedupeIndex_def assms(2) r)
  then have "post_stroke (Some (stroke_payload s)) sv = (sv, Inl (StrokeOk (d_index r) True))"
    by (simp add: post_stroke_def submit_begin_def assms(1) key_def dispatch_def)
  moreover have "\<exists>q'. ident e' = Some (?c, q') \<and> c_seq s < q'" using e'(2) later by simp
  moreover have "strokes (apply_log (pre @ suf) (new_state_machine mx)) =
      strokes (sm (node sv)) @ map stroke_of (accepted pre suf)"
    using d d' by (simp add: assms(2) accepted_append)
  moreover have "\<forall>x \<in> set (accepted pre suf). ident x \<noteq> Some (key s)"
    using accepted_later[OF assms(3,4)] assms(5) by (fastforce simp: key_def)
  ultimately show ?thesis using e'(1,3) stays_pending[OF assms(9,10)]
    by (intro exI[of _ "d_index r"] exI[of _ e']) simp
qed

definition late_entry :: entry where
  "late_entry = \<lparr>e_index = 2, e_term = 1, e_type = STROKE, e_payload = Some (stroke_payload demo_first)\<rparr>"

theorem overtaken_stroke_lost_witness:
  "path_reachable demo_path \<and> store demo_path = board6
 \<and> post_stroke (Some (stroke_payload demo_first)) (demo_server\<lparr>node := nodes board6 ''a''\<rparr>) =
     (demo_server\<lparr>node := nodes board6 ''a''\<rparr>, Inl (StrokeOk 1 True))
 \<and> strokes (apply_log [demo_noop, drawn_entry, late_entry] (new_state_machine 10)) = strokes (sm (nodes board6 ''a''))
 \<and> demo_first \<in> set (pendingStrokes (canvas_run (tab demo_path) [Message demo_second 1, Closed, ReconnectTimer, Opened]))"
proof -
  let ?sv = "demo_server\<lparr>node := nodes board6 ''a''\<rparr>" and ?pre = "[demo_noop, drawn_entry]"
  have st: "store demo_path = board6" by (simp add: demo_path_def)
  have ids: "ident demo_noop = None" "ident drawn_entry = Some (''u'', 2)" "ident late_entry = Some (''u'', 1)"
    "c_clientId demo_first = ''u''" "c_seq demo_first = 1" "key demo_first = (''u'', 1)" "key demo_second = (''u'', 2)"
    by (simp_all add: ident_def payload_of_def demo_noop_def drawn_entry_def demo_body_def late_entry_def
        demo_first_def demo_second_def key_def)
  have com: "committed (nodes board6 ''a'') = ?pre" by (simp add: committed_def demo_board_facts)
  have "path_reachable demo_path" by (rule demo_path_reachable)
  note r = path_store[OF this, unfolded st]
  have a: "sm (node ?sv) = apply_log ?pre (new_state_machine 10)"
    using board_of_committed(1)[OF r demo_board_facts(6), of "''a''"] by (simp add: demo_board_facts(1,5) com)
  have "clients (?pre @ [late_entry]) \<subseteq> {''u''}" by (auto simp: mem_clients ids)
  from card_mono[OF _ this] have c: "int (card (clients (?pre @ [late_entry]))) \<le> 10" by simp
  have x: "sorted_wrt (<) (map e_index (?pre @ [late_entry]))" "\<forall>e \<in> set (?pre @ [late_entry]). 0 \<le> e_index e"
    by (simp_all add: demo_noop_def drawn_entry_def late_entry_def)
  have acc: "accepted ?pre [late_entry] = []" by (simp add: fresh_def ids)
  let ?ops = "[Message demo_second 1, Closed, ReconnectTimer, Opened]"
  have h: "role (node ?sv) = LEADER" "drawn_entry \<in> set ?pre" "ident drawn_entry = Some (c_clientId demo_first, 2)"
    "c_seq demo_first < 2" "demo_first \<in> set (pendingStrokes demo_tab)"
    "\<forall>x i. Message x i \<in> set ?ops \<longrightarrow> key x \<noteq> key demo_first"
    by (simp_all add: demo_board_facts demo_tab_facts ids)
  obtain i e' where w: "post_stroke (Some (stroke_payload demo_first)) ?sv = (?sv, Inl (StrokeOk i True))"
    "e' \<in> set ?pre" "e_index e' = i" "\<exists>q'. ident e' = Some (c_clientId demo_first, q') \<and> c_seq demo_first < q'"
    "strokes (apply_log (?pre @ [late_entry]) (new_state_machine 10)) = strokes (sm (node ?sv)) @ map stroke_of (accepted ?pre [late_entry])"
    "demo_first \<in> set (pendingStrokes (canvas_run demo_tab ?ops))"
    using overtaken_stroke_lost[OF h(1) a h(2-4) x c h(5,6), of new_gateway 0 "''a''"] by blast
  have "e' = drawn_entry" using w(2,4) by (auto simp: ids(1))
  then have "i = 1" using w(3) by (simp add: drawn_entry_def)
  moreover have "tab demo_path = demo_tab" by (simp add: demo_path_def)
  moreover have "node ?sv = nodes board6 ''a''" by simp
  moreover have "?pre @ [late_entry] = [demo_noop, drawn_entry, late_entry]" by simp
  ultimately show ?thesis using w(1,5,6) acc demo_path_reachable st
    by (metis append_Nil2 list.map(1))
qed

end
