(* ===== verification/Canvas_Page.thy ===== *)
theory Canvas_Page imports Canvas Replica_Server Gateway begin

text \<open>
  The rest of the page of \<open>frontend/canvas.js\<close>: its addresses, the position of the pointer on the
  canvas, the texts it shows and the debug panel. What the gateway and the replicas answer is the record
  their routes make; \<open>None\<close> is a failed request. The dash and the ellipsis are their bytes in UTF-8.
\<close>

subsection \<open>Addresses\<close>

record page_config =
  GATEWAY_WS_URL :: string
  GATEWAY_HTTP :: string
  PAGE_REPLICA_URLS :: "string list"

definition page_config :: "string \<Rightarrow> string \<Rightarrow> page_config" where
  "page_config hostname protocol =
     (let host = (if hostname = [] then ''localhost'' else hostname);
          http = (if protocol = ''https:'' then ''https'' else ''http'');
          wsp = (if protocol = ''https:'' then ''wss'' else ''ws'')
      in \<lparr>GATEWAY_WS_URL = wsp @ ''://'' @ host @ '':3000'', GATEWAY_HTTP = http @ ''://'' @ host @ '':3000'',
          PAGE_REPLICA_URLS = map (\<lambda>port. http @ ''://'' @ host @ '':'' @ port) [''4001'', ''4002'', ''4003'']\<rparr>)"

subsection \<open>Pointer\<close>

record rect =
  r_left :: rat
  r_top :: rat
  r_width :: rat
  r_height :: rat

text \<open>A mouse event, or a touch event with its touches; reading the first of no touches throws.\<close>

datatype pointer_event =
    MouseAt rat rat
  | TouchesAt "(rat \<times> rat) list"

definition scaled :: "rect \<Rightarrow> rat \<Rightarrow> rat \<Rightarrow> rat \<Rightarrow> rat \<Rightarrow> rat \<times> rat" where
  "scaled rect width height x y =
     ((x - r_left rect) * (width / r_width rect), (y - r_top rect) * (height / r_height rect))"

definition getPos :: "rect \<Rightarrow> rat \<Rightarrow> rat \<Rightarrow> pointer_event \<Rightarrow> (rat \<times> rat) option" where
  "getPos rect width height e =
     (case e of
        MouseAt x y \<Rightarrow> Some (scaled rect width height x y)
      | TouchesAt [] \<Rightarrow> None
      | TouchesAt ((x, y) # _) \<Rightarrow> Some (scaled rect width height x y))"

subsection \<open>Texts\<close>

definition ellipsis :: string where
  "ellipsis = [CHR 0xE2, CHR 0x80, CHR 0xA6]"

definition long_dash :: string where
  "long_dash = [CHR 0xE2, CHR 0x80, CHR 0x94]"

fun status_text :: "ws_status \<Rightarrow> string \<times> string" where
  "status_text ST_connected = (''indicator connected'', ''Connected'')"
| "status_text ST_connecting = (''indicator connecting'', ''Connecting'' @ ellipsis)"
| "status_text ST_reconnecting = (''indicator reconnecting'', ''Reconnecting'' @ ellipsis)"
| "status_text ST_disconnected = (''indicator disconnected'', ''Disconnected'')"

definition log_chip :: "canvas \<Rightarrow> string" where
  "log_chip c = ''Log: '' @ show_int (localLogIndex c + 1)"

subsection \<open>Debug panel\<close>

text \<open>The badge of a replica: its text and class, and the tooltip of its row.\<close>

record badge =
  bg_text :: string
  bg_class :: string
  bg_title :: string

record debug_panel =
  dp_hidden :: bool
  dp_gateway :: string
  dp_leader :: string
  dp_clients :: string
  leader_chip :: string
  dp_badges :: "badge list"

definition or_text :: "string option \<Rightarrow> string \<Rightarrow> string" where
  "or_text x d = (case x of Some t \<Rightarrow> if t = [] then d else t | None \<Rightarrow> d)"

definition show_gateway :: "gateway_status option \<Rightarrow> debug_panel \<Rightarrow> debug_panel" where
  "show_gateway out p =
     (case out of
        None \<Rightarrow> p\<lparr>dp_gateway := ''offline''\<rparr>
      | Some g \<Rightarrow> p\<lparr>dp_gateway := ''online'', dp_leader := or_text (gs_currentLeaderId g) ''none'',
          dp_clients := show_nat (gs_connectedClients g),
          leader_chip := ''Leader: '' @ or_text (gs_currentLeaderId g) long_dash\<rparr>)"

definition show_replica :: "status_body option \<Rightarrow> badge \<Rightarrow> badge" where
  "show_replica out b =
     (case out of
        None \<Rightarrow> b\<lparr>bg_text := ''down'', bg_class := ''badge down''\<rparr>
      | Some s \<Rightarrow> \<lparr>bg_text = role_text (sb_state s),
          bg_class = ''badge '' @ (if sb_state s = LEADER then ''leader'' else ''follower''),
          bg_title = ''term='' @ show_int (sb_term s) @ '' logLen='' @ show_int (sb_logLength s) @
            '' commitIndex='' @ show_int (sb_commitIndex s)\<rparr>)"

definition fetchDebugInfo :: "gateway_status option \<Rightarrow> status_body option list \<Rightarrow> debug_panel \<Rightarrow> debug_panel" where
  "fetchDebugInfo gw outs p =
     (let p1 = show_gateway gw p in p1\<lparr>dp_badges := map2 show_replica outs (dp_badges p1)\<rparr>)"

text \<open>The buttons; opening the panel fetches.\<close>

definition toggle_debug :: "gateway_status option \<Rightarrow> status_body option list \<Rightarrow> debug_panel \<Rightarrow> debug_panel" where
  "toggle_debug gw outs p =
     (let p1 = p\<lparr>dp_hidden := \<not> dp_hidden p\<rparr> in if dp_hidden p1 then p1 else fetchDebugInfo gw outs p1)"

definition close_debug :: "debug_panel \<Rightarrow> debug_panel" where
  "close_debug p = p\<lparr>dp_hidden := True\<rparr>"

subsection \<open>Start of the page\<close>

text \<open>
  \<open>init\<close> connects, and after 800 ms replays the history; \<open>before\<close> is what happens in between.
\<close>

definition init_ops :: "canvas_op list \<Rightarrow> (cstroke option list \<times> int option) option list \<Rightarrow> canvas_op list" where
  "init_ops before outs = Connect # before @ [Replay outs]"

subsection \<open>Facts\<close>

text \<open>A pointer inside the element is inside the canvas, and its corners are the corners.\<close>

lemma scaled_range:
  assumes "0 < r_width r" "0 < r_height r" "0 \<le> w" "0 \<le> h"
    and "r_left r \<le> x" "x \<le> r_left r + r_width r" "r_top r \<le> y" "y \<le> r_top r + r_height r"
  shows "0 \<le> fst (scaled r w h x y) \<and> fst (scaled r w h x y) \<le> w
       \<and> 0 \<le> snd (scaled r w h x y) \<and> snd (scaled r w h x y) \<le> h"
proof -
  have le: "a * (b / c) \<le> b" if "0 \<le> a" "a \<le> c" "0 < c" "0 \<le> b" for a b c :: rat
  proof -
    have "a * b \<le> c * b" using that by (intro mult_right_mono)
    with that show ?thesis by (simp add: field_simps)
  qed
  show ?thesis
    unfolding scaled_def fst_conv snd_conv
    by (intro conjI le mult_nonneg_nonneg divide_nonneg_pos) (use assms in simp_all)
qed

subsection \<open>Properties\<close>

text \<open>
  A stroke starts on the canvas. A pointer that goes down inside the canvas element, whose size on the
  screen may differ from the canvas's own, draws and queues a segment that starts at the scaled
  position, which is inside the canvas, with the coordinates rounded to hundredths.
\<close>

theorem pointer_on_canvas:
  assumes "0 < r_width r" "0 < r_height r" "0 \<le> w" "0 \<le> h"
    and "r_left r \<le> x" "x \<le> r_left r + r_width r" "r_top r \<le> y" "y \<le> r_top r + r_height r"
    and "getPos r w h (MouseAt x y) = Some pos"
  shows "0 \<le> fst pos \<and> fst pos \<le> w \<and> 0 \<le> snd pos \<and> snd pos \<le> h
       \<and> g_from (last (drawn (onPointerDown pos c))) = pos
       \<and> (let s = last (pendingStrokes (onPointerDown pos c))
          in c_x1 s = round2 (fst pos) \<and> c_y1 s = round2 (snd pos) \<and> c_clientId s = CLIENT_ID c
           \<and> \<bar>c_x1 s - fst pos\<bar> \<le> 1 / 200 \<and> \<bar>c_y1 s - snd pos\<bar> \<le> 1 / 200)"
proof -
  have r: "\<bar>round2 a - a\<bar> \<le> 1 / 200" for a :: rat
  proof -
    have "of_int \<lfloor>a * 100 + 1/2\<rfloor> \<le> a * 100 + 1/2" by (rule of_int_floor_le)
    moreover have "a * 100 + 1/2 < of_int (\<lfloor>a * 100 + 1/2\<rfloor> + 1)" by (rule floor_correct[THEN conjunct2])
    then have "a * 100 + 1/2 < of_int \<lfloor>a * 100 + 1/2\<rfloor> + 1" by (simp only: of_int_add of_int_1)
    ultimately show ?thesis unfolding round2_def abs_le_iff by (simp add: field_simps)
  qed
  have pos: "pos = scaled r w h x y" using assms(9) by (simp add: getPos_def)
  show ?thesis
    using scaled_range[OF assms(1-8)] r unfolding pos[symmetric]
    by (simp add: onPointerDown_def sendStroke_def makeStroke_def nextSeq_def drawSegment_def ws_send_def Let_def)
qed

theorem pointer_on_canvas_witness:
  "fst (the (getPos \<lparr>r_left = 10, r_top = 20, r_width = 400, r_height = 300\<rparr> 800 600 (MouseAt 60 45))) \<le> 800 \<and>
   getPos \<lparr>r_left = 10, r_top = 20, r_width = 400, r_height = 300\<rparr> 800 600 (MouseAt 60 45) = Some (100, 50)"
proof -
  let ?r = "\<lparr>r_left = 10, r_top = 20, r_width = 400, r_height = 300 :: rat\<rparr>"
  have p: "getPos ?r 800 600 (MouseAt 60 45) = Some (100, 50)" by (simp add: getPos_def scaled_def)
  show ?thesis using pointer_on_canvas[of ?r 800 600 60 45 "(100, 50)"] p by simp
qed

end
