(* ===== verification/Admin_Api.thy ===== *)
theory Admin_Api imports Replica_Server begin

text \<open>
  The administration requests as their clients make them: the dashboard's fault panel
  (\<open>gateway/dashboard/dashboard.js\<close>) and the HTTP driver of the benchmarks
  (\<open>replicas/bench/http.js\<close>). A request is the body of a \<open>POST /admin/...\<close>; a number that is
  not finite travels as \<open>null\<close>, which is \<open>None\<close> here. Servers are found under the address a client
  uses for them.
\<close>

datatype admin_post =
    PartitionPost string
  | HealPost string
  | LatencyPost string "int option"
  | DropPost string "rat option"
  | ClearPost
  | CrashPost

text \<open>\<open>parseInt(req.body.ms ?? 0)\<close> and \<open>parseFloat(req.body.probability ?? 0)\<close>: \<open>null\<close> counts as 0.\<close>

fun admin_request :: "admin_post \<Rightarrow> server \<Rightarrow> server \<times> admin_response" where
  "admin_request (PartitionPost p) s = post_partition (Some p) s"
| "admin_request (HealPost p) s = post_heal (Some p) s"
| "admin_request (LatencyPost p ms) s = post_latency (Some p) (Some (or_default ms 0)) s"
| "admin_request (DropPost p prob) s = post_drop (Some p) (Some (or_default prob 0)) s"
| "admin_request ClearPost s = post_clear s"
| "admin_request CrashPost s = (fst (post_crash s), AdminOk None)"

text \<open>The requests that get through, in order.\<close>

definition administer :: "(string \<times> admin_post) list \<Rightarrow> (string \<Rightarrow> server) \<Rightarrow> string \<Rightarrow> server" where
  "administer ps S = fold (\<lambda>(u, p) S. S(u := fst (admin_request p (S u)))) ps S"

lemma administer_simps [simp]:
  "administer [] S = S"
  "administer ((u, p) # ps) S = administer ps (S(u := fst (admin_request p (S u))))"
  "administer (ps @ qs) S = administer qs (administer ps S)"
  by (simp_all add: administer_def)

lemma administer_other: "u \<notin> fst ` set ps \<Longrightarrow> administer ps S u = S u"
  by (induction ps arbitrary: S) auto

text \<open>A request on a fault changes only the transport and the timeline of its server.\<close>

lemma admin_request_frame [simp]:
  "PEER_URLS (fst (admin_request p s)) = PEER_URLS s"
  "node (fst (admin_request p s)) = node s"
  by (cases p; simp add: post_partition_def post_heal_def post_latency_def post_drop_def post_clear_def
      post_crash_def add_to_log_def Let_def case_prod_beta split: option.split)+

text \<open>Requests do not interfere: a server ends as if it had got only its own.\<close>

lemma administer_at:
  "administer ps S u = fold (\<lambda>p s. fst (admin_request p s)) (map snd (filter (\<lambda>r. fst r = u) ps)) (S u)"
proof (induction ps arbitrary: S)
  case (Cons r ps)
  then show ?case by (cases r) simp
qed simp

subsection \<open>Partitions\<close>

lemma partition_effect:
  assumes "resolvePeer (PEER_URLS s) (Some p) = Some u" "u \<noteq> ''all''"
  shows "transport (fst (admin_request (PartitionPost p) s)) = partitionPeer u (transport s)"
  using assms by (simp add: post_partition_def applyToPeers_def add_to_log_def)

lemma set_partitionPeer: "set (partitionedPeers (partitionPeer u t)) = insert u (set (partitionedPeers t))"
  by (auto simp: partitionPeer_def)

lemma partitioned_call:
  "snd (call_begin u x t) = PARTITIONED \<longleftrightarrow> u \<in> set (partitionedPeers t)"
  by (simp add: call_begin_def Let_def bump_def)

lemma fold_partition_posts:
  assumes "\<forall>p \<in> set ps. resolvePeer (PEER_URLS s) (Some p) = Some (url p) \<and> url p \<noteq> ''all''"
  shows "set (partitionedPeers (transport (fold (\<lambda>p s. fst (admin_request p s)) (map PartitionPost ps) s))) =
    set (partitionedPeers (transport s)) \<union> url ` set ps"
  using assms
proof (induction ps arbitrary: s)
  case (Cons p ps)
  have "transport (fst (admin_request (PartitionPost p) s)) = partitionPeer (url p) (transport s)"
    using Cons.prems by (intro partition_effect) simp_all
  with Cons.IH[of "fst (admin_request (PartitionPost p) s)"] Cons.prems show ?case
    by (auto simp: set_partitionPeer simp del: admin_request.simps)
qed simp

lemma clear_effect: "transport (fst (admin_request ClearPost s)) = clearAllFaults (transport s)"
  by (simp add: post_clear_def add_to_log_def)

lemma cleared_call:
  "\<exists>t'. call_begin u x (clearAllFaults t) = (t', Sending 0)"
  by (simp add: call_begin_def clearAllFaults_def Let_def effectiveDrop_def effectiveLatency_def bump_def)

end
