(* ===== verification/Js_Json.thy ===== *)
theory Js_Json imports Raft_Types Js_Text begin

text \<open>
  \<open>JSON.stringify\<close> without indentation, as the dashboard and the logger use it. A text is a list of
  bytes; bytes above the control characters are copied, so a text in UTF-8 stays one. The text of a value
  never has a control character, so it stays on one line.
\<close>

definition hex_char :: "nat \<Rightarrow> char" where
  "hex_char d = ''0123456789abcdef'' ! d"

definition json_char :: "char \<Rightarrow> string" where
  "json_char c =
     (if c = CHR 0x22 then [CHR 0x5C, CHR 0x22] else if c = CHR 0x5C then [CHR 0x5C, CHR 0x5C]
      else if c = CHR 0x08 then [CHR 0x5C, CHR ''b''] else if c = CHR 0x09 then [CHR 0x5C, CHR ''t'']
      else if c = CHR 0x0A then [CHR 0x5C, CHR ''n''] else if c = CHR 0x0C then [CHR 0x5C, CHR ''f'']
      else if c = CHR 0x0D then [CHR 0x5C, CHR ''r'']
      else if of_char c < (32 :: nat)
      then CHR 0x5C # ''u00'' @ [hex_char (of_char c div 16), hex_char (of_char c mod 16)] else [c])"

definition json_string :: "string \<Rightarrow> string" where
  "json_string s = CHR 0x22 # concat (map json_char s) @ [CHR 0x22]"

fun json_text :: "jval \<Rightarrow> string" where
  "json_text JNull = ''null''"
| "json_text (JBool b) = (if b then ''true'' else ''false'')"
| "json_text (JInt i) = show_int i"
| "json_text (JFlt r) = show_rat r"
| "json_text (JStr s) = json_string s"
| "json_text (JArr xs) = ''['' @ str_join '','' (map json_text xs) @ '']''"
| "json_text (JObj kvs) = ''{'' @ str_join '','' (map (\<lambda>(k, v). json_string k @ '':'' @ json_text v) kvs) @ ''}''"

subsection \<open>JSON text is one line\<close>

definition printable :: "char \<Rightarrow> bool" where
  "printable c \<longleftrightarrow> (32 :: nat) \<le> of_char c"

lemma printable_marks:
  "list_all printable '' !#$%&()*+,-./0123456789:;<=>?@ABCDEFGHIJKLMNOPQRSTUVWXYZ[]_abcdefghijklmnopqrstuvwxyz{|}''"
  by code_simp

lemmas printable_char [simp] = printable_marks[simplified]

lemma printable_digit: "d < 10 \<Longrightarrow> printable (digit_char d)"
proof -
  have "\<forall>d < 10. printable (digit_char d)" by code_simp
  then show "d < 10 \<Longrightarrow> printable (digit_char d)" by blast
qed

lemma printable_hex: "d < 16 \<Longrightarrow> printable (hex_char d)"
proof -
  have "\<forall>d < 16. printable (hex_char d)" by code_simp
  then show "d < 16 \<Longrightarrow> printable (hex_char d)" by blast
qed

lemma printable_show_nat: "c \<in> set (show_nat n) \<Longrightarrow> printable c"
  using show_nat_digits printable_digit by blast

lemma printable_show_int: "c \<in> set (show_int i) \<Longrightarrow> printable c"
  using printable_show_nat by (auto simp: show_int_def printable_def split: if_splits)

lemma printable_frac: "0 \<le> r \<Longrightarrow> r < 1 \<Longrightarrow> c \<in> set (frac_digits k r) \<Longrightarrow> printable c"
proof (induction k arbitrary: r)
  case (Suc k)
  let ?d = "\<lfloor>r * 10\<rfloor>"
  have "?d < 10" using Suc.prems(2) by (simp add: floor_less_iff)
  then have d: "printable (digit_char (nat ?d))" by (intro printable_digit) linarith
  have ge: "0 \<le> r * 10 - of_int ?d" by simp
  have lt: "r * 10 - of_int ?d < 1" using floor_correct[of "r * 10"] by linarith
  have "r = 0 \<or> c = digit_char (nat ?d) \<or> c \<in> set (frac_digits k (r * 10 - of_int ?d))"
    using Suc.prems(3) by (auto split: if_splits)
  then show ?case using Suc.IH[OF ge lt] d Suc.prems(3) by auto
qed simp

lemma printable_show_rat: "c \<in> set (show_rat r) \<Longrightarrow> printable c"
proof -
  have f: "0 \<le> \<bar>r\<bar> - of_int \<lfloor>\<bar>r\<bar>\<rfloor>" "\<bar>r\<bar> - of_int \<lfloor>\<bar>r\<bar>\<rfloor> < 1"
    using floor_correct[of "\<bar>r\<bar>"] by linarith+
  show "c \<in> set (show_rat r) \<Longrightarrow> printable c"
    using printable_frac[OF f] printable_show_int
    by (auto simp: show_rat_def Let_def printable_def split: if_splits)
qed

lemma printable_json_char: "d \<in> set (json_char c) \<Longrightarrow> printable d"
proof (cases "of_char c < (32 :: nat)")
  case True
  then have "of_char c div 16 < (16 :: nat)" "of_char c mod 16 < (16 :: nat)" by linarith+
  then have "printable (hex_char (of_char c div 16))" "printable (hex_char (of_char c mod 16))"
    by (simp_all add: printable_hex)
  with True show "d \<in> set (json_char c) \<Longrightarrow> printable d"
    by (auto simp: json_char_def split: if_splits) (simp_all add: printable_def)
next
  case False
  then show "d \<in> set (json_char c) \<Longrightarrow> printable d"
    by (auto simp: json_char_def printable_def split: if_splits)
qed

lemma printable_json_string: "c \<in> set (json_string s) \<Longrightarrow> printable c"
  using printable_json_char by (auto simp: json_string_def printable_def)

lemma printable_join:
  "\<forall>c \<in> set sep. printable c \<Longrightarrow> \<forall>x \<in> set xs. \<forall>c \<in> set x. printable c \<Longrightarrow> c \<in> set (str_join sep xs) \<Longrightarrow> printable c"
  by (induction sep xs rule: str_join.induct) auto

lemma json_one_line: "c \<in> set (json_text v) \<Longrightarrow> printable c"
proof (induction v arbitrary: c rule: json_text.induct)
  case (6 xs)
  have "printable c" if "c \<in> set (str_join '','' (map json_text xs))" for c
    by (rule printable_join[OF _ _ that]) (use 6 in \<open>auto simp: printable_def\<close>)
  with 6 show ?case by (auto simp: printable_def)
next
  case (7 kvs)
  have "printable d" if "d \<in> set (str_join '','' (map (\<lambda>(k, v). json_string k @ '':'' @ json_text v) kvs))" for d
  proof (rule printable_join[OF _ _ that])
    show "\<forall>x \<in> set (map (\<lambda>(k, v). json_string k @ '':'' @ json_text v) kvs). \<forall>c \<in> set x. printable c"
      using 7(1) printable_json_string by auto
  qed (simp add: printable_def)
  with 7(2) show ?case by auto
qed (auto simp: printable_show_int printable_show_rat printable_json_string split: if_splits)

end
