(* ===== verification/Dashboard.thy ===== *)
theory Dashboard imports Admin_Api Js_Json "HOL-Library.Multiset" begin

text \<open>
  The cluster dashboard (\<open>gateway/dashboard/dashboard.js\<close>): polling, the summary, the cards of the
  nodes, the timeline and the fault panel. What the page shows is text: the contents of the chips and the
  HTML it assigns to \<open>innerHTML\<close>, as bytes (a dash, a bullet and an ellipsis are their bytes in
  UTF-8). The outcome of each request, the clock, the time zone (as an offset in milliseconds) and the
  answers to \<open>confirm\<close> are inputs. What a replica reports is the record that its route makes
  (\<open>Replica_Server.metrics_body\<close>), which JSON carries unchanged.
\<close>

subsection \<open>Replicas and polling\<close>

record dash_replica =
  d_id :: string
  d_url :: string

definition REPLICAS :: "string \<Rightarrow> dash_replica list" where
  "REPLICAS hostname = map (\<lambda>(i, port). \<lparr>d_id = i, d_url = ''http://'' @ hostname @ '':'' @ port\<rparr>)
     [(''replica1'', ''4001''), (''replica2'', ''4002''), (''replica3'', ''4003'')]"

definition POLL_MS :: int where
  "POLL_MS = 1000"

datatype fetched =
    FetchedJson metrics_body
  | FetchedStatus int
  | FetchFailed string

datatype poll_result =
    Up dash_replica metrics_body
  | Down dash_replica string

definition fetchMetrics :: "dash_replica \<Rightarrow> fetched \<Rightarrow> poll_result" where
  "fetchMetrics r out =
     (case out of
        FetchedJson m \<Rightarrow> Up r m
      | FetchedStatus c \<Rightarrow> Down r (''http '' @ show_int c)
      | FetchFailed e \<Rightarrow> Down r e)"

definition ups :: "poll_result list \<Rightarrow> (dash_replica \<times> metrics_body) list" where
  "ups rs = concat (map (\<lambda>x. case x of Up r m \<Rightarrow> [(r, m)] | Down r e \<Rightarrow> []) rs)"

subsection \<open>Text\<close>

definition bullet :: string where
  "bullet = [CHR 0xE2, CHR 0x80, CHR 0xA2]"

definition em_dash :: string where
  "em_dash = [CHR 0xE2, CHR 0x80, CHR 0x94]"

definition escape_char :: "char \<Rightarrow> string" where
  "escape_char c =
     (if c = CHR ''&'' then ''&amp;'' else if c = CHR ''<'' then ''&lt;''
      else if c = CHR ''>'' then ''&gt;'' else if c = CHR 0x22 then ''&quot;''
      else if c = CHR 0x27 then ''&#39;'' else [c])"

definition escapeHtml :: "string \<Rightarrow> string" where
  "escapeHtml s = concat (map escape_char s)"

text \<open>\<open>url.match(/\/\/([^:/]+)/)\<close>: the first run of other characters after two slashes.\<close>

definition host_char :: "char \<Rightarrow> bool" where
  "host_char c \<longleftrightarrow> c \<noteq> CHR '':'' \<and> c \<noteq> CHR ''/''"

fun match_host :: "string \<Rightarrow> string option" where
  "match_host [] = None"
| "match_host (c # cs) =
     (let h = takeWhile host_char (drop 1 cs)
      in if c = CHR ''/'' \<and> take 1 cs = ''/'' \<and> h \<noteq> [] then Some h else match_host cs)"

definition shortPeer :: "string \<Rightarrow> string" where
  "shortPeer url = (case match_host url of Some h \<Rightarrow> h | None \<Rightarrow> url)"

definition fmtTime :: "int \<Rightarrow> int \<Rightarrow> string" where
  "fmtTime tz ts =
     (let d = (ts + tz) mod 86400000;
          two = (\<lambda>k. pad_start 2 (CHR ''0'') (show_int k))
      in two (d div 3600000) @ '':'' @ two (d div 60000 mod 60) @ '':'' @ two (d div 1000 mod 60) @ ''.'' @
         pad_start 3 (CHR ''0'') (show_int (d mod 1000)))"

definition object_text :: "(string \<times> jval) list \<Rightarrow> string" where
  "object_text kvs = str_join '' '' (map (\<lambda>(k, v). k @ ''='' @ json_text v) kvs)"

fun fmtDetail :: "jval \<Rightarrow> string" where
  "fmtDetail JNull = []"
| "fmtDetail (JStr s) = s"
| "fmtDetail (JObj kvs) = object_text kvs"
| "fmtDetail (JArr xs) = object_text (map (\<lambda>(i, v). (show_nat i, v)) (enumerate 0 xs))"
| "fmtDetail _ = []"

text \<open>The details of the events that a replica logs, as JSON.\<close>

definition detail_json :: "event_data option \<Rightarrow> jval" where
  "detail_json d =
     (case d of
        None \<Rightarrow> JNull
      | Some (TermData t) \<Rightarrow> JObj [(''term'', JInt t)]
      | Some (SnapshotData i t) \<Rightarrow> JObj [(''lastIncludedIndex'', JInt i), (''lastIncludedTerm'', JInt t)]
      | Some (BootData k) \<Rightarrow> JObj [(''restartCount'', JInt k)]
      | Some (AffectedData us) \<Rightarrow> JObj [(''affected'', JArr (map JStr us))]
      | Some (TargetData u) \<Rightarrow> JObj [(''target'', JStr u)]
      | Some (LatencyData u ms) \<Rightarrow> JObj [(''target'', JStr u), (''ms'', JInt ms)]
      | Some (DropData u p) \<Rightarrow> JObj [(''target'', JStr u), (''probability'', JFlt p)])"

subsection \<open>Summary and cards\<close>

definition find_leader :: "(dash_replica \<times> metrics_body) list \<Rightarrow> dash_replica option" where
  "find_leader alive = map_option fst (find (\<lambda>(r, m). st_role (mb_status m) = LEADER) alive)"

record summary_text =
  chip_leader :: string
  chip_term :: string
  chip_commit :: string
  cluster_summary :: string

definition renderSummary :: "poll_result list \<Rightarrow> summary_text" where
  "renderSummary results =
     (let alive = ups results;
          leader = map_option d_id (find_leader alive);
          term = fold max (map (\<lambda>(r, m). st_term (mb_status m)) alive) 0;
          commit = fold max (map (\<lambda>(r, m). st_commitIndex (mb_status m)) alive) (-1)
      in \<lparr>chip_leader = ''leader: '' @ or_default leader em_dash,
          chip_term = ''term: '' @ show_int term,
          chip_commit = ''commit: '' @ show_int commit,
          cluster_summary = show_nat (length alive) @ ''/3 online '' @ em_dash @ '' leader: '' @
            or_default leader ''none''\<rparr>)"

definition quoted :: "string \<Rightarrow> string" where
  "quoted s = CHR 0x22 # s @ [CHR 0x22]"

definition line_feed :: string where
  "line_feed = [CHR 0x0A]"

text \<open>A template literal that starts and ends with a line break: its lines, and the blanks before its end.\<close>

definition template :: "string list \<Rightarrow> nat \<Rightarrow> string" where
  "template ls k = concat (map (\<lambda>l. line_feed @ l) ls) @ line_feed @ replicate k (CHR '' '')"

definition indent :: "nat \<Rightarrow> string \<Rightarrow> string" where
  "indent k s = replicate k (CHR '' '') @ s"

definition open_div :: "string \<Rightarrow> string" where
  "open_div cls = ''<div class='' @ quoted cls @ ''>''"

definition in_div :: "string \<Rightarrow> string \<Rightarrow> string" where
  "in_div cls body = open_div cls @ body @ ''</div>''"

definition stat :: "string \<Rightarrow> string \<Rightarrow> string" where
  "stat label v = indent 6 (''<span>'' @ label @ ''</span><b>'' @ v @ ''</b>'')"

definition node_button :: "string \<Rightarrow> string \<Rightarrow> string \<Rightarrow> string" where
  "node_button rid act label =
     ''<button data-node='' @ quoted rid @ '' data-do='' @ quoted act @ ''>'' @ label @ ''</button>''"

text \<open>\<open>Math.round(p * 100)\<close> with its sign.\<close>

definition percent :: "rat \<Rightarrow> string" where
  "percent p = show_int (js_round (p * 100)) @ ''%''"

definition faultBits :: "fault_status \<Rightarrow> string list" where
  "faultBits f =
     (if fs_partitionedPeers f \<noteq> []
      then [''partitioned from '' @ str_join '', '' (map shortPeer (fs_partitionedPeers f))] else []) @
     (if fs_peerLatencyMs f \<noteq> []
      then [''latency '' @ str_join '', ''
              (map (\<lambda>(p, ms). shortPeer p @ ''+'' @ show_int ms @ ''ms'') (fs_peerLatencyMs f))] else []) @
     (if fs_peerDropProb f \<noteq> []
      then [str_join '', '' (map (\<lambda>(p, prob). shortPeer p @ '' drop '' @ percent prob) (fs_peerDropProb f))]
      else []) @
     (if fs_globalLatencyMs f > 0 then [''global +'' @ show_int (fs_globalLatencyMs f) @ ''ms''] else []) @
     (if fs_globalDropProb f > 0 then [''global drop '' @ percent (fs_globalDropProb f)] else [])"

record node_card =
  card_classes :: "string list"
  card_html :: string

definition down_card :: "dash_replica \<Rightarrow> string \<Rightarrow> string" where
  "down_card r err = template
     [indent 6 (open_div ''node-header''),
      indent 8 (in_div ''node-id'' (d_id r)),
      indent 8 (in_div ''role-badge down'' ''DOWN''),
      indent 6 ''</div>'',
      indent 6 (in_div ''node-stats'' (''<span>'' @ escapeHtml err @ ''</span>'')),
      indent 6 (open_div ''node-actions''),
      indent 8 (node_button (d_id r) ''wait'' ''(waiting for restart)''),
      indent 6 ''</div>''] 4"

definition up_card :: "node_status \<Rightarrow> fault_status \<Rightarrow> string" where
  "up_card st f = template
     [indent 4 (open_div ''node-header''),
      indent 6 (in_div ''node-id'' (st_replicaId st)),
      indent 6 (in_div (''role-badge '' @ role_text (st_role st)) (to_upper (role_text (st_role st)))),
      indent 4 ''</div>'',
      indent 4 (open_div ''node-stats''),
      stat ''term'' (show_int (st_term st)),
      stat ''leader'' (or_default (st_leaderId st) em_dash),
      stat ''log range'' (show_int (st_firstIndex st) @ ''..'' @ show_int (st_lastIndex st)),
      stat ''commit / applied'' (show_int (st_commitIndex st) @ '' / '' @ show_int (st_lastApplied st)),
      stat ''snapshots'' (show_int (st_snapshotCount st) @ '' (@ '' @ show_int (st_lastSnapshotIndex st) @ '')''),
      stat ''restarts / uptime'' (show_int (st_restartCount st) @ '' / '' @
        show_int (js_round (of_int (st_uptimeMs st) / 1000)) @ ''s''),
      stat ''dedupe entries'' (show_int (st_dedupeSize st)),
      stat ''voted for'' (or_default (st_votedFor st) em_dash),
      indent 4 ''</div>'',
      indent 4 (in_div ''node-faults'' (str_join ('' '' @ bullet @ '' '') (faultBits f))),
      indent 4 (open_div ''node-actions''),
      indent 6 (node_button (st_replicaId st) ''use'' ''Use as fault target''),
      indent 4 ''</div>''] 2"

definition renderNodeCard :: "poll_result \<Rightarrow> node_card" where
  "renderNodeCard x =
     (case x of
        Down r err \<Rightarrow> \<lparr>card_classes = [''node-card'', ''down''], card_html = down_card r err\<rparr>
      | Up r m \<Rightarrow> \<lparr>card_classes = [''node-card'', role_text (st_role (mb_status m))],
          card_html = up_card (mb_status m) (mb_faults m)\<rparr>)"

definition renderNodes :: "poll_result list \<Rightarrow> node_card list" where
  "renderNodes results = map renderNodeCard results"

subsection \<open>Timeline\<close>

text \<open>
  A row is an event with the replica it comes from. The objects of the merged list have an identity of
  their own, by which \<open>new Set\<close> removes repetitions: here the position in the sorted list.
\<close>

record row =
  row_ts :: int
  row_type :: string
  row_detail :: "event_data option"
  row_node :: string

definition rows_of :: "poll_result list \<Rightarrow> row list" where
  "rows_of results = concat (map (\<lambda>(r, m).
     map (\<lambda>ev. \<lparr>row_ts = ev_ts ev, row_type = ev_type ev, row_detail = ev_detail ev, row_node = d_id r\<rparr>)
       (mb_timeline m)) (ups results))"

text \<open>\<open>sort((a, b) => b.ts - a.ts)\<close> is stable, newest first.\<close>

definition newest_first :: "('a \<Rightarrow> int) \<Rightarrow> 'a list \<Rightarrow> 'a list" where
  "newest_first ts xs = sort_key (\<lambda>x. - ts x) xs"

text \<open>\<open>[...new Set(xs)]\<close>: each element once, where it occurs first.\<close>

definition js_set :: "'a list \<Rightarrow> 'a list" where
  "js_set xs = fold (\<lambda>x acc. if x \<in> set acc then acc else acc @ [x]) xs []"

definition visible_rows :: "row list \<Rightarrow> row list" where
  "visible_rows merged =
     (let rows = enumerate 0 (newest_first row_ts merged);
          recentFaults = take 10 (filter (\<lambda>(i, ev). starts_with (row_type ev) ''fault'') rows)
      in map snd (take 60 (newest_first (\<lambda>(i, ev). row_ts ev) (js_set (recentFaults @ take 60 rows)))))"

text \<open>\<open>ev.detail?.term\<close> counts as true when it is a term other than 0.\<close>

definition has_term :: "event_data option \<Rightarrow> bool" where
  "has_term d = (case d of Some (TermData t) \<Rightarrow> t \<noteq> 0 | _ \<Rightarrow> False)"

definition row_class :: "row \<Rightarrow> string" where
  "row_class ev =
     (if starts_with (row_type ev) ''role'' \<and> has_term (row_detail ev)
      then (if row_type ev = ''role:leader'' then ''leader'' else ''role'')
      else if starts_with (row_type ev) ''fault'' then ''fault''
      else if row_type ev = ''snapshot'' then ''snap''
      else if row_type ev = ''boot'' then ''boot'' else [])"

definition row_html :: "int \<Rightarrow> row \<Rightarrow> string" where
  "row_html tz ev =
     (let span = (\<lambda>cls body. indent 6 (''<span class='' @ quoted cls @ ''>'' @ body @ ''</span>''))
      in str_join line_feed
        [open_div (''timeline-row '' @ row_class ev),
         span ''ts'' (fmtTime tz (row_ts ev)),
         span ''node'' (row_node ev),
         span ''type'' (escapeHtml (row_type ev)),
         indent 6 (''<span class='' @ quoted ''detail'' @ '' title='' @ [CHR 0x27] @
           escapeHtml (json_text (detail_json (row_detail ev))) @ [CHR 0x27] @ ''>'' @
           escapeHtml (fmtDetail (detail_json (row_detail ev))) @ ''</span>''),
         indent 4 ''</div>''])"

definition renderTimeline :: "int \<Rightarrow> poll_result list \<Rightarrow> string" where
  "renderTimeline tz results =
     (let html = concat (map (row_html tz) (visible_rows (rows_of results)))
      in if html = []
         then in_div ''timeline-row'' (''<span class='' @ quoted ''detail'' @ ''>no events yet</span>'') else html)"

record page =
  pg_summary :: summary_text
  pg_poll :: string
  pg_cards :: "node_card list"
  pg_timeline :: string

text \<open>One poll: the outcomes of the three requests and the time they took; the next follows after \<open>POLL_MS\<close>.\<close>

definition poll :: "string \<Rightarrow> int \<Rightarrow> fetched list \<Rightarrow> rat \<Rightarrow> page" where
  "poll hostname tz outs ms =
     (let results = map2 fetchMetrics (REPLICAS hostname) outs
      in \<lparr>pg_summary = renderSummary results,
          pg_poll = ''poll: '' @ show_int (js_round ms) @ ''ms'',
          pg_cards = renderNodes results,
          pg_timeline = renderTimeline tz results\<rparr>)"

subsection \<open>Fault panel\<close>

record panel =
  targetSel :: string
  peerSel :: string
  latencyIn :: string
  dropIn :: string

text \<open>The options of the two lists, after the one that the page itself has for the peer.\<close>

definition target_options :: "string \<Rightarrow> string list" where
  "target_options hostname = map d_id (REPLICAS hostname)"

definition peer_options :: "string \<Rightarrow> string list" where
  "peer_options hostname = ''all'' # map d_id (REPLICAS hostname)"

text \<open>\<open>Use as fault target\<close> on a card.\<close>

definition use_target :: "string \<Rightarrow> panel \<Rightarrow> panel" where
  "use_target rid p = p\<lparr>targetSel := rid\<rparr>"

definition or_zero :: "string \<Rightarrow> string" where
  "or_zero s = (if s = [] then ''0'' else s)"

text \<open>
  A button: the requests in the order in which they are made, each with the address it goes to.
  \<open>confirmed\<close> is the answer to the question that a crash and an isolation ask.
\<close>

definition handleFaultAction :: "string \<Rightarrow> panel \<Rightarrow> string \<Rightarrow> bool \<Rightarrow> (string \<times> admin_post) list" where
  "handleFaultAction hostname p action confirmed =
     (case find (\<lambda>r. d_id r = targetSel p) (REPLICAS hostname) of
        None \<Rightarrow> []
      | Some target \<Rightarrow>
          (let peer = peerSel p;
               latency = parse_int10 (or_zero (latencyIn p));
               drop = parse_float (or_zero (dropIn p));
               others = filter (\<lambda>r. d_id r \<noteq> targetSel p) (REPLICAS hostname)
           in if action = ''partition'' then [(d_url target, PartitionPost peer)]
              else if action = ''heal'' then [(d_url target, HealPost peer)]
              else if action = ''latency'' then [(d_url target, LatencyPost peer latency)]
              else if action = ''drop'' then [(d_url target, DropPost peer drop)]
              else if action = ''clear'' then [(d_url target, ClearPost)]
              else if action = ''crash'' then (if confirmed then [(d_url target, CrashPost)] else [])
              else if action = ''isolate'' then
                (if confirmed
                 then map (\<lambda>r. (d_url target, PartitionPost (d_id r))) others @
                      map (\<lambda>r. (d_url r, PartitionPost (targetSel p))) others
                 else [])
              else if action = ''clear-all'' then map (\<lambda>r. (d_url r, ClearPost)) (REPLICAS hostname)
              else []))"

subsection \<open>Facts\<close>

lemma template_contains:
  assumes "l \<in> set ls"
  shows "\<exists>pre post. template ls k = pre @ l @ post"
proof -
  obtain as bs where "ls = as @ l # bs" using assms by (meson split_list)
  then have "template ls k = (concat (map (\<lambda>l. line_feed @ l) as) @ line_feed) @ l @
      concat (map (\<lambda>l. line_feed @ l) bs) @ line_feed @ replicate k (CHR '' '')" by (simp add: template_def)
  then show ?thesis by blast
qed

text \<open>The leader that a node has accepted, whoever sent the call.\<close>

lemma accept_leader_leaderId: "l \<noteq> [] \<Longrightarrow> leaderId (accept_leader t l n) = Some l"
  by (simp add: accept_leader_def becomeFollower_leaderId node_frame)

lemma handleAppendEntries_leaderId:
  assumes "currentTerm n \<le> ae_term r" "ae_leaderId r \<noteq> []"
  shows "leaderId (fst (handleAppendEntries r n)) = Some (ae_leaderId r)"
  using assms by (auto simp: handleAppendEntries_def Let_def node_frame accept_leader_leaderId)

text \<open>How the browser reads the entities back.\<close>

fun read_html :: "string \<Rightarrow> string" where
  "read_html [] = []"
| "read_html (c # cs) =
     (if starts_with (c # cs) ''&amp;'' then CHR ''&'' # read_html (drop 4 cs)
      else if starts_with (c # cs) ''&lt;'' then CHR ''<'' # read_html (drop 3 cs)
      else if starts_with (c # cs) ''&gt;'' then CHR ''>'' # read_html (drop 3 cs)
      else if starts_with (c # cs) ''&quot;'' then CHR 0x22 # read_html (drop 5 cs)
      else if starts_with (c # cs) ''&#39;'' then CHR 0x27 # read_html (drop 4 cs)
      else c # read_html cs)"

lemma read_escape_char: "read_html (escape_char c @ s) = c # read_html s"
  by (cases "c = CHR ''&''") (auto simp: escape_char_def starts_with_def)

text \<open>Merging the newest rows with some others and sorting again does not change which times are on top.\<close>

lemma js_set_facts: "distinct (js_set xs)" "set (js_set xs) = set xs"
proof -
  have "distinct acc \<Longrightarrow> distinct (fold (\<lambda>x acc. if x \<in> set acc then acc else acc @ [x]) xs acc) \<and>
     set (fold (\<lambda>x acc. if x \<in> set acc then acc else acc @ [x]) xs acc) = set acc \<union> set xs" for acc :: "'a list"
    by (induction xs arbitrary: acc) auto
  from this[of "[]"] show "distinct (js_set xs)" "set (js_set xs) = set xs" by (simp_all add: js_set_def)
qed

lemma map_sort_key: "map f (sort_key f xs) = sort (map f xs)"
  by (rule properties_for_sort[symmetric]) simp_all

lemma mset_with_top:
  assumes "distinct rows" "distinct L" "set (take k rows) \<subseteq> set L" "set L \<subseteq> set rows"
  shows "\<exists>R. mset L = mset (take k rows @ R) \<and> set R \<subseteq> set (drop k rows)"
proof -
  let ?R = "filter (\<lambda>x. x \<notin> set (take k rows)) L"
  have split: "mset L = mset (filter (\<lambda>x. x \<in> set (take k rows)) L) + mset ?R"
    unfolding mset_filter by (rule multiset_partition)
  have top: "mset (filter (\<lambda>x. x \<in> set (take k rows)) L) = mset (take k rows)"
    using assms by (intro set_eq_iff_mset_eq_distinct[THEN iffD1]) auto
  have "mset L = mset (take k rows @ ?R)"
    unfolding mset_append by (rule trans[OF split]) (simp only: top)
  moreover have "set ?R \<subseteq> set (drop k rows)"
  proof
    fix x assume "x \<in> set ?R"
    then have "x \<in> set (take k rows @ drop k rows)" "x \<notin> set (take k rows)" using assms(4) by auto
    then show "x \<in> set (drop k rows)" unfolding set_append by blast
  qed
  ultimately show ?thesis by blast
qed

lemma top_unchanged:
  fixes f :: "'a \<Rightarrow> int"
  assumes "sorted (map f rows)" "distinct rows" "distinct L" "set (take k rows) \<subseteq> set L" "set L \<subseteq> set rows"
  shows "map f (take k (sort_key f L)) = map f (take k rows)"
proof -
  obtain R where R: "mset L = mset (take k rows @ R)" "set R \<subseteq> set (drop k rows)"
    using mset_with_top[OF assms(2-5)] by blast
  let ?ys = "map f (take k rows) @ sort (map f R)"
  have le: "f x \<le> f y" if "x \<in> set (take k rows)" "y \<in> set R" for x y
  proof -
    have "sorted (map f (take k rows @ drop k rows))" using assms(1) by simp
    with that R(2) show ?thesis by (auto simp: sorted_append simp del: append_take_drop_id)
  qed
  have "sorted (map f (take k rows))" using assms(1) by (simp flip: take_map)
  then have "sorted ?ys" using le by (auto simp: sorted_append)
  moreover have "image_mset f (mset L) = image_mset f (mset (take k rows @ R))" using R(1) by simp
  then have "mset ?ys = mset (map f L)" by simp
  ultimately have "sort (map f L) = ?ys" by (intro properties_for_sort)
  then have m: "map f (sort_key f L) = ?ys" by (simp add: map_sort_key)
  show ?thesis
  proof (cases "k \<le> length rows")
    case True
    then show ?thesis by (simp add: m flip: take_map)
  next
    case False
    then have "R = []" using R(2) by simp
    with False m show ?thesis by (simp flip: take_map)
  qed
qed

lemma map_uminus_eq:
  fixes g :: "'a \<Rightarrow> int"
  assumes "map (\<lambda>x. - g x) xs = map (\<lambda>x. - g x) ys"
  shows "map g xs = map g ys"
  using arg_cong[OF assms, of "map uminus"] by (simp add: o_def)

lemma visible_times:
  "map row_ts (visible_rows merged) = map row_ts (take 60 (newest_first row_ts merged))"
  "set (visible_rows merged) \<subseteq> set merged"
proof -
  define rows where "rows = enumerate 0 (newest_first row_ts merged)"
  define L where "L = js_set (take 10 (filter (\<lambda>(i, ev). starts_with (row_type ev) ''fault'') rows) @ take 60 rows)"
  let ?f = "\<lambda>(i :: nat, ev). - row_ts ev"
  have vis: "visible_rows merged = map snd (take 60 (sort_key ?f L))"
    by (simp add: visible_rows_def Let_def L_def rows_def newest_first_def case_prod_beta')
  have sub: "set L \<subseteq> set rows"
    unfolding L_def js_set_facts(2) by (auto dest!: in_set_takeD)
  have f: "?f = (\<lambda>x. - row_ts (snd x))" by auto
  have "map ?f rows = map (\<lambda>x. - row_ts x) (newest_first row_ts merged)"
    unfolding f rows_def by (metis (no_types, lifting) map_eq_conv map_map comp_apply map_snd_enumerate)
  then have "sorted (map ?f rows)" by (simp add: newest_first_def)
  then have "map ?f (take 60 (sort_key ?f L)) = map ?f (take 60 rows)"
    using sub by (intro top_unchanged) (simp_all add: L_def rows_def js_set_facts)
  then have "map row_ts (map snd (take 60 (sort_key ?f L))) = map row_ts (map snd (take 60 rows))"
    unfolding f map_map o_def by (rule map_uminus_eq)
  then show "map row_ts (visible_rows merged) = map row_ts (take 60 (newest_first row_ts merged))"
    unfolding vis rows_def by (simp only: take_map[symmetric] map_snd_enumerate)
  have "set (visible_rows merged) \<subseteq> snd ` set rows"
    using sub set_take_subset[of 60 "sort_key ?f L"] unfolding vis by auto
  also have "snd ` set rows = set merged" unfolding rows_def by (simp add: newest_first_def flip: set_map)
  finally show "set (visible_rows merged) \<subseteq> set merged" .
qed

text \<open>The addresses at which \<open>docker-compose.yml\<close> lets the replicas reach each other.\<close>

definition compose_url :: "string \<Rightarrow> string" where
  "compose_url i = ''http://'' @ i @ '':400'' @ drop 7 i"

definition dash_ids :: "string list" where
  "dash_ids = [''replica1'', ''replica2'', ''replica3'']"

definition compose_peers :: "string \<Rightarrow> string list" where
  "compose_peers i = map compose_url (filter (\<lambda>j. j \<noteq> i) dash_ids)"

lemma compose_resolves:
  assumes "a \<in> set dash_ids" "b \<in> set dash_ids" "a \<noteq> b"
  shows "resolvePeer (compose_peers a) (Some b) = Some (compose_url b)" "compose_url b \<noteq> ''all''"
    "compose_url a \<noteq> compose_url b"
proof -
  have "\<forall>a \<in> set dash_ids. \<forall>b \<in> set dash_ids. a \<noteq> b \<longrightarrow>
     resolvePeer (compose_peers a) (Some b) = Some (compose_url b) \<and> compose_url b \<noteq> ''all''
     \<and> compose_url a \<noteq> compose_url b" by code_simp
  with assms show "resolvePeer (compose_peers a) (Some b) = Some (compose_url b)" "compose_url b \<noteq> ''all''"
    "compose_url a \<noteq> compose_url b" by blast+
qed

lemma REPLICAS_ids: "map d_id (REPLICAS h) = dash_ids"
  by (simp add: REPLICAS_def dash_ids_def)

lemma REPLICAS_url: "r \<in> set (REPLICAS h) \<Longrightarrow> r' \<in> set (REPLICAS h) \<Longrightarrow> d_url r = d_url r' \<longleftrightarrow> r = r'"
  by (auto simp: REPLICAS_def)

lemma REPLICAS_id: "r \<in> set (REPLICAS h) \<Longrightarrow> r' \<in> set (REPLICAS h) \<Longrightarrow> d_id r = d_id r' \<longleftrightarrow> r = r'"
  by (auto simp: REPLICAS_def)

lemma find_replica: "r \<in> set (REPLICAS h) \<Longrightarrow> find (\<lambda>x. d_id x = d_id r) (REPLICAS h) = Some r"
  by (auto simp: REPLICAS_def)

lemma filter_replica: "r \<in> set (REPLICAS h) \<Longrightarrow> filter (\<lambda>q. q = r) (REPLICAS h) = [r]"
  by (auto simp: REPLICAS_def)

text \<open>What an isolation asks of each address: of the target, to cut off all others; of each other, to cut off the target.\<close>

definition isolation_of :: "string \<Rightarrow> dash_replica \<Rightarrow> dash_replica \<Rightarrow> string list" where
  "isolation_of h target r = (if r = target then filter (\<lambda>i. i \<noteq> d_id target) dash_ids else [d_id target])"

lemma isolate_posts:
  assumes "target \<in> set (REPLICAS h)" "r \<in> set (REPLICAS h)" "targetSel p = d_id target"
  shows "map snd (filter (\<lambda>x. fst x = d_url r) (handleFaultAction h p ''isolate'' True)) =
    map PartitionPost (isolation_of h target r)"
proof -
  let ?others = "filter (\<lambda>q. d_id q \<noteq> d_id target) (REPLICAS h)"
  have ids: "map d_id ?others = filter (\<lambda>i. i \<noteq> d_id target) dash_ids"
    by (simp add: filter_map o_def flip: REPLICAS_ids[of h])
  have "filter (\<lambda>q. d_url q = d_url r) ?others = filter (\<lambda>q. q = r \<and> q \<noteq> target) (REPLICAS h)"
    unfolding filter_filter using REPLICAS_url[OF _ assms(2)] REPLICAS_id[OF _ assms(1)]
    by (intro filter_cong) auto
  also have "\<dots> = (if r = target then [] else filter (\<lambda>q. q = r) (REPLICAS h))"
    by (auto intro!: filter_cong simp: filter_empty_conv)
  finally have toward: "filter (\<lambda>q. d_url q = d_url r) ?others = (if r = target then [] else [r])"
    using filter_replica[OF assms(2)] by simp
  have "handleFaultAction h p ''isolate'' True =
      map (\<lambda>q. (d_url target, PartitionPost (d_id q))) ?others @
      map (\<lambda>q. (d_url q, PartitionPost (d_id target))) ?others"
    by (simp add: handleFaultAction_def assms(3) find_replica[OF assms(1)] Let_def)
  then have "map snd (filter (\<lambda>x. fst x = d_url r) (handleFaultAction h p ''isolate'' True)) =
      (if d_url target = d_url r then map (\<lambda>q. PartitionPost (d_id q)) ?others else []) @
      map (\<lambda>q. PartitionPost (d_id target)) (filter (\<lambda>q. d_url q = d_url r) ?others)"
    by (simp add: filter_map o_def)
  moreover have "map (\<lambda>q. PartitionPost (d_id q)) ?others = map PartitionPost (filter (\<lambda>i. i \<noteq> d_id target) dash_ids)"
    by (simp flip: ids)
  ultimately show ?thesis
    using REPLICAS_url[OF assms(1,2)] toward by (simp add: isolation_of_def)
qed

subsection \<open>Properties\<close>

text \<open>
  The timeline shows the newest rows. The times of the rows on the timeline are those of the newest
  sixty, and when no two events have the same time it is just these: a fault action that has sixty
  newer events is not shown, although the code puts the ten most recent ones in front first.
\<close>

theorem timeline_shows_newest:
  "map row_ts (visible_rows (rows_of results)) = map row_ts (take 60 (newest_first row_ts (rows_of results)))
 \<and> set (visible_rows (rows_of results)) \<subseteq> set (rows_of results)
 \<and> (distinct (map row_ts (rows_of results)) \<longrightarrow>
      visible_rows (rows_of results) = take 60 (newest_first row_ts (rows_of results)))"
proof (intro conjI impI)
  let ?m = "rows_of results"
  show "map row_ts (visible_rows ?m) = map row_ts (take 60 (newest_first row_ts ?m))" by (rule visible_times)
  show "set (visible_rows ?m) \<subseteq> set ?m" by (rule visible_times)
  assume "distinct (map row_ts ?m)"
  then have inj: "inj_on row_ts (set ?m)" by (simp add: distinct_map)
  have "set (visible_rows ?m) \<subseteq> set ?m" "set (take 60 (newest_first row_ts ?m)) \<subseteq> set ?m"
    using visible_times(2) by (auto simp: newest_first_def dest!: in_set_takeD)
  then have "inj_on row_ts (set (visible_rows ?m) \<union> set (take 60 (newest_first row_ts ?m)))"
    by (intro inj_on_subset[OF inj]) simp
  then show "visible_rows ?m = take 60 (newest_first row_ts ?m)"
    using visible_times(1) by (rule map_inj_on[rotated])
qed

definition demo_timeline :: "poll_result list" where
  "demo_timeline =
     [Up \<lparr>d_id = ''replica1'', d_url = ''http://localhost:4001''\<rparr>
        ((get_metrics demo_server)\<lparr>mb_timeline :=
           map (\<lambda>k. \<lparr>ev_ts = int k, ev_type = ''role:follower'', ev_detail = Some (TermData 1)\<rparr>) (rev [1..<61]) @
           [\<lparr>ev_ts = 0, ev_type = ''fault:cleared'', ev_detail = None\<rparr>]\<rparr>)]"

theorem timeline_shows_newest_witness:
  "''fault:cleared'' \<in> set (map row_type (rows_of demo_timeline)) \<and>
   ''fault:cleared'' \<notin> set (map row_type (visible_rows (rows_of demo_timeline)))"
proof -
  let ?mk = "\<lambda>k. \<lparr>row_ts = int k, row_type = ''role:follower'', row_detail = Some (TermData 1), row_node = ''replica1''\<rparr>"
  let ?z = "\<lparr>row_ts = 0, row_type = ''fault:cleared'', row_detail = None, row_node = ''replica1''\<rparr>"
  have rows: "rows_of demo_timeline = map ?mk (rev [1..<61]) @ [?z]"
    by (simp add: rows_of_def demo_timeline_def ups_def o_def del: upt_Suc)
  have "distinct (map row_ts (rows_of demo_timeline))"
    unfolding rows by (auto simp: o_def distinct_map inj_on_def simp del: upt_Suc)
  then have v: "visible_rows (rows_of demo_timeline) = take 60 (newest_first row_ts (rows_of demo_timeline))"
    using timeline_shows_newest by blast
  have "sorted (map (\<lambda>x. - row_ts x) (rows_of demo_timeline))"
    unfolding rows by (simp add: sorted_append o_def sorted_wrt_map sorted_wrt_rev rev_map[symmetric] del: upt_Suc)
  then have nf: "newest_first row_ts (rows_of demo_timeline) = rows_of demo_timeline"
    unfolding newest_first_def by (rule sort_key_id_if_sorted)
  have "take 60 (rows_of demo_timeline) = map ?mk (rev [1..<61])" unfolding rows by (simp del: upt_Suc)
  then have "visible_rows (rows_of demo_timeline) = map ?mk (rev [1..<61])" by (simp only: v nf)
  then have "map row_type (visible_rows (rows_of demo_timeline)) = map (\<lambda>k. ''role:follower'') (rev [1..<61])"
    by (simp add: o_def del: upt_Suc)
  moreover have "''fault:cleared'' \<in> set (map row_type (rows_of demo_timeline))"
    unfolding rows by (simp del: upt_Suc)
  ultimately show ?thesis by (simp only: set_map) (auto simp del: upt_Suc)
qed

text \<open>
  C36: escaping loses nothing and lets nothing through. Escaped text has no angle bracket and no quote
  in it, so it cannot end the element or the attribute it is put in, and the browser reads it back as the
  text that was escaped.
\<close>

theorem escape_html_roundtrip:
  "read_html (escapeHtml s) = s \<and> set (escapeHtml s) \<inter> {CHR ''<'', CHR ''>'', CHR 0x22, CHR 0x27} = {}"
proof (induction s)
  case (Cons c s)
  have "set (escape_char c) \<inter> {CHR ''<'', CHR ''>'', CHR 0x22, CHR 0x27} = {}" by (auto simp: escape_char_def)
  with Cons show ?case by (auto simp: escapeHtml_def read_escape_char)
qed (simp add: escapeHtml_def)

text \<open>
  C34: isolating a node cuts it off in both directions. With the addresses of \<open>docker-compose.yml\<close> and
  whatever faults were in force before, when the requests of a confirmed isolation get through, every
  call from the target to another replica and from another replica to the target is refused, and
  between the others the set of refused peers is as before.
\<close>

theorem isolation_cuts_both_ways:
  assumes "target \<in> set (REPLICAS h)" "targetSel p = d_id target"
    and "\<forall>r \<in> set (REPLICAS h). PEER_URLS (S (d_url r)) = compose_peers (d_id r)"
    and "r \<in> set (REPLICAS h)" "r \<noteq> target"
    and "S' = administer (handleFaultAction h p ''isolate'' True) S"
  shows "snd (call_begin (compose_url (d_id r)) x (transport (S' (d_url target)))) = PARTITIONED
       \<and> snd (call_begin (compose_url (d_id target)) x (transport (S' (d_url r)))) = PARTITIONED
       \<and> set (partitionedPeers (transport (S' (d_url r)))) =
           insert (compose_url (d_id target)) (set (partitionedPeers (transport (S (d_url r)))))"
proof -
  have peers: "PEER_URLS (S (d_url q)) = compose_peers (d_id q)" if "q \<in> set (REPLICAS h)" for q
    using assms(3) that by blast
  have in_ids: "d_id q \<in> set dash_ids" if "q \<in> set (REPLICAS h)" for q
    using that REPLICAS_ids[of h] by (metis image_eqI set_map)
  have parts: "set (partitionedPeers (transport (S' (d_url q)))) =
      set (partitionedPeers (transport (S (d_url q)))) \<union> compose_url ` set (isolation_of h target q)"
    if q: "q \<in> set (REPLICAS h)" for q
  proof -
    have "d_id q \<noteq> d_id target" if "q \<noteq> target" using that REPLICAS_id[OF q assms(1)] by simp
    then have "\<forall>i \<in> set (isolation_of h target q). i \<in> set dash_ids \<and> i \<noteq> d_id q"
      using in_ids[OF assms(1)] by (auto simp: isolation_of_def)
    then have "\<forall>i \<in> set (isolation_of h target q).
        resolvePeer (PEER_URLS (S (d_url q))) (Some i) = Some (compose_url i) \<and> compose_url i \<noteq> ''all''"
      using compose_resolves(1,2)[OF in_ids[OF q]] unfolding peers[OF q] by metis
    from fold_partition_posts[OF this] show ?thesis
      by (simp only: assms(6) administer_at isolate_posts[OF assms(1) q assms(2)])
  qed
  have ne: "d_id r \<noteq> d_id target" using assms(5) REPLICAS_id[OF assms(4,1)] by simp
  then have "d_id r \<in> set (isolation_of h target target)"
    using in_ids[OF assms(4)] by (simp add: isolation_of_def)
  then have "compose_url (d_id r) \<in> set (partitionedPeers (transport (S' (d_url target))))"
    using parts[OF assms(1)] by blast
  moreover have "set (partitionedPeers (transport (S' (d_url r)))) =
      insert (compose_url (d_id target)) (set (partitionedPeers (transport (S (d_url r)))))"
    using parts[OF assms(4)] assms(5) by (simp add: isolation_of_def)
  ultimately show ?thesis by (simp add: partitioned_call)
qed

definition demo_panel :: panel where
  "demo_panel = \<lparr>targetSel = ''replica1'', peerSel = ''all'', latencyIn = ''300'', dropIn = ''0.5''\<rparr>"

definition demo_fleet :: "string \<Rightarrow> server" where
  "demo_fleet u = (case find (\<lambda>r. d_url r = u) (REPLICAS ''localhost'') of
     Some r \<Rightarrow> new_server (d_id r) 4000 (Some (str_join '','' (compose_peers (d_id r)))) fresh_db 0 0
   | None \<Rightarrow> demo_server)"

theorem isolation_cuts_both_ways_witness:
  "snd (call_begin ''http://replica2:4002'' 0 (transport
     (administer (handleFaultAction ''localhost'' demo_panel ''isolate'' True) demo_fleet ''http://localhost:4001''))) = PARTITIONED"
proof -
  let ?a = "\<lparr>d_id = ''replica1'', d_url = ''http://localhost:4001''\<rparr>"
  let ?b = "\<lparr>d_id = ''replica2'', d_url = ''http://localhost:4002''\<rparr>"
  have "list_all (\<lambda>r. PEER_URLS (demo_fleet (d_url r)) = compose_peers (d_id r)) (REPLICAS ''localhost'')" by code_simp
  then have p: "\<forall>r \<in> set (REPLICAS ''localhost''). PEER_URLS (demo_fleet (d_url r)) = compose_peers (d_id r)"
    by (simp add: list_all_iff)
  have "?a \<in> set (REPLICAS ''localhost'')" "?b \<in> set (REPLICAS ''localhost'')" "targetSel demo_panel = d_id ?a"
    by (simp_all add: REPLICAS_def demo_panel_def)
  from isolation_cuts_both_ways[OF this(1,3) p this(2) _ refl, of 0] show ?thesis by (simp add: compose_url_def)
qed

text \<open>
  The leader's name goes into the page as it is. Anybody who can reach a replica's \<open>/heartbeat\<close>
  with a term that is not old sets the leader that the replica reports, and the card on the
  dashboard has that text, tags and all, in its HTML, without the escaping that errors and events get.
\<close>

theorem dashboard_trusts_leader_name:
  assumes "currentTerm (node s) \<le> hb_term b" "hb_leaderId b \<noteq> []"
  shows "\<exists>pre post. card_html (renderNodeCard (fetchMetrics r (FetchedJson (get_metrics (fst (post_heartbeat b s)))))) =
    pre @ ''<span>leader</span><b>'' @ hb_leaderId b @ ''</b>'' @ post"
proof -
  let ?s = "fst (post_heartbeat b s)"
  have "leaderId (node ?s) = Some (hb_leaderId b)"
    using assms handleAppendEntries_leaderId[of "node s" "heartbeat_call b (node s)"]
    by (simp add: post_heartbeat_def post_append_entries_def heartbeat_call_def case_prod_beta)
  then have st: "st_leaderId (getStatus (node ?s)) = Some (hb_leaderId b)" by (simp add: getStatus_def Let_def)
  let ?l = "stat ''leader'' (or_default (st_leaderId (getStatus (node ?s))) em_dash)"
  have "\<exists>pre post. up_card (getStatus (node ?s)) (getFaultStatus (transport ?s)) = pre @ ?l @ post"
    unfolding up_card_def by (intro template_contains) simp
  then obtain pre post where up: "up_card (getStatus (node ?s)) (getFaultStatus (transport ?s)) =
      (pre @ replicate 6 (CHR '' '')) @ ''<span>leader</span><b>'' @ hb_leaderId b @ ''</b>'' @ post"
    by (auto simp: st stat_def indent_def or_default_def)
  have "card_html (renderNodeCard (fetchMetrics r (FetchedJson (get_metrics ?s)))) =
      up_card (getStatus (node ?s)) (getFaultStatus (transport ?s))"
    by (simp add: renderNodeCard_def fetchMetrics_def get_metrics_def)
  then show ?thesis unfolding up by blast
qed

theorem dashboard_trusts_leader_name_witness:
  "\<exists>pre post. card_html (renderNodeCard (fetchMetrics \<lparr>d_id = ''replica1'', d_url = ''http://localhost:4001''\<rparr>
      (FetchedJson (get_metrics (fst (post_heartbeat
        \<lparr>hb_term = 7, hb_leaderId = ''<img src=x onerror=alert(1)>'', hb_prevLogIndex = None, hb_prevLogTerm = None,
         hb_commitIndex = None, hb_leaderCommit = None\<rparr> demo_server)))))) =
    pre @ ''<span>leader</span><b><img src=x onerror=alert(1)></b>'' @ post"
proof -
  have "currentTerm (node demo_server) \<le> 7" by code_simp
  then show ?thesis
    using dashboard_trusts_leader_name[of demo_server "\<lparr>hb_term = 7, hb_leaderId = ''<img src=x onerror=alert(1)>'',
      hb_prevLogIndex = None, hb_prevLogTerm = None, hb_commitIndex = None, hb_leaderCommit = None\<rparr>"] by simp
qed


lemma call_free_iff:
  assumes "fault_ok t"
  shows "(\<forall>u x. 0 \<le> x \<longrightarrow> snd (call_begin u x t) = Sending 0) \<longleftrightarrow>
    partitionedPeers t = [] \<and> peerLatencyMs t = [] \<and> peerDropProb t = [] \<and>
    globalLatencyMs t = 0 \<and> globalDropProb t = 0"
proof
  assume free: "\<forall>u x. 0 \<le> x \<longrightarrow> snd (call_begin u x t) = Sending 0"
  have c: "u \<notin> set (partitionedPeers t)" "effectiveDrop u t \<le> 0" "effectiveLatency u t = 0" for u
    using free[rule_format, of 0 u] by (auto simp: call_begin_def Let_def effectiveDrop_def effectiveLatency_def split: if_splits)
  have "partitionedPeers t = []" using c(1) by (cases "partitionedPeers t") auto
  moreover have "peerLatencyMs t = []"
  proof (cases "peerLatencyMs t")
    case (Cons kv rest)
    then have "map_get (peerLatencyMs t) (fst kv) = Some (snd kv)" by (cases kv) simp
    moreover from this have "0 < snd kv" using assms by (simp add: fault_ok_def)
    ultimately show ?thesis using c(3)[of "fst kv"] by (simp add: effectiveLatency_def)
  qed simp
  moreover have "peerDropProb t = []"
  proof (cases "peerDropProb t")
    case (Cons kv rest)
    then have "map_get (peerDropProb t) (fst kv) = Some (snd kv)" by (cases kv) simp
    moreover from this have "0 < snd kv" using assms by (simp add: fault_ok_def)
    ultimately show ?thesis using c(2)[of "fst kv"] by (simp add: effectiveDrop_def)
  qed simp
  ultimately show "partitionedPeers t = [] \<and> peerLatencyMs t = [] \<and> peerDropProb t = [] \<and>
      globalLatencyMs t = 0 \<and> globalDropProb t = 0"
    using assms c(2)[of "[]"] c(3)[of "[]"] by (simp add: fault_ok_def effectiveDrop_def effectiveLatency_def)
qed (simp add: call_begin_def Let_def bump_def effectiveDrop_def effectiveLatency_def)

text \<open>
  C35: the card shows whether faults are in force. For every fault setting that the administration can
  make, the list of faults on a card is empty exactly when no call of the replica to any peer is
  refused, dropped or delayed.
\<close>

theorem fault_bits_exact:
  assumes "fault_ok t"
  shows "faultBits (getFaultStatus t) = [] \<longleftrightarrow> (\<forall>u x. 0 \<le> x \<longrightarrow> snd (call_begin u x t) = Sending 0)"
proof -
  have "0 \<le> globalLatencyMs t" "0 \<le> globalDropProb t" using assms by (simp_all add: fault_ok_def)
  then show ?thesis
    unfolding call_free_iff[OF assms] by (auto simp: faultBits_def getFaultStatus_def split: if_splits)
qed

theorem fault_bits_exact_witness:
  "faultBits (getFaultStatus (Transport.setGlobalLatency 50 new_transport)) = [''global +50ms''] \<and>
   \<not> (\<forall>u x. 0 \<le> x \<longrightarrow> snd (call_begin u x (Transport.setGlobalLatency 50 new_transport)) = Sending 0)"
proof -
  have "fault_ok (Transport.setGlobalLatency 50 new_transport)" using fault_ok_new by (simp add: fault_ok_admin)
  moreover have b: "faultBits (getFaultStatus (Transport.setGlobalLatency 50 new_transport)) = [''global +50ms'']" by code_simp
  ultimately show ?thesis using fault_bits_exact[of "Transport.setGlobalLatency 50 new_transport"] by simp
qed

end
