(* ===== verification/Bench_Stats.thy ===== *)
theory Bench_Stats imports Js_Text "HOL-Library.Multiset" begin

text \<open>
  The statistics and the report of the benchmarks (\<open>replicas/bench/stats.js\<close>,
  \<open>replicas/bench/report.js\<close>). Samples are rationals, \<open>NaN\<close> and \<open>undefined\<close> are
  \<open>None\<close>. Text is a list of bytes; the dash is its three bytes in UTF-8. The date, the version and
  the platform of a report are inputs, writing it to a file is not modelled.
\<close>

subsection \<open>Statistics\<close>

text \<open>\<open>percentile\<close> takes its samples in ascending order.\<close>

definition percentile_index :: "nat \<Rightarrow> rat \<Rightarrow> nat" where
  "percentile_index n p = min (n - 1) (nat \<lfloor>p / 100 * of_nat n\<rfloor>)"

definition percentile :: "rat list \<Rightarrow> rat \<Rightarrow> rat option" where
  "percentile sortedAsc p =
     (if sortedAsc = [] then None else Some (sortedAsc ! percentile_index (length sortedAsc) p))"

record summary =
  su_n :: nat
  su_min :: "rat option"
  su_max :: "rat option"
  su_avg :: "rat option"
  su_p50 :: "rat option"
  su_p95 :: "rat option"
  su_p99 :: "rat option"

definition summarize :: "rat list \<Rightarrow> summary" where
  "summarize samples =
     (if samples = []
      then \<lparr>su_n = 0, su_min = None, su_max = None, su_avg = None, su_p50 = None, su_p95 = None, su_p99 = None\<rparr>
      else
        (let s = sort samples; total = foldl (+) 0 s
         in \<lparr>su_n = length s, su_min = Some (hd s), su_max = Some (last s),
             su_avg = Some (total / of_nat (length s)),
             su_p50 = percentile s 50, su_p95 = percentile s 95, su_p99 = percentile s 99\<rparr>))"

subsection \<open>Report\<close>

definition dash :: string where
  "dash = [CHR 0xE2, CHR 0x80, CHR 0x94]"

definition fmtNum :: "rat option \<Rightarrow> string" where
  "fmtNum x =
     (case x of
        None \<Rightarrow> dash
      | Some n \<Rightarrow> if n \<ge> 100 then to_fixed 0 n else if n \<ge> 10 then to_fixed 1 n else to_fixed 2 n)"

datatype bench_result =
    ThroughputResult "int option" int nat "rat option"
  | LatencyResult "int option" summary
  | ReelectResult "int option" summary

definition newline :: string where
  "newline = [CHR 0x0A]"

text \<open>A count that may be \<open>NaN\<close>.\<close>

definition count_text :: "int option \<Rightarrow> string" where
  "count_text k = (case k of Some i \<Rightarrow> show_int i | None \<Rightarrow> ''NaN'')"

text \<open>A row of a table: the cells between bars.\<close>

definition ms_row :: "rat option list \<Rightarrow> string" where
  "ms_row xs = ''| '' @ str_join '' | '' (map (\<lambda>x. fmtNum x @ ''ms'') xs) @ '' |''"

fun result_lines :: "bench_result \<Rightarrow> string list" where
  "result_lines (ThroughputResult clients ms committed rate) =
     [''### Throughput ('' @ count_text clients @ '' concurrent clients)'', [],
      ''| metric | value |'', ''|---|---|'',
      ''| duration | '' @ fmtNum (Some (of_int ms)) @ '' ms |'',
      ''| committed | '' @ show_nat committed @ '' strokes |'',
      ''| **throughput** | **'' @ fmtNum rate @ '' strokes/s** |'']"
| "result_lines (LatencyResult samples s) =
     [''### Commit latency ('' @ count_text samples @ '' serial submits)'', [],
      ''| p50 | p95 | p99 | avg | min | max |'', ''|---|---|---|---|---|---|'',
      ms_row [su_p50 s, su_p95 s, su_p99 s, su_avg s, su_min s, su_max s]]"
| "result_lines (ReelectResult trials s) =
     [''### Time to re-elect after leader kill ('' @ count_text trials @ '' trials)'', [],
      ''| p50 | p95 | avg | min | max |'', ''|---|---|---|---|---|'',
      ms_row [su_p50 s, su_p95 s, su_avg s, su_min s, su_max s]]"

definition renderResult :: "bench_result \<Rightarrow> string" where
  "renderResult r = str_join newline (result_lines r)"

definition renderSection :: "string \<Rightarrow> bench_result list \<Rightarrow> string" where
  "renderSection title results =
     str_join newline ([''## '' @ title, []] @ map (\<lambda>r. renderResult r @ newline) results)"

definition report_header :: "string \<Rightarrow> string \<Rightarrow> string \<Rightarrow> string \<Rightarrow> string" where
  "report_header mode date version platform =
     str_join newline [''# Mini-RAFT benchmark '' @ dash @ '' '' @ mode @ '' mode'', [], ''Run: '' @ date,
       ''Node: '' @ version, ''Platform: '' @ platform, []]"

definition report :: "string \<Rightarrow> string \<Rightarrow> string \<Rightarrow> string \<Rightarrow> (string \<times> bench_result list) list \<Rightarrow> string" where
  "report mode date version platform sections =
     report_header mode date version platform @
     str_join newline (map (\<lambda>(title, results). renderSection title results) sections)"

text \<open>The file's name: the ISO date with colons and points replaced, and the mode.\<close>

definition report_file :: "string \<Rightarrow> string \<Rightarrow> string" where
  "report_file mode date =
     map (\<lambda>c. if c = CHR '':'' \<or> c = CHR ''.'' then CHR ''-'' else c) date @ ''-'' @ mode @ ''.md''"

subsection \<open>What the summary of a sample is\<close>

lemma percentile_index_less: "0 < n \<Longrightarrow> percentile_index n p < n"
  by (simp add: percentile_index_def)

lemma percentile_index_mono: "p \<le> q \<Longrightarrow> percentile_index n p \<le> percentile_index n q"
proof -
  assume "p \<le> q"
  then have "p / 100 * of_nat n \<le> q / 100 * of_nat n" by (intro mult_right_mono divide_right_mono) simp_all
  then have "nat \<lfloor>p / 100 * of_nat n\<rfloor> \<le> nat \<lfloor>q / 100 * of_nat n\<rfloor>" by (intro nat_mono floor_mono)
  then show ?thesis unfolding percentile_index_def by linarith
qed

lemma percentile_mono:
  assumes "sorted s" "s \<noteq> []" "p \<le> q"
  shows "the (percentile s p) \<le> the (percentile s q)"
  using assms by (simp add: percentile_def sorted_nth_mono percentile_index_mono percentile_index_less)

text \<open>How many samples are below, and how many not above, the sample at a position.\<close>

lemma ranks:
  assumes "sorted s" "i < length s"
  shows "length (filter (\<lambda>x. x < s ! i) s) \<le> i" "i + 1 \<le> length (filter (\<lambda>x. x \<le> s ! i) s)"
proof -
  have split: "s = take i s @ drop i s" by simp
  have "x \<in> set (drop i s) \<Longrightarrow> s ! i \<le> x" for x
    using assms by (auto simp: in_set_conv_nth intro!: sorted_nth_mono)
  then have "filter (\<lambda>x. x < s ! i) (drop i s) = []" by (auto simp: filter_empty_conv not_less)
  then have "filter (\<lambda>x. x < s ! i) s = filter (\<lambda>x. x < s ! i) (take i s)"
    by (subst split) (simp only: filter_append append_Nil2)
  also have "length \<dots> \<le> length (take i s)" by (rule length_filter_le)
  finally show "length (filter (\<lambda>x. x < s ! i) s) \<le> i" using assms(2) by simp
  have "\<forall>x \<in> set (take (Suc i) s). x \<le> s ! i"
    using assms by (auto simp: in_set_conv_nth intro!: sorted_nth_mono)
  then have "filter (\<lambda>x. x \<le> s ! i) (take (Suc i) s) = take (Suc i) s" by simp
  then have "length (filter (\<lambda>x. x \<le> s ! i) (take (Suc i) s @ drop (Suc i) s)) \<ge> length (take (Suc i) s)"
    by (simp only: filter_append length_append)
  then show "i + 1 \<le> length (filter (\<lambda>x. x \<le> s ! i) s)" using assms(2) by simp
qed

lemma count_sort: "length (filter P (sort xs)) = length (filter P xs)"
  by (metis mset_filter mset_sort size_mset)

lemma percentile_rank:
  assumes "xs \<noteq> []" "0 \<le> p" "p < 100" "percentile (sort xs) p = Some v"
  shows "v \<in> set xs"
    and "of_nat (length (filter (\<lambda>x. x < v) xs)) \<le> p / 100 * of_nat (length xs)"
    and "p / 100 * of_nat (length xs) < of_nat (length (filter (\<lambda>x. x \<le> v) xs))"
proof -
  let ?n = "length xs" and ?r = "p / 100 * of_nat (length xs)"
  have n: "0 < ?n" using assms(1) by simp
  define i where "i = percentile_index ?n p"
  have "?r < of_nat ?n" using n assms(3) by (simp add: field_simps)
  then have "\<lfloor>?r\<rfloor> < int ?n" by (simp add: floor_less_iff)
  then have "nat \<lfloor>?r\<rfloor> \<le> ?n - 1" using n by linarith
  then have i: "i = nat \<lfloor>?r\<rfloor>" by (simp add: i_def percentile_index_def)
  have "0 \<le> ?r" using assms(2) by simp
  then have "of_nat i = (of_int \<lfloor>?r\<rfloor> :: rat)" unfolding i by (intro of_nat_nat) simp
  with floor_correct[of ?r] have fl: "of_nat i \<le> ?r" "?r < of_nat i + 1" by simp_all
  have il: "i < length (sort xs)" using percentile_index_less[OF n, of p] by (simp add: i_def)
  have v: "v = sort xs ! i" using assms(4) n by (simp add: percentile_def i_def split: if_splits)
  then show "v \<in> set xs" using nth_mem[OF il] by simp
  note rk = ranks[OF sorted_sort il, folded v, unfolded count_sort]
  show "of_nat (length (filter (\<lambda>x. x < v) xs)) \<le> ?r" using rk(1) fl(1) by (meson of_nat_mono order_trans)
  have "of_nat i + 1 \<le> (of_nat (length (filter (\<lambda>x. x \<le> v) xs)) :: rat)"
    using rk(2) by (metis of_nat_1 of_nat_add of_nat_mono)
  with fl(2) show "?r < of_nat (length (filter (\<lambda>x. x \<le> v) xs))" by linarith
qed

subsection \<open>Properties\<close>

text \<open>
  \<open>v\<close> is the percentile \<open>p\<close> of the samples: one of them, with at most that share of the samples below
  it and more than that share not above it.
\<close>

definition has_rank :: "rat list \<Rightarrow> rat \<Rightarrow> rat \<Rightarrow> bool" where
  "has_rank xs p v \<longleftrightarrow> v \<in> set xs \<and>
     of_nat (length (filter (\<lambda>x. x < v) xs)) \<le> p / 100 * of_nat (length xs) \<and>
     p / 100 * of_nat (length xs) < of_nat (length (filter (\<lambda>x. x \<le> v) xs))"

lemma percentile_has_rank:
  assumes "xs \<noteq> []" "0 \<le> p" "p < 100"
  shows "\<exists>v. percentile (sort xs) p = Some v \<and> has_rank xs p v"
proof -
  have "sort xs \<noteq> []" using assms(1) by (metis length_0_conv length_sort)
  then obtain v where v: "percentile (sort xs) p = Some v" by (simp add: percentile_def)
  from percentile_rank[OF assms v] v show ?thesis by (simp add: has_rank_def)
qed

text \<open>
  C40: the summary of a benchmark. For a sample that is not empty it does not depend on the order in which the
  values were taken; the smallest and the largest value are those of the sample; and the three percentiles it
  reports are in order, each a value of the sample of the right rank (50, 95 and 99 per cent). Nothing is said
  of the average: the program sums floating point numbers, whose rounding the model does not have.
\<close>

theorem summary_correct:
  assumes "xs \<noteq> []" "mset ys = mset xs"
  shows "summarize ys = summarize xs
       \<and> (\<exists>lo hi p50 p95 p99. su_n (summarize xs) = length xs
          \<and> su_min (summarize xs) = Some lo \<and> su_max (summarize xs) = Some hi
          \<and> su_p50 (summarize xs) = Some p50 \<and> su_p95 (summarize xs) = Some p95 \<and> su_p99 (summarize xs) = Some p99
          \<and> lo \<in> set xs \<and> hi \<in> set xs \<and> (\<forall>x \<in> set xs. lo \<le> x \<and> x \<le> hi)
          \<and> p50 \<le> p95 \<and> p95 \<le> p99 \<and> has_rank xs 50 p50 \<and> has_rank xs 95 p95 \<and> has_rank xs 99 p99)"
proof
  let ?s = "sort xs"
  have ne: "?s \<noteq> []" using assms(1) by (metis length_0_conv length_sort)
  have "sort ys = ?s" using assms(2) by (intro properties_for_sort) simp_all
  moreover have "ys \<noteq> []" using assms by auto
  ultimately show "summarize ys = summarize xs" using assms(1) by (simp add: summarize_def)
  obtain a b c where v: "percentile ?s 50 = Some a" "has_rank xs 50 a" "percentile ?s 95 = Some b" "has_rank xs 95 b"
    "percentile ?s 99 = Some c" "has_rank xs 99 c"
    using percentile_has_rank[OF assms(1), of 50] percentile_has_rank[OF assms(1), of 95]
      percentile_has_rank[OF assms(1), of 99] by (simp, blast)
  have mono: "a \<le> b" "b \<le> c"
    using percentile_mono[OF sorted_sort ne, of 50 95] percentile_mono[OF sorted_sort ne, of 95 99] v by simp_all
  have bound: "\<forall>x \<in> set ?s. hd ?s \<le> x \<and> x \<le> last ?s"
    using ne by (auto simp: in_set_conv_nth hd_conv_nth last_conv_nth intro!: sorted_nth_mono simp del: set_sort)
  have ends: "hd ?s \<in> set xs" "last ?s \<in> set xs" using hd_in_set[OF ne] last_in_set[OF ne] by simp_all
  show "\<exists>lo hi p50 p95 p99. su_n (summarize xs) = length xs
          \<and> su_min (summarize xs) = Some lo \<and> su_max (summarize xs) = Some hi
          \<and> su_p50 (summarize xs) = Some p50 \<and> su_p95 (summarize xs) = Some p95 \<and> su_p99 (summarize xs) = Some p99
          \<and> lo \<in> set xs \<and> hi \<in> set xs \<and> (\<forall>x \<in> set xs. lo \<le> x \<and> x \<le> hi)
          \<and> p50 \<le> p95 \<and> p95 \<le> p99 \<and> has_rank xs 50 p50 \<and> has_rank xs 95 p95 \<and> has_rank xs 99 p99"
    by (rule exI[of _ "hd ?s"], rule exI[of _ "last ?s"], rule exI[of _ a], rule exI[of _ b], rule exI[of _ c])
      (use assms(1) v mono ends bound in \<open>simp add: summarize_def Let_def\<close>)
qed

theorem summary_correct_witness:
  "summarize [3, 1, 2] = summarize [1, 2, 3] \<and> su_p50 (summarize [1, 2, 3]) = Some 2"
proof -
  have "summarize [3, 1, 2] = summarize [1, 2, 3]" using summary_correct[of "[1, 2, 3]" "[3, 1, 2]"] by simp
  moreover have "su_p50 (summarize [1, 2, 3]) = Some 2" by code_simp
  ultimately show ?thesis by simp
qed

end
