(* ===== verification/Bench.thy ===== *)
theory Bench imports Bench_Stats Admin_Api begin

text \<open>
  The benchmarks (\<open>replicas/bench/bench.js\<close>, \<open>scenarios.js\<close>, \<open>http.js\<close>,
  \<open>inprocess.js\<close>): command line, drivers, scenarios and the plan of a run. Clock readings and the
  outcomes of requests are inputs, in the order in which the code meets them.
\<close>

subsection \<open>Command line\<close>

text \<open>
  \<open>arg\<close> gives \<open>None\<close> for \<open>undefined\<close>, when the option is the last argument; \<open>parseInt\<close> makes
  \<open>NaN\<close>, again \<open>None\<close>, of that.
\<close>

fun index_of :: "'a \<Rightarrow> 'a list \<Rightarrow> nat option" where
  "index_of x [] = None"
| "index_of x (y # ys) = (if y = x then Some 0 else map_option Suc (index_of x ys))"

definition arg :: "string list \<Rightarrow> string \<Rightarrow> string \<Rightarrow> string option" where
  "arg args name def =
     (case index_of (''--'' @ name) args of
        None \<Rightarrow> Some def
      | Some i \<Rightarrow> if i + 1 < length args then Some (args ! (i + 1)) else None)"

definition flag :: "string list \<Rightarrow> string \<Rightarrow> bool" where
  "flag args name \<longleftrightarrow> ''--'' @ name \<in> set args"

definition int_arg :: "string list \<Rightarrow> string \<Rightarrow> string \<Rightarrow> int option" where
  "int_arg args name def = (case arg args name def of None \<Rightarrow> None | Some s \<Rightarrow> parse_int s)"

record bench_options =
  MODE :: "string option"
  DURATION :: "int option"
  CLIENTS :: "int option"
  LATENCY_SAMPLES :: "int option"
  REELECT_TRIALS :: "int option"
  SKIP_FAULTS :: bool
  SKIP_REELECT :: bool

definition bench_options :: "string list \<Rightarrow> bench_options" where
  "bench_options args =
     \<lparr>MODE = arg args ''mode'' ''inprocess'', DURATION = int_arg args ''duration'' ''5000'',
      CLIENTS = int_arg args ''clients'' ''4'', LATENCY_SAMPLES = int_arg args ''latency-samples'' ''200'',
      REELECT_TRIALS = int_arg args ''reelect-trials'' ''5'', SKIP_FAULTS = flag args ''skip-faults'',
      SKIP_REELECT = flag args ''skip-reelect''\<rparr>"

datatype driver = InProcessDriver | HttpDriver

text \<open>\<open>None\<close> is the exception for an unknown mode.\<close>

definition makeDriver :: "string option \<Rightarrow> driver option" where
  "makeDriver mode =
     (if mode = Some ''inprocess'' then Some InProcessDriver
      else if mode = Some ''http'' then Some HttpDriver else None)"

subsection \<open>The HTTP driver\<close>

record http_driver =
  hd_gatewayUrl :: string
  hd_replicas :: "(string \<times> string) list"

definition DEFAULT_REPLICAS :: "string option \<Rightarrow> (string \<times> string) list" where
  "DEFAULT_REPLICAS env =
     map (\<lambda>(i, url). (''replica'' @ show_nat (i + 1), url))
       (enumerate 0 (filter (\<lambda>u. u \<noteq> []) (str_split (CHR '','')
          (env_or env ''http://localhost:4001,http://localhost:4002,http://localhost:4003''))))"

definition http_driver :: "string option \<Rightarrow> string option \<Rightarrow> http_driver" where
  "http_driver gateway urls =
     \<lparr>hd_gatewayUrl = env_or gateway ''http://localhost:3000'', hd_replicas = DEFAULT_REPLICAS urls\<rparr>"

text \<open>The first leader among the replicas; an answer is the reported role, \<open>None\<close> a failed request.\<close>

fun findLeader :: "(string \<times> string) list \<Rightarrow> role option list \<Rightarrow> (string \<times> string) option" where
  "findLeader (r # rs) (a # as) = (if a = Some LEADER then Some r else findLeader rs as)"
| "findLeader rs as = None"

text \<open>
  Waiting for something that is looked for again and again: each look has the time elapsed at its
  start and what it finds. \<open>Waiting\<close> is a wait that has not ended yet.
\<close>

datatype 'a wait = Found 'a | TimedOut | Waiting

fun wait_for :: "int \<Rightarrow> (int \<times> 'a option) list \<Rightarrow> 'a wait" where
  "wait_for timeoutMs [] = Waiting"
| "wait_for timeoutMs ((elapsed, seen) # looks) =
     (if elapsed < timeoutMs
      then (case seen of Some x \<Rightarrow> Found x | None \<Rightarrow> wait_for timeoutMs looks)
      else TimedOut)"

definition http_waitForLeader ::
  "http_driver \<Rightarrow> int \<Rightarrow> (int \<times> role option list) list \<Rightarrow> (string \<times> string) wait" where
  "http_waitForLeader d timeoutMs looks =
     wait_for timeoutMs (map (\<lambda>(t, as). (t, findLeader (hd_replicas d) as)) looks)"

text \<open>\<open>_broadcastAdmin\<close>: one request per replica; failures are ignored.\<close>

definition broadcastAdmin :: "http_driver \<Rightarrow> admin_post \<Rightarrow> (string \<times> admin_post) list" where
  "broadcastAdmin d p = map (\<lambda>r. (snd r, p)) (hd_replicas d)"

definition http_setGlobalLatency :: "http_driver \<Rightarrow> int \<Rightarrow> (string \<times> admin_post) list" where
  "http_setGlobalLatency d ms = broadcastAdmin d (LatencyPost ''all'' (Some ms))"

definition http_setGlobalDrop :: "http_driver \<Rightarrow> rat \<Rightarrow> (string \<times> admin_post) list" where
  "http_setGlobalDrop d prob = broadcastAdmin d (DropPost ''all'' (Some prob))"

definition http_clearFaults :: "http_driver \<Rightarrow> (string \<times> admin_post) list" where
  "http_clearFaults d = broadcastAdmin d ClearPost"

definition http_teardown :: "http_driver \<Rightarrow> (string \<times> admin_post) list" where
  "http_teardown d = http_clearFaults d"

datatype setup_result =
    Unreachable string
  | NoLeader
  | Ready "(string \<times> admin_post) list"

text \<open>\<open>setup\<close>: which replicas answer, and how waiting for a leader ended.\<close>

definition http_setup :: "http_driver \<Rightarrow> bool list \<Rightarrow> (string \<times> string) wait \<Rightarrow> setup_result" where
  "http_setup d reached leader =
     (case find (\<lambda>(r, ok). \<not> ok) (zip (hd_replicas d) reached) of
        Some (r, _) \<Rightarrow> Unreachable (snd r)
      | None \<Rightarrow> (case leader of Found l \<Rightarrow> Ready (http_clearFaults d) | _ \<Rightarrow> NoLeader))"

definition http_killLeader ::
  "http_driver \<Rightarrow> role option list \<Rightarrow> (string \<times> admin_post) list \<times> string option" where
  "http_killLeader d seen =
     (case findLeader (hd_replicas d) seen of
        None \<Rightarrow> ([], None)
      | Some l \<Rightarrow> ([(snd l, CrashPost)], Some (fst l)))"

text \<open>The stroke of a submission; \<open>extra\<close> is the optional payload.\<close>

definition line_fields :: "int \<Rightarrow> jobj" where
  "line_fields q = [(''x1'', JInt q), (''y1'', JInt q), (''x2'', JInt (q + 1)), (''y2'', JInt (q + 1))]"

definition http_stroke :: "string \<Rightarrow> int \<Rightarrow> jobj \<Rightarrow> payload" where
  "http_stroke clientId sq extra =
     \<lparr>p_clientId = Some clientId, p_seq = Some sq,
      p_fields = obj_spread (line_fields sq @ [(''color'', JStr ''#000''), (''size'', JInt 2)]) extra\<rparr>"

definition inprocess_stroke :: "string \<Rightarrow> int \<Rightarrow> jobj \<Rightarrow> payload" where
  "inprocess_stroke clientId sq extra =
     \<lparr>p_clientId = Some clientId, p_seq = Some sq, p_fields = obj_spread (line_fields sq) extra\<rparr>"

text \<open>
  One submission: what each attempt meets, and how the call ends. \<open>Undefined\<close> is a normal return
  without a value.
\<close>

datatype 'r attempt = Answers 'r | Fails | SeesNoLeader

datatype 'r submission = Returns 'r | Undefined | Throws | Trying

fun http_attempts :: "nat \<Rightarrow> 'r attempt list \<Rightarrow> 'r submission" where
  "http_attempts k [] = (if k < 8 then Trying else Undefined)"
| "http_attempts k (a # as) =
     (if k < 8 then
        (case a of
           Answers r \<Rightarrow> Returns r
         | _ \<Rightarrow> if k = 7 then Throws else http_attempts (k + 1) as)
      else Undefined)"

definition http_submitOne :: "'r attempt list \<Rightarrow> 'r submission" where
  "http_submitOne as = http_attempts 0 as"

subsection \<open>The in-process driver\<close>

record member =
  m_id :: string
  m_node :: node
  m_transport :: transport

type_synonym live_cluster = "member list"

definition inprocess_config :: config where
  "inprocess_config = default_config\<lparr>heartbeatMs := 50, electionMinMs := 200, electionMaxMs := 350,
     rpcTimeoutMs := 200\<rparr>"

definition currentLeader :: "live_cluster \<Rightarrow> member option" where
  "currentLeader live = find (\<lambda>m. role (m_node m) = LEADER) live"

definition on_transports :: "(transport \<Rightarrow> transport) \<Rightarrow> live_cluster \<Rightarrow> live_cluster" where
  "on_transports f live = map (\<lambda>m. m\<lparr>m_transport := f (m_transport m)\<rparr>) live"

definition inprocess_setGlobalLatency :: "int \<Rightarrow> live_cluster \<Rightarrow> live_cluster" where
  "inprocess_setGlobalLatency ms live = on_transports (Transport.setGlobalLatency ms) live"

definition inprocess_setGlobalDrop :: "rat \<Rightarrow> live_cluster \<Rightarrow> live_cluster" where
  "inprocess_setGlobalDrop prob live = on_transports (Transport.setGlobalDrop prob) live"

definition inprocess_clearFaults :: "live_cluster \<Rightarrow> live_cluster" where
  "inprocess_clearFaults live = on_transports clearAllFaults live"

text \<open>\<open>killNode\<close> of the test harness takes the node out of the live ones.\<close>

definition inprocess_killLeader :: "live_cluster \<Rightarrow> live_cluster \<times> string option" where
  "inprocess_killLeader live =
     (case currentLeader live of
        None \<Rightarrow> (live, None)
      | Some l \<Rightarrow> (filter (\<lambda>m. m_id m \<noteq> m_id l) live, Some (m_id l)))"

fun inprocess_attempts :: "nat \<Rightarrow> 'r attempt list \<Rightarrow> 'r submission" where
  "inprocess_attempts k [] = (if k < 5 then Trying else Undefined)"
| "inprocess_attempts k (a # as) =
     (if k < 5 then
        (case a of
           SeesNoLeader \<Rightarrow> inprocess_attempts (k + 1) as
         | Answers r \<Rightarrow> Returns r
         | Fails \<Rightarrow> if k = 4 then Throws else inprocess_attempts (k + 1) as)
      else Undefined)"

definition inprocess_submitOne :: "'r attempt list \<Rightarrow> 'r submission" where
  "inprocess_submitOne as = inprocess_attempts 0 as"

text \<open>Whether awaiting a submission goes on normally.\<close>

definition goes_on :: "'r submission \<Rightarrow> bool" where
  "goes_on s \<longleftrightarrow> (case s of Returns _ \<Rightarrow> True | Undefined \<Rightarrow> True | _ \<Rightarrow> False)"

subsection \<open>Scenarios\<close>

text \<open>
  \<open>throughput\<close>: its clients, each in a loop that looks at the clock, submits and waits. \<open>tp_calls\<close>
  records the identities submitted, in order.
\<close>

record tp_client =
  tc_id :: string
  tc_seq :: int
  tc_running :: bool

record throughput_run =
  tp_t0 :: rat
  tp_durationMs :: "int option"
  tp_clients :: "tp_client list"
  totalCommitted :: nat
  tp_calls :: "(string \<times> int) list"

definition tp_id :: "string \<Rightarrow> nat \<Rightarrow> string" where
  "tp_id tag i = tag @ ''-tp-'' @ show_nat (i + 1)"

text \<open>The head of client \<open>i\<close>'s loop at time \<open>t\<close>; a comparison with \<open>NaN\<close> is false.\<close>

definition tp_loop :: "nat \<Rightarrow> rat \<Rightarrow> throughput_run \<Rightarrow> throughput_run" where
  "tp_loop i t s =
     (let c = tp_clients s ! i;
          goes = (case tp_durationMs s of Some d \<Rightarrow> t - tp_t0 s < of_int d | None \<Rightarrow> False)
      in if goes then s\<lparr>tp_calls := tp_calls s @ [(tc_id c, tc_seq c)]\<rparr>
         else s\<lparr>tp_clients := (tp_clients s)[i := c\<lparr>tc_running := False\<rparr>]\<rparr>)"

definition tp_begin :: "string \<Rightarrow> int option \<Rightarrow> int option \<Rightarrow> rat \<Rightarrow> rat \<Rightarrow> throughput_run" where
  "tp_begin tag cls durationMs t0 t =
     (let n = (case cls of Some k \<Rightarrow> nat k | None \<Rightarrow> 0)
      in fold (\<lambda>i. tp_loop i t) [0..<n]
        \<lparr>tp_t0 = t0, tp_durationMs = durationMs,
         tp_clients = map (\<lambda>i. \<lparr>tc_id = tp_id tag i, tc_seq = 1, tc_running = True\<rparr>) [0..<n],
         totalCommitted = 0, tp_calls = []\<rparr>)"

text \<open>The submission of client \<open>i\<close> ends, and the client is back at its loop at time \<open>t\<close>.\<close>

definition tp_answer :: "nat \<Rightarrow> 'r submission \<Rightarrow> rat \<Rightarrow> throughput_run \<Rightarrow> throughput_run" where
  "tp_answer i sub t s =
     (let c = tp_clients s ! i
      in tp_loop i t
        (if goes_on sub
         then s\<lparr>tp_clients := (tp_clients s)[i := c\<lparr>tc_seq := tc_seq c + 1\<rparr>],
                totalCommitted := totalCommitted s + 1\<rparr>
         else s))"

definition tp_result :: "int option \<Rightarrow> rat \<Rightarrow> throughput_run \<Rightarrow> bench_result" where
  "tp_result cls t s =
     (let elapsedMs = t - tp_t0 s
      in ThroughputResult cls (js_round elapsedMs) (totalCommitted s)
           (if elapsedMs = 0 then None else Some (of_nat (totalCommitted s) / elapsedMs * 1000)))"

text \<open>\<open>commitLatency\<close>: per sample the clock before, the submission, the clock after; \<open>None\<close> is a throw.\<close>

definition latency_id :: "string \<Rightarrow> string" where
  "latency_id tag = tag @ ''-lat''"

fun latency_samples :: "nat \<Rightarrow> (rat \<times> 'r submission \<times> rat) list \<Rightarrow> rat list option" where
  "latency_samples 0 runs = Some []"
| "latency_samples (Suc k) [] = None"
| "latency_samples (Suc k) ((t0, sub, t1) # runs) =
     (if goes_on sub then map_option (\<lambda>ls. (t1 - t0) # ls) (latency_samples k runs) else None)"

definition commitLatency :: "int option \<Rightarrow> (rat \<times> 'r submission \<times> rat) list \<Rightarrow> bench_result option" where
  "commitLatency samples runs =
     map_option (\<lambda>ls. LatencyResult samples (summarize ls))
       (latency_samples (case samples of Some k \<Rightarrow> nat k | None \<Rightarrow> 0) runs)"

text \<open>
  \<open>timeToReelect\<close>: after the kill at \<open>t0\<close>, at most 200 polls, each with whether it found a leader and
  the clock after it. A trial also has how waiting for a leader ended before the kill.
\<close>

fun reelect_gap :: "nat \<Rightarrow> rat \<Rightarrow> (bool \<times> rat) list \<Rightarrow> rat option" where
  "reelect_gap 0 t0 polls = None"
| "reelect_gap (Suc k) t0 [] = None"
| "reelect_gap (Suc k) t0 ((found, t) # polls) = (if found then Some (t - t0) else reelect_gap k t0 polls)"

fun reelect_gaps :: "nat \<Rightarrow> (bool \<times> rat \<times> (bool \<times> rat) list) list \<Rightarrow> rat list option" where
  "reelect_gaps 0 trials = Some []"
| "reelect_gaps (Suc k) [] = None"
| "reelect_gaps (Suc k) ((leader, t0, polls) # trials) =
     (if leader
      then (case reelect_gap 200 t0 polls of
              None \<Rightarrow> None
            | Some g \<Rightarrow> map_option (\<lambda>gs. g # gs) (reelect_gaps k trials))
      else None)"

definition timeToReelect :: "int option \<Rightarrow> (bool \<times> rat \<times> (bool \<times> rat) list) list \<Rightarrow> bench_result option" where
  "timeToReelect trials runs =
     map_option (\<lambda>gs. ReelectResult trials (summarize gs))
       (reelect_gaps (case trials of Some k \<Rightarrow> nat k | None \<Rightarrow> 0) runs)"

subsection \<open>The plan of a run\<close>

datatype bench_call =
    RunThroughput string "int option" "int option"
  | RunLatency string "int option"
  | SetGlobalLatency int
  | SetGlobalDrop rat
  | ClearFaults
  | Sleep int
  | RunReelect "int option"

text \<open>\<open>Math.min\<close> with a constant, \<open>NaN\<close> if the other is.\<close>

definition min_arg :: "int \<Rightarrow> int option \<Rightarrow> int option" where
  "min_arg k x = map_option (min k) x"

definition bench_plan :: "bench_options \<Rightarrow> bench_call list" where
  "bench_plan ops =
     [RunThroughput ''s1'' (CLIENTS ops) (DURATION ops), RunLatency ''s2'' (LATENCY_SAMPLES ops)] @
     (if SKIP_FAULTS ops then [] else
        [SetGlobalLatency 50, Sleep 300,
         RunThroughput ''s3'' (CLIENTS ops) (DURATION ops), RunLatency ''s4'' (min_arg 100 (LATENCY_SAMPLES ops)),
         ClearFaults, Sleep 300,
         SetGlobalDrop (5 / 100), Sleep 300,
         RunThroughput ''s5'' (CLIENTS ops) (DURATION ops), RunLatency ''s6'' (min_arg 100 (LATENCY_SAMPLES ops)),
         ClearFaults, Sleep 300]) @
     (if SKIP_REELECT ops then [] else
        [RunReelect (if MODE ops = Some ''inprocess'' then min_arg 1 (REELECT_TRIALS ops) else REELECT_TRIALS ops)])"

text \<open>The sections of the report, from the results of the calls of the plan.\<close>

definition bench_sections :: "bench_options \<Rightarrow> (bench_call \<Rightarrow> bench_result) \<Rightarrow> (string \<times> bench_result list) list" where
  "bench_sections ops res =
     (let tp = (\<lambda>tag. res (RunThroughput tag (CLIENTS ops) (DURATION ops)));
          lat = (\<lambda>tag. res (RunLatency tag (min_arg 100 (LATENCY_SAMPLES ops))))
      in [(''Steady state (no faults)'', [tp ''s1'', res (RunLatency ''s2'' (LATENCY_SAMPLES ops))])] @
         (if SKIP_FAULTS ops then [] else
            [(''Under injected +50ms RPC latency'', [tp ''s3'', lat ''s4'']),
             (''Under 5% message drop rate'', [tp ''s5'', lat ''s6''])]) @
         (if SKIP_REELECT ops then [] else
            [(''Recovery: leader kill'', [res (last (bench_plan ops))])]))"

subsection \<open>Facts\<close>

lemma findLeader_at:
  assumes "length as = length pre" "Some LEADER \<notin> set as"
  shows "findLeader (pre @ r # post) (as @ a # as') = (if a = Some LEADER then Some r else findLeader post as')"
  using assms by (induction as pre rule: list_induct2) auto

lemma http_attempts_fail:
  "\<forall>a \<in> set as. \<forall>r. a \<noteq> Answers r \<Longrightarrow> k + length as < 8 \<Longrightarrow> http_attempts k (as @ bs) = http_attempts (k + length as) bs"
  by (induction as arbitrary: k) (auto split: attempt.split)

lemma inprocess_attempts_fail:
  "\<forall>a \<in> set as. \<forall>r. a \<noteq> Answers r \<Longrightarrow> k + length as < 5 \<Longrightarrow>
   inprocess_attempts k (as @ bs) = inprocess_attempts (k + length as) bs"
  by (induction as arbitrary: k) (auto split: attempt.split)

text \<open>The loop of a client keeps its count; an answer that goes on adds one, and to the total too.\<close>

lemma tp_loop_facts:
  "totalCommitted (tp_loop i t s) = totalCommitted s"
  "map tc_seq (tp_clients (tp_loop i t s)) = map tc_seq (tp_clients s)"
  "map tc_id (tp_clients (tp_loop i t s)) = map tc_id (tp_clients s)"
  "length (tp_clients (tp_loop i t s)) = length (tp_clients s)"
  by (auto simp: tp_loop_def Let_def map_update intro!: nth_equalityI)
    (metis (no_types, lifting) list_update_beyond list_update_id map_update not_le nth_map tp_client.ext_inject
      tp_client.surjective tp_client.update_convs(3))+

lemma dedupe_covers:
  assumes "sorted_wrt (<) (map e_index es)" "\<forall>e \<in> set es. 0 \<le> e_index e" "int (card (clients es)) \<le> mx"
    and "e \<in> set es" "ident e = Some (cid, q')" "q \<le> q'"
  shows "getDedupeIndex (apply_log es (new_state_machine mx)) cid q \<noteq> None"
proof -
  have t: "table_of es (dedupe (apply_log es (new_state_machine mx)))" using apply_log_dedupe[OF assms(1-3)] by blast
  have "cid \<in> clients es" using assms(4,5) by (auto simp: mem_clients)
  then obtain d where d: "map_get (dedupe (apply_log es (new_state_machine mx))) cid = Some d"
    using table_of_None[OF t, of cid] by auto
  with table_of_Some(2)[OF t d assms(4,5)] assms(6) show ?thesis by (simp add: getDedupeIndex_def)
qed

lemma ident_http_stroke:
  "e_type e = STROKE \<Longrightarrow> e_payload e = Some (http_stroke cid q x) \<Longrightarrow> ident e = Some (cid, q)"
  by (simp add: ident_def payload_of_def http_stroke_def)

text \<open>The clients whose strokes a call of the plan submits, and the faults it leaves in force.\<close>

fun call_clients :: "bench_call \<Rightarrow> string set" where
  "call_clients (RunThroughput tag cls d) = {tp_id tag i |i. \<exists>n. cls = Some n \<and> int i < n}"
| "call_clients (RunLatency tag n) = {latency_id tag}"
| "call_clients _ = {}"

fun call_faults :: "bench_call \<Rightarrow> int \<times> rat \<Rightarrow> int \<times> rat" where
  "call_faults (SetGlobalLatency ms) f = (ms, snd f)"
| "call_faults (SetGlobalDrop p) f = (fst f, p)"
| "call_faults ClearFaults f = (0, 0)"
| "call_faults _ f = f"

definition faults_at :: "bench_call list \<Rightarrow> nat \<Rightarrow> int \<times> rat" where
  "faults_at cs k = fold call_faults (take k cs) (0, 0)"

text \<open>Each call of a list with the faults in force when it is made.\<close>

fun with_faults :: "int \<times> rat \<Rightarrow> bench_call list \<Rightarrow> (bench_call \<times> (int \<times> rat)) list" where
  "with_faults f [] = []"
| "with_faults f (c # cs) = (c, f) # with_faults (call_faults c f) cs"

lemma with_faults_nth:
  "k < length cs \<Longrightarrow> with_faults f cs ! k = (cs ! k, fold call_faults (take k cs) f)"
  by (induction cs arbitrary: f k) (auto simp: nth_Cons split: nat.split)

lemma length_with_faults [simp]: "length (with_faults f cs) = length cs"
  by (induction cs arbitrary: f) auto

definition named_faults :: "bench_call \<times> (int \<times> rat) \<Rightarrow> bool" where
  "named_faults x =
     (case fst x of
        RunThroughput tag cls d \<Rightarrow>
          snd x = (if tag = ''s3'' then (50, 0) else if tag = ''s5'' then (0, 5 / 100) else (0, 0))
      | RunLatency tag n \<Rightarrow>
          snd x = (if tag = ''s4'' then (50, 0) else if tag = ''s6'' then (0, 5 / 100) else (0, 0))
      | RunReelect n \<Rightarrow> snd x = (0, 0)
      | _ \<Rightarrow> True)"

lemma plan_named: "list_all named_faults (with_faults (0, 0) (bench_plan ops))"
  by (cases "SKIP_FAULTS ops"; cases "SKIP_REELECT ops"; simp add: bench_plan_def named_faults_def)

text \<open>The tags of a plan are different, and a client's name starts with its tag.\<close>

fun call_tags :: "bench_call \<Rightarrow> string list" where
  "call_tags (RunThroughput tag cls d) = [tag]"
| "call_tags (RunLatency tag n) = [tag]"
| "call_tags _ = []"

lemma plan_tags:
  "distinct (concat (map call_tags (bench_plan ops)))"
  "list_all (\<lambda>c. list_all (\<lambda>t. length t = 2) (call_tags c)) (bench_plan ops)"
  by (cases "SKIP_FAULTS ops"; cases "SKIP_REELECT ops"; simp add: bench_plan_def)+

lemma client_tag:
  "x \<in> call_clients c \<Longrightarrow> list_all (\<lambda>t. length t = 2) (call_tags c) \<Longrightarrow> call_tags c = [take 2 x]"
  by (cases c) (auto simp: tp_id_def latency_id_def)

lemma distinct_concat_nth:
  assumes "distinct (concat xss)" "i < j" "j < length xss"
  shows "set (xss ! i) \<inter> set (xss ! j) = {}"
proof -
  have i: "i < length xss" using assms(2,3) by simp
  have s: "xss = take i xss @ xss ! i # drop (Suc i) xss" by (rule id_take_nth_drop[OF i])
  have "distinct (concat (take i xss @ xss ! i # drop (Suc i) xss))" using assms(1) s by simp
  then have d: "set (xss ! i) \<inter> set (concat (drop (Suc i) xss)) = {}" by simp
  have "drop (Suc i) xss ! (j - Suc i) = xss ! j" using assms(2,3) by simp
  moreover have "j - Suc i < length (drop (Suc i) xss)" using assms(2,3) by simp
  ultimately have "xss ! j \<in> set (drop (Suc i) xss)" by (metis nth_mem)
  with d show ?thesis by auto
qed

subsection \<open>Properties\<close>

text \<open>
  Retries of a submission. Over HTTP a submission returns the first answer among its first eight
  attempts and throws when all eight fail. In process it makes five: it returns the first answer, throws
  when the fifth fails, and when the fifth finds no leader, after four without an answer, it returns
  normally with no value; the caller then counts a stroke as committed that was never submitted.
\<close>

theorem submission_attempts:
  assumes "\<forall>a \<in> set as. \<forall>r. a \<noteq> Answers r"
  shows "(length as < 8 \<longrightarrow> http_submitOne (as @ Answers r # bs) = Returns r)
       \<and> (length as = 7 \<and> (\<forall>r. a \<noteq> Answers r) \<longrightarrow> http_submitOne (as @ a # bs) = Throws)
       \<and> (length as < 5 \<longrightarrow> inprocess_submitOne (as @ Answers r # bs) = Returns r)
       \<and> (length as = 4 \<longrightarrow> inprocess_submitOne (as @ Fails # bs) = Throws
            \<and> inprocess_submitOne (as @ SeesNoLeader # bs) = Undefined
            \<and> totalCommitted (tp_answer i (inprocess_submitOne (as @ SeesNoLeader # bs)) t s) = totalCommitted s + 1)"
proof -
  have h: "http_submitOne (as @ cs) = http_attempts (length as) cs" if "length as < 8" for cs
    using http_attempts_fail[OF assms, of 0 cs] that by (simp add: http_submitOne_def)
  have p: "inprocess_submitOne (as @ cs) = inprocess_attempts (length as) cs" if "length as < 5" for cs
    using inprocess_attempts_fail[OF assms, of 0 cs] that by (simp add: inprocess_submitOne_def)
  have "inprocess_submitOne (as @ SeesNoLeader # bs) = Undefined" if "length as = 4"
    using that by (cases bs) (simp_all add: p)
  then show ?thesis
    by (auto simp: h p tp_answer_def Let_def goes_on_def tp_loop_facts split: attempt.split)
qed

theorem submission_attempts_witness:
  "inprocess_submitOne ([SeesNoLeader, SeesNoLeader, Fails, SeesNoLeader] @ SeesNoLeader # ([] :: int attempt list)) = Undefined"
  using submission_attempts[of "[SeesNoLeader, SeesNoLeader, Fails, SeesNoLeader]" "0 :: int" "[]" Fails 0 0
      "tp_begin ''s1'' (Some 1) (Some 5000) 0 0"] by simp

text \<open>
  Scenarios do not share identities or faults. In every plan two calls of scenarios submit for
  different clients, so none answers from what another has put into the table of retried strokes; a
  scenario runs under the latency or the drop rate that the report names, and the first two and the
  recovery under none.
\<close>

theorem plan_scenarios_separate:
  "(i < j \<and> j < length (bench_plan ops) \<longrightarrow> call_clients (bench_plan ops ! i) \<inter> call_clients (bench_plan ops ! j) = {})
 \<and> (k < length (bench_plan ops) \<longrightarrow>
      (case bench_plan ops ! k of
         RunThroughput tag cls d \<Rightarrow> faults_at (bench_plan ops) k =
           (if tag = ''s3'' then (50, 0) else if tag = ''s5'' then (0, 5 / 100) else (0, 0))
       | RunLatency tag n \<Rightarrow> faults_at (bench_plan ops) k =
           (if tag = ''s4'' then (50, 0) else if tag = ''s6'' then (0, 5 / 100) else (0, 0))
       | RunReelect n \<Rightarrow> faults_at (bench_plan ops) k = (0, 0)
       | _ \<Rightarrow> True))"
proof -
  let ?p = "bench_plan ops"
  have "call_clients (?p ! i) \<inter> call_clients (?p ! j) = {}" if ij: "i < j" "j < length ?p"
  proof (rule ccontr)
    assume "call_clients (?p ! i) \<inter> call_clients (?p ! j) \<noteq> {}"
    then obtain x where x: "x \<in> call_clients (?p ! i)" "x \<in> call_clients (?p ! j)" by blast
    have il: "i < length ?p" using ij by simp
    have "call_tags (?p ! i) = [take 2 x]" "call_tags (?p ! j) = [take 2 x]"
      using client_tag[OF x(1)] client_tag[OF x(2)] plan_tags(2)[of ops] il ij(2) by (simp_all add: list_all_length)
    moreover have "set (map call_tags ?p ! i) \<inter> set (map call_tags ?p ! j) = {}"
      using plan_tags(1) ij by (intro distinct_concat_nth) simp_all
    ultimately show False using il ij(2) by simp
  qed
  moreover have "named_faults (?p ! k, faults_at ?p k)" if k: "k < length ?p"
  proof -
    have "named_faults (with_faults (0, 0) ?p ! k)" using plan_named[of ops] k by (simp add: list_all_length)
    then show ?thesis unfolding with_faults_nth[OF k] faults_at_def .
  qed
  ultimately show ?thesis unfolding named_faults_def fst_conv snd_conv by blast
qed

theorem plan_scenarios_separate_witness:
  "bench_plan (bench_options []) ! 4 = RunThroughput ''s3'' (Some 4) (Some 5000) \<and>
   faults_at (bench_plan (bench_options [])) 4 = (50, 0)"
proof -
  have "bench_plan (bench_options []) ! 4 = RunThroughput ''s3'' (Some 4) (Some 5000) \<and>
    4 < length (bench_plan (bench_options []))" by code_simp
  then show ?thesis using plan_scenarios_separate[of 0 0 "bench_options []" 4] by simp
qed

text \<open>
  The re-election benchmark finds the leader it has killed. Over HTTP the request to crash is
  answered 50 ms before the process ends, and until then it reports the same status. Whatever the
  other replicas report, a poll within that time finds the crashed leader again, and the gap recorded for
  the trial is the time of that one poll.
\<close>

theorem reelect_measures_crashed_leader:
  assumes "role (node s) = LEADER" "hd_replicas d = pre @ (rid, url) # post"
    and "length seen = length pre" "Some LEADER \<notin> set seen" "elapsed < 50"
  shows "http_killLeader d (seen @ Some (sb_state (get_status s)) # seen') = ([(url, CrashPost)], Some rid)
       \<and> findLeader (hd_replicas d) (seen @ map_option sb_state (status_after_crash elapsed s) # later) = Some (rid, url)
       \<and> reelect_gap 200 t0
           ((findLeader (hd_replicas d) (seen @ map_option sb_state (status_after_crash elapsed s) # later) \<noteq> None, t) # polls) =
           Some (t - t0)"
proof -
  have "sb_state (get_status s) = LEADER" using assms(1) by (simp add: get_status_def getStatus_def Let_def)
  moreover have "status_after_crash elapsed s = Some (get_status s)"
    using assms(5) by (simp add: status_after_crash_def post_crash_def)
  ultimately have l: "findLeader (hd_replicas d) (seen @ Some (sb_state (get_status s)) # x) = Some (rid, url)"
    "map_option sb_state (status_after_crash elapsed s) = Some (sb_state (get_status s))" for x
    unfolding assms(2) by (simp_all add: findLeader_at[OF assms(3,4)])
  have "reelect_gap 200 t0 ((True, t) # polls) = Some (t - t0)"
    by (simp add: numeral_eq_Suc)
  then show ?thesis by (simp add: l http_killLeader_def)
qed

definition demo_killed :: server where
  "demo_killed = demo_server\<lparr>node := (node demo_server)\<lparr>role := LEADER\<rparr>\<rparr>"

theorem reelect_measures_crashed_leader_witness:
  "findLeader (DEFAULT_REPLICAS None) [Some FOLLOWER, map_option sb_state (status_after_crash 3 demo_killed), None] =
     Some (''replica2'', ''http://localhost:4002'')"
proof -
  have l: "role (node demo_killed) = LEADER" by (simp add: demo_killed_def)
  have r: "hd_replicas (http_driver None None) =
      [(''replica1'', ''http://localhost:4001'')] @ (''replica2'', ''http://localhost:4002'') #
      [(''replica3'', ''http://localhost:4003'')]" by code_simp
  have "findLeader (hd_replicas (http_driver None None))
      ([Some FOLLOWER] @ map_option sb_state (status_after_crash 3 demo_killed) # [None]) =
      Some (''replica2'', ''http://localhost:4002'')"
    by (rule reelect_measures_crashed_leader[OF l r, THEN conjunct2, THEN conjunct1]) simp_all
  then show ?thesis by (simp add: http_driver_def)
qed

text \<open>
  A second run of the benchmark commits nothing. The clients of a run over HTTP have the same names
  and numbers as those of the run before, so once the strokes of the first have been applied, a
  submission of the second with a number that the first reached is answered from the table of
  retried strokes: the leader's state does not change and no entry is appended.
\<close>

theorem second_run_is_deduped:
  assumes "role n = LEADER" "sm n = apply_log es (new_state_machine mx)"
    and "sorted_wrt (<) (map e_index es)" "\<forall>e \<in> set es. 0 \<le> e_index e" "int (card (clients es)) \<le> mx"
    and "e \<in> set es" "e_type e = STROKE" "e_payload e = Some (http_stroke (latency_id tag) q' extra)"
    and "q \<le> q'"
  shows "fst (submit_begin STROKE (Some (http_stroke (latency_id tag) q extra')) n) = n
       \<and> (\<exists>i. snd (submit_begin STROKE (Some (http_stroke (latency_id tag) q extra')) n) =
            Cached \<lparr>sr_index = i, sr_term = currentTerm n, sr_deduped = True\<rparr>)"
proof -
  obtain i where "getDedupeIndex (sm n) (latency_id tag) q = Some i"
    using dedupe_covers[OF assms(3-6) ident_http_stroke[OF assms(7,8)] assms(9)] unfolding assms(2) by blast
  then show ?thesis
    using assms(1) by (simp add: submit_begin_def request_id_def http_stroke_def)
qed

definition demo_bench_log :: "entry list" where
  "demo_bench_log = [\<lparr>e_index = 0, e_term = 1, e_type = NOOP, e_payload = None\<rparr>,
     \<lparr>e_index = 1, e_term = 1, e_type = STROKE, e_payload = Some (http_stroke ''s2-lat'' 1 [])\<rparr>,
     \<lparr>e_index = 2, e_term = 1, e_type = STROKE, e_payload = Some (http_stroke ''s2-lat'' 2 [])\<rparr>]"

definition demo_bench_leader :: node where
  "demo_bench_leader = (node demo_server)\<lparr>role := LEADER, sm := apply_log demo_bench_log (new_state_machine 10000)\<rparr>"

theorem second_run_is_deduped_witness:
  "fst (submit_begin STROKE (Some (http_stroke (latency_id ''s2'') 1 [])) demo_bench_leader) = demo_bench_leader"
proof -
  let ?e = "\<lparr>e_index = 2, e_term = 1, e_type = STROKE, e_payload = Some (http_stroke (latency_id ''s2'') 2 [])\<rparr>"
  have "sorted_wrt (<) (map e_index demo_bench_log)" "\<forall>e \<in> set demo_bench_log. 0 \<le> e_index e"
    "?e \<in> set demo_bench_log" by (simp_all add: demo_bench_log_def latency_id_def)
  moreover have "int (card (clients demo_bench_log)) \<le> 10000" by code_simp
  ultimately show ?thesis
    using second_run_is_deduped[of demo_bench_leader demo_bench_log 10000 ?e "''s2''" 2 "[]" 1 "[]"]
    by (simp add: demo_bench_leader_def)
qed

text \<open>
  The runs of \<open>throughput\<close>, with the answers so far: whose each is, and whether its await went on
  normally. A submission ends only for a client that waits for one.
\<close>

inductive tp_run :: "string \<Rightarrow> int option \<Rightarrow> int option \<Rightarrow> (nat \<times> bool) list \<Rightarrow> throughput_run \<Rightarrow> bool" for tag cls d where
  tp_starts: "tp_run tag cls d [] (tp_begin tag cls d t0 t)"
| tp_answers: "tp_run tag cls d h s \<Longrightarrow> i < length (tp_clients s) \<Longrightarrow> tc_running (tp_clients s ! i) \<Longrightarrow>
    sub \<noteq> Trying \<Longrightarrow> tp_run tag cls d (h @ [(i, goes_on sub)]) (tp_answer i (sub :: submit_result submission) t s)"

definition own_answers :: "nat \<Rightarrow> (nat \<times> bool) list \<Rightarrow> bool list" where
  "own_answers i h = map snd (filter (\<lambda>x. fst x = i) h)"

definition own_calls :: "string \<Rightarrow> (string \<times> int) list \<Rightarrow> int list" where
  "own_calls c calls = map snd (filter (\<lambda>x. fst x = c) calls)"

text \<open>The numbers a client submits when it gets these answers: the next one after each that went on.\<close>

fun numbers :: "int \<Rightarrow> bool list \<Rightarrow> int list" where
  "numbers q [] = [q]"
| "numbers q (b # bs) = q # numbers (if b then q + 1 else q) bs"

abbreviation good :: "bool list \<Rightarrow> int" where
  "good bs \<equiv> int (length (filter (\<lambda>b. b) bs))"

lemma numbers_ne [simp]: "numbers q bs \<noteq> []"
  by (cases bs) simp_all

lemma numbers_snoc: "numbers q (bs @ [b]) = numbers q bs @ [q + good (bs @ [b])]"
  by (induction bs arbitrary: q) simp_all

lemma numbers_last: "butlast (numbers q bs) @ [q + good bs] = numbers q bs"
  by (cases bs rule: rev_cases) (simp_all only: numbers_snoc butlast_snoc, simp)

lemma tp_id_eq [simp]: "tp_id tag i = tp_id tag j \<longleftrightarrow> i = j"
  by (simp add: tp_id_def)

text \<open>What holds of client \<open>i\<close>; those in \<open>J\<close> are between an answer and the head of their loop.\<close>

definition client_ok :: "string \<Rightarrow> (nat \<times> bool) list \<Rightarrow> (string \<times> int) list \<Rightarrow> nat set \<Rightarrow> nat \<Rightarrow> tp_client \<Rightarrow> bool" where
  "client_ok tag h calls J i c \<longleftrightarrow>
     tc_id c = tp_id tag i \<and> tc_seq c = 1 + good (own_answers i h) \<and> (i \<in> J \<longrightarrow> tc_running c) \<and>
     own_calls (tp_id tag i) calls =
       (if tc_running c \<and> i \<notin> J then numbers 1 (own_answers i h) else butlast (numbers 1 (own_answers i h)))"

definition tp_ok :: "string \<Rightarrow> (nat \<times> bool) list \<Rightarrow> nat set \<Rightarrow> throughput_run \<Rightarrow> bool" where
  "tp_ok tag h J s \<longleftrightarrow>
     (\<forall>i < length (tp_clients s). client_ok tag h (tp_calls s) J i (tp_clients s ! i)) \<and>
     (\<forall>x \<in> set (tp_calls s). \<exists>i < length (tp_clients s). fst x = tp_id tag i) \<and>
     totalCommitted s = length (filter snd h)"

lemma tp_loop_length: "length (tp_clients (tp_loop i t s)) = length (tp_clients s)"
  by (rule tp_loop_facts)

lemma own_calls_snoc: "own_calls c (calls @ [(c', q)]) = own_calls c calls @ (if c' = c then [q] else [])"
  by (simp add: own_calls_def)

lemma own_answers_snoc: "own_answers i (h @ [(j, b)]) = own_answers i h @ (if j = i then [b] else [])"
  by (simp add: own_answers_def)

lemma tp_ok_loop:
  assumes ok: "tp_ok tag h (insert i J) s" and i: "i < length (tp_clients s)" "i \<notin> J"
  shows "tp_ok tag h J (tp_loop i t s)"
proof -
  let ?c = "tp_clients s ! i"
  have each: "client_ok tag h (tp_calls s) (insert i J) j (tp_clients s ! j)" if "j < length (tp_clients s)" for j
    using ok that by (simp add: tp_ok_def)
  note own = each[OF i(1), unfolded client_ok_def]
  have "client_ok tag h (tp_calls s @ [(tc_id ?c, tc_seq ?c)]) J j (tp_clients s ! j)" if "j < length (tp_clients s)" for j
    using each[OF that] own i(2) by (cases "j = i") (auto simp: client_ok_def own_calls_snoc numbers_last)
  then have go: "tp_ok tag h J (s\<lparr>tp_calls := tp_calls s @ [(tc_id ?c, tc_seq ?c)]\<rparr>)"
    using ok own i(1) by (auto simp: tp_ok_def)
  have "client_ok tag h (tp_calls s) J j ((tp_clients s)[i := ?c\<lparr>tc_running := False\<rparr>] ! j)"
    if "j < length (tp_clients s)" for j
    using each[OF that] own i by (cases "j = i") (auto simp: client_ok_def)
  then have stop: "tp_ok tag h J (s\<lparr>tp_clients := (tp_clients s)[i := ?c\<lparr>tc_running := False\<rparr>]\<rparr>)"
    using ok by (auto simp: tp_ok_def)
  show ?thesis using go stop unfolding tp_loop_def Let_def by (simp split: option.split)
qed

lemma tp_ok_loops:
  "set is \<subseteq> {..<length (tp_clients s)} \<Longrightarrow> distinct is \<Longrightarrow> set is \<inter> J = {} \<Longrightarrow> tp_ok tag h (J \<union> set is) s \<Longrightarrow>
   tp_ok tag h J (fold (\<lambda>i. tp_loop i t) is s)"
proof (induction "is" arbitrary: s)
  case (Cons i "is")
  then have "tp_ok tag h (J \<union> set is) (tp_loop i t s)" by (intro tp_ok_loop) simp_all
  with Cons show ?case by (simp add: tp_loop_length)
qed simp

lemma tp_ok_answered:
  assumes ok: "tp_ok tag h {} s" and i: "i < length (tp_clients s)" "tc_running (tp_clients s ! i)"
  shows "tp_ok tag (h @ [(i, b)]) {i} (if b
    then s\<lparr>tp_clients := (tp_clients s)[i := (tp_clients s ! i)\<lparr>tc_seq := tc_seq (tp_clients s ! i) + 1\<rparr>],
           totalCommitted := totalCommitted s + 1\<rparr>
    else s)"
proof -
  have each: "client_ok tag h (tp_calls s) {} j (tp_clients s ! j)" if "j < length (tp_clients s)" for j
    using ok that by (simp add: tp_ok_def)
  let ?c = "(tp_clients s ! i)\<lparr>tc_seq := tc_seq (tp_clients s ! i) + 1\<rparr>"
  let ?cs = "if b then (tp_clients s)[i := ?c] else tp_clients s"
  have "client_ok tag (h @ [(i, b)]) (tp_calls s) {i} j (?cs ! j)" if j: "j < length (tp_clients s)" for j
  proof (cases "j = i")
    case False
    then show ?thesis using each[OF j] by (simp add: client_ok_def own_answers_snoc)
  next
    case True
    then show ?thesis using each[OF i(1)] i by (cases b) (simp_all add: client_ok_def own_answers_snoc numbers_snoc)
  qed
  then show ?thesis using ok by (cases b) (simp_all add: tp_ok_def)
qed

lemma tp_run_ok: "tp_run tag cls d h s \<Longrightarrow> tp_ok tag h {} s"
proof (induction rule: tp_run.induct)
  case (tp_starts t0 t)
  show ?case unfolding tp_begin_def Let_def
    by (rule tp_ok_loops) (auto simp: tp_ok_def client_ok_def own_answers_def own_calls_def)
next
  case (tp_answers h s i sub t)
  show ?case unfolding tp_answer_def Let_def
    by (rule tp_ok_loop[OF tp_ok_answered[OF tp_answers.IH tp_answers.hyps(2,3)]]) (use tp_answers.hyps(2) in auto)
qed

text \<open>
  C39: what the throughput benchmark submits and counts. Whatever the order of the answers, the numbers that
  a client has submitted, in order and with repetitions, are determined by its own answers so far: it starts
  with 1, goes on to the next number after an answer that went on normally, and submits the same number again
  after one that threw; a client that has stopped has done so at the head of its loop, instead of its next
  submission. Nothing else was submitted. The total is the number of answers that went on, over all clients.
  (So a stroke is sent more than once exactly when a submission of it threw.)
\<close>

theorem throughput_counts:
  assumes "tp_run tag cls d h s" "i < length (tp_clients s)"
  defines "c \<equiv> tp_clients s ! i" and "bs \<equiv> own_answers i h"
  shows "own_calls (tp_id tag i) (tp_calls s) = (if tc_running c then numbers 1 bs else butlast (numbers 1 bs))
       \<and> tc_seq c = 1 + int (length (filter (\<lambda>b. b) bs))
       \<and> (\<forall>x \<in> set (tp_calls s). \<exists>j < length (tp_clients s). fst x = tp_id tag j)
       \<and> totalCommitted s = length (filter snd h)"
  using tp_run_ok[OF assms(1)] assms(2) unfolding tp_ok_def client_ok_def c_def bs_def by simp

text \<open>The first client's submission throws, then both are answered; the first has then sent 1, 1 and 2.\<close>

definition demo_throughput :: throughput_run where
  "demo_throughput = (let ok = Returns \<lparr>sr_index = 1, sr_term = 1, sr_deduped = False\<rparr>
     in tp_answer 0 ok 30 (tp_answer 1 ok 20 (tp_answer 0 (Throws :: submit_result submission) 10 (tp_begin ''s1'' (Some 2) (Some 5000) 0 0))))"

theorem throughput_counts_witness:
  "tp_run ''s1'' (Some 2) (Some 5000) [(0, False), (1, True), (0, True)] demo_throughput \<and>
   own_calls (tp_id ''s1'' 0) (tp_calls demo_throughput) = [1, 1, 2] \<and> totalCommitted demo_throughput = 2"
proof -
  let ?ok = "Returns \<lparr>sr_index = 1, sr_term = 1, sr_deduped = False\<rparr> :: submit_result submission"
  let ?a = "tp_begin ''s1'' (Some 2) (Some 5000) 0 0"
  let ?b = "tp_answer 0 (Throws :: submit_result submission) 10 ?a"
  let ?c = "tp_answer 1 ?ok 20 ?b"
  have l: "0 < length (tp_clients ?a)" "1 < length (tp_clients ?b)" "0 < length (tp_clients ?c)"
    "tc_running (tp_clients ?a ! 0)" "tc_running (tp_clients ?b ! 1)" "tc_running (tp_clients ?c ! 0)" by code_simp+
  have g: "\<not> goes_on (Throws :: submit_result submission)" "goes_on ?ok" by (simp_all add: goes_on_def)
  have r: "tp_run ''s1'' (Some 2) (Some 5000) ((([] @ [(0, goes_on (Throws :: submit_result submission))]) @ [(1, goes_on ?ok)])
      @ [(0, goes_on ?ok)]) (tp_answer 0 ?ok 30 ?c)"
    by (intro tp_answers tp_starts l) simp_all
  then have r': "tp_run ''s1'' (Some 2) (Some 5000) [(0, False), (1, True), (0, True)] demo_throughput"
    by (simp add: g demo_throughput_def Let_def)
  have "0 < length (tp_clients demo_throughput) \<and> tc_running (tp_clients demo_throughput ! 0)" by code_simp
  with throughput_counts[OF r', of 0] r' show ?thesis by (simp add: own_answers_def)
qed

end
