(* ===== verification/Test_Harness.thy ===== *)
theory Test_Harness imports Bench Js_Json begin

text \<open>
  The fleet of nodes that the integration tests and the in-process benchmark run
  (\<open>replicas/tests/integration/cluster.js\<close>): real nodes in one process, a registry of them by URL and a
  transport that looks its peers up there, with the fault injection of the real one. The records of the
  nodes are shared between the list of nodes and the registry, so they live in \<open>recs\<close> and are named by
  their position there, in the order they were made.

  A file is that of the node made last with its identifier; the tests start a node again only after they
  have killed it. Waiting is left to the callers: \<open>harness_leader\<close> is one look. Nothing is called after
  \<open>harness_stop\<close>.

  Shown here: the transport decides like the real one; the identifiers, the registry and the list of nodes
  agree (\<open>harness_ok\<close>); an isolated node and the others hear nothing of each other; the fleet seen as the
  list of live nodes is the one that \<open>Bench\<close> works on; a node that is started again gets all the others as
  its peers while every node stands in its own place, and may get fewer otherwise.
\<close>

subsection \<open>State\<close>

record hrec =
  h_id :: string
  h_url :: string
  h_node :: node
  h_transport :: transport
  h_open :: bool

record harness =
  h_n :: nat
  h_threshold :: int
  h_raft :: "config \<Rightarrow> config"
  recs :: "hrec list"
  h_nodes :: "nat option list"
  h_registry :: "(string, nat) jsmap"
  h_stopped :: bool

definition new_harness :: "nat \<Rightarrow> int \<Rightarrow> (config \<Rightarrow> config) \<Rightarrow> harness" where
  "new_harness n threshold raft = \<lparr>h_n = n, h_threshold = threshold, h_raft = raft, recs = [],
     h_nodes = [], h_registry = [], h_stopped = False\<rparr>"

definition url_for :: "string \<Rightarrow> string" where
  "url_for i = ''mem://'' @ i"

definition node_name :: "nat \<Rightarrow> string" where
  "node_name i = ''n'' @ show_nat (i + 1)"

definition set_rec :: "nat \<Rightarrow> (hrec \<Rightarrow> hrec) \<Rightarrow> harness \<Rightarrow> harness" where
  "set_rec k f h = h\<lparr>recs := (recs h)[k := f (recs h ! k)]\<rparr>"

definition live :: "harness \<Rightarrow> nat list" where
  "live h = List.map_filter (\<lambda>r. r) (h_nodes h)"

definition byId :: "string \<Rightarrow> harness \<Rightarrow> nat option" where
  "byId i h = find (\<lambda>k. h_id (recs h ! k) = i) (live h)"

definition harness_leader :: "harness \<Rightarrow> nat option" where
  "harness_leader h = find (\<lambda>k. role (h_node (recs h ! k)) = LEADER) (live h)"

subsection \<open>Making nodes\<close>

definition file_of :: "string \<Rightarrow> harness \<Rightarrow> db option" where
  "file_of i h = map_option (\<lambda>r. db (h_node r)) (find (\<lambda>r. h_id r = i) (rev (recs h)))"

definition spawn :: "string \<Rightarrow> string list \<Rightarrow> int \<Rightarrow> int \<Rightarrow> harness \<Rightarrow> harness \<times> nat" where
  "spawn i peerIds t x h =
     (let cfg = h_raft h (default_config\<lparr>snapshotThreshold := h_threshold h\<rparr>);
          n = new_node i (map url_for peerIds) cfg (open_db (file_of i h)) (new_state_machine 10000) t x;
          r = \<lparr>h_id = i, h_url = url_for i, h_node = start n, h_transport = new_transport, h_open = True\<rparr>;
          k = length (recs h)
      in (h\<lparr>recs := recs h @ [r], h_registry := map_set (url_for i) k (h_registry h)\<rparr>, k))"

definition start_one :: "(string \<Rightarrow> int) \<Rightarrow> (string \<Rightarrow> int) \<Rightarrow> string list \<Rightarrow> string \<Rightarrow> harness \<Rightarrow> harness" where
  "start_one t x ids i h =
     (let (h1, k) = spawn i (filter (\<lambda>j. j \<noteq> i) ids) (t i) (x i) h
      in h1\<lparr>h_nodes := h_nodes h1 @ [Some k]\<rparr>)"

definition harness_start :: "(string \<Rightarrow> int) \<Rightarrow> (string \<Rightarrow> int) \<Rightarrow> harness \<Rightarrow> harness" where
  "harness_start t x h =
     (let ids = map node_name [0 ..< h_n h] in fold (start_one t x ids) ids h)"

text \<open>\<open>indexOf\<close> and an assignment to the place, \<open>findIndex\<close> of the first empty place.\<close>

definition killNode :: "string \<Rightarrow> harness \<Rightarrow> harness" where
  "killNode i h =
     (case byId i h of
        None \<Rightarrow> h
      | Some k \<Rightarrow>
          (let h1 = set_rec k (\<lambda>r. r\<lparr>h_node := stop (h_node r), h_open := False\<rparr>) h
           in h1\<lparr>h_registry := map_del (h_url (recs h ! k)) (h_registry h1),
                 h_nodes := (case index_of (Some k) (h_nodes h1) of
                               Some j \<Rightarrow> (h_nodes h1)[j := None] | None \<Rightarrow> h_nodes h1)\<rparr>))"

definition uniq :: "'a list \<Rightarrow> 'a list" where
  "uniq xs = rev (remdups (rev xs))"

definition restart_peers :: "string \<Rightarrow> harness \<Rightarrow> string list" where
  "restart_peers i h =
     uniq (filter (\<lambda>x. x \<noteq> i) (map (\<lambda>k. h_id (recs h ! k)) (live h)) @
       filter (\<lambda>x. x \<noteq> i) (map (\<lambda>(j, r). node_name j) (filter (\<lambda>(j, r). r = None) (enumerate 0 (h_nodes h)))))"

definition restartNode :: "string \<Rightarrow> int \<Rightarrow> int \<Rightarrow> harness \<Rightarrow> harness \<times> nat" where
  "restartNode i t x h =
     (let (h1, k) = spawn i (restart_peers i h) t x h
      in (h1\<lparr>h_nodes := (case index_of None (h_nodes h1) of
                           Some j \<Rightarrow> (h_nodes h1)[j := Some k] | None \<Rightarrow> h_nodes h1 @ [Some k])\<rparr>, k))"

definition harness_stop :: "harness \<Rightarrow> harness" where
  "harness_stop h =
     (if h_stopped h then h
      else fold (\<lambda>k. set_rec k (\<lambda>r. r\<lparr>h_node := stop (h_node r), h_open := False\<rparr>)) (live h) (h\<lparr>h_stopped := True\<rparr>))"

subsection \<open>Calls and faults\<close>

text \<open>The sender's side of a call, up to its delay; then the arrival at the peer.\<close>

definition fake_begin :: "string \<Rightarrow> rat \<Rightarrow> transport \<Rightarrow> call_start" where
  "fake_begin peerUrl x t =
     (if peerUrl \<in> set (partitionedPeers t) then PARTITIONED
      else
        (let dr = max (case map_get (peerDropProb t) peerUrl of Some d \<Rightarrow> d | None \<Rightarrow> 0) (globalDropProb t)
         in if dr > 0 \<and> x < dr then DROPPED
            else Sending (max (case map_get (peerLatencyMs t) peerUrl of Some ms \<Rightarrow> ms | None \<Rightarrow> 0) (globalLatencyMs t))))"

datatype fake_answer =
    VoteData vote_reply
  | AppendData append_reply
  | InstallData int

datatype fake_outcome =
    Handled fake_answer
  | NoSuchPeer
  | PartitionedBack

definition fake_handle :: "call \<Rightarrow> node \<Rightarrow> node \<times> fake_answer" where
  "fake_handle c n =
     (case c of
        VoteCall r \<Rightarrow> (let (m, b) = handleRequestVote r n in (m, VoteData b))
      | AppendCall r \<Rightarrow> (let (m, b) = handleAppendEntries r n in (m, AppendData b))
      | ReadCall r \<Rightarrow> (let (m, b) = handleAppendEntries r n in (m, AppendData b))
      | SnapshotCall r \<Rightarrow> (let (m, t) = handleInstallSnapshot r n in (m, InstallData t)))"

definition fake_arrive :: "string \<Rightarrow> string \<Rightarrow> call \<Rightarrow> harness \<Rightarrow> harness \<times> fake_outcome" where
  "fake_arrive selfUrl peerUrl c h =
     (case map_get (h_registry h) peerUrl of
        None \<Rightarrow> (h, NoSuchPeer)
      | Some k \<Rightarrow>
          if selfUrl \<in> set (partitionedPeers (h_transport (recs h ! k))) then (h, PartitionedBack)
          else (let (m, b) = fake_handle c (h_node (recs h ! k))
                in (set_rec k (\<lambda>r. r\<lparr>h_node := m\<rparr>) h, Handled b)))"

definition on_transport :: "nat \<Rightarrow> (transport \<Rightarrow> transport) \<Rightarrow> harness \<Rightarrow> harness" where
  "on_transport k f h = set_rec k (\<lambda>r. r\<lparr>h_transport := f (h_transport r)\<rparr>) h"

definition url_of :: "harness \<Rightarrow> nat \<Rightarrow> string" where
  "url_of h k = h_url (recs h ! k)"

definition on_link :: "string \<Rightarrow> string \<Rightarrow> (string \<Rightarrow> transport \<Rightarrow> transport) \<Rightarrow> harness \<Rightarrow> harness" where
  "on_link idA idB f h =
     (case (byId idA h, byId idB h) of
        (Some a, Some b) \<Rightarrow> on_transport b (f (url_of h a)) (on_transport a (f (url_of h b)) h)
      | _ \<Rightarrow> h)"

definition harness_partition :: "string \<Rightarrow> string \<Rightarrow> harness \<Rightarrow> harness" where
  "harness_partition idA idB h = on_link idA idB partitionPeer h"

definition setLinkLatency :: "string \<Rightarrow> string \<Rightarrow> int \<Rightarrow> harness \<Rightarrow> harness" where
  "setLinkLatency idA idB ms h = on_link idA idB (\<lambda>u. setPeerLatency u ms) h"

definition setLinkDrop :: "string \<Rightarrow> string \<Rightarrow> rat \<Rightarrow> harness \<Rightarrow> harness" where
  "setLinkDrop idA idB prob h = on_link idA idB (\<lambda>u. setPeerDrop u prob) h"

definition isolate_from :: "string \<Rightarrow> nat \<Rightarrow> nat \<Rightarrow> harness \<Rightarrow> harness" where
  "isolate_from i target other h =
     (if h_id (recs h ! other) = i then h
      else on_transport other (partitionPeer (url_of h target)) (on_transport target (partitionPeer (url_of h other)) h))"

definition isolate :: "string \<Rightarrow> harness \<Rightarrow> harness" where
  "isolate i h = (case byId i h of None \<Rightarrow> h | Some target \<Rightarrow> fold (isolate_from i target) (live h) h)"

definition on_live :: "(transport \<Rightarrow> transport) \<Rightarrow> harness \<Rightarrow> harness" where
  "on_live f h = fold (\<lambda>k. on_transport k f) (live h) h"

definition heal :: "harness \<Rightarrow> harness" where
  "heal h = on_live clearAllFaults h"

subsection \<open>Submissions and the check for convergence\<close>

definition fireSubmit :: "payload option \<Rightarrow> harness \<Rightarrow> harness \<times> submit_start option" where
  "fireSubmit p h =
     (case harness_leader h of
        None \<Rightarrow> (h, None)
      | Some k \<Rightarrow>
          (let (m, s) = submit_begin STROKE p (h_node (recs h ! k))
           in (set_rec k (\<lambda>r. r\<lparr>h_node := m\<rparr>) h, Some s)))"

definition strokes_json :: "harness \<Rightarrow> nat \<Rightarrow> string" where
  "strokes_json h k = json_text (JArr (map JObj (strokes (sm (h_node (recs h ! k))))))"

text \<open>The pair that differs, if any.\<close>

definition assertConvergence :: "harness \<Rightarrow> (nat \<times> nat) option" where
  "assertConvergence h =
     (case live h of
        ref # others \<Rightarrow> map_option (\<lambda>r. (ref, r)) (find (\<lambda>r. strokes_json h r \<noteq> strokes_json h ref) others)
      | [] \<Rightarrow> None)"

subsection \<open>The in-process driver\<close>

definition inprocess_harness :: "nat \<Rightarrow> (config \<Rightarrow> config) \<Rightarrow> harness" where
  "inprocess_harness n raft =
     new_harness n 100 (\<lambda>c. raft (c\<lparr>heartbeatMs := 50, electionMinMs := 200, electionMaxMs := 350, rpcTimeoutMs := 200\<rparr>))"

definition inprocess_setup :: "nat \<Rightarrow> (config \<Rightarrow> config) \<Rightarrow> (string \<Rightarrow> int) \<Rightarrow> (string \<Rightarrow> int) \<Rightarrow> harness" where
  "inprocess_setup n raft t x = harness_start t x (inprocess_harness n raft)"

definition inprocess_waitForLeader :: "int \<Rightarrow> (int \<times> harness) list \<Rightarrow> nat wait" where
  "inprocess_waitForLeader timeoutMs looks = wait_for timeoutMs (map (\<lambda>(t, h). (t, harness_leader h)) looks)"

text \<open>The fleet that is left behind, and the driver's own field after it.\<close>

definition inprocess_teardown :: "harness option \<Rightarrow> harness option \<times> harness option" where
  "inprocess_teardown cluster = (map_option harness_stop cluster, None)"

definition members :: "harness \<Rightarrow> live_cluster" where
  "members h = map (\<lambda>k. \<lparr>m_id = h_id (recs h ! k), m_node = h_node (recs h ! k), m_transport = h_transport (recs h ! k)\<rparr>) (live h)"

definition driver_killLeader :: "harness \<Rightarrow> harness \<times> string option" where
  "driver_killLeader h =
     (case harness_leader h of
        None \<Rightarrow> (h, None)
      | Some k \<Rightarrow> (killNode (h_id (recs h ! k)) h, Some (h_id (recs h ! k))))"

subsection \<open>The transport\<close>

theorem fake_decides_as_real: "fake_begin p x t = snd (call_begin p x t)"
  unfolding fake_begin_def call_begin_def effectiveDrop_def effectiveLatency_def bump_def Let_def
  by (simp split: if_splits option.splits)

subsection \<open>Identifiers, registry and places\<close>

definition ids :: "harness \<Rightarrow> string list" where
  "ids h = map (\<lambda>k. h_id (recs h ! k)) (live h)"

definition harness_ok :: "harness \<Rightarrow> bool" where
  "harness_ok h \<longleftrightarrow> distinct (ids h) \<and>
     (\<forall>k \<in> set (live h). k < length (recs h) \<and> h_url (recs h ! k) = url_for (h_id (recs h ! k)) \<and>
        map_get (h_registry h) (h_url (recs h ! k)) = Some k)"

lemma url_for_eq [simp]: "url_for i = url_for j \<longleftrightarrow> i = j"
  by (simp add: url_for_def)

lemma live_set: "k \<in> set (live h) \<longleftrightarrow> Some k \<in> set (h_nodes h)"
  by (auto simp: live_def List.map_filter_def image_iff intro: bexI[of _ "Some k"])

lemma map_filter_append: "List.map_filter f (xs @ ys) = List.map_filter f xs @ List.map_filter f ys"
  by (induction xs) (auto simp: List.map_filter_simps split: option.split)

lemma index_of_Some: "index_of x xs = Some j \<Longrightarrow> j < length xs \<and> xs ! j = x"
  by (induction xs arbitrary: j) (auto split: if_splits)

lemma index_of_None: "index_of x xs = None \<longleftrightarrow> x \<notin> set xs"
  by (induction xs) auto

lemma ids_distinct_live: "distinct (ids h) \<Longrightarrow> distinct (live h)"
  by (simp add: ids_def distinct_map)

lemma harness_okD:
  assumes "harness_ok h" "k \<in> set (live h)"
  shows "k < length (recs h)" "h_url (recs h ! k) = url_for (h_id (recs h ! k))"
    "map_get (h_registry h) (url_for (h_id (recs h ! k))) = Some k"
  using assms unfolding harness_ok_def by metis+

lemma byId_iff:
  assumes "harness_ok h"
  shows "byId i h = Some k \<longleftrightarrow> k \<in> set (live h) \<and> h_id (recs h ! k) = i"
  using assms find_Some_iff_mem[of "\<lambda>k. h_id (recs h ! k)" "live h" i k]
  by (simp add: byId_def harness_ok_def ids_def)

lemma byId_None: "byId i h = None \<longleftrightarrow> i \<notin> set (ids h)"
  by (auto simp: byId_def ids_def find_None_iff)

abbreviation somes :: "'a option list \<Rightarrow> 'a list" where
  "somes xs \<equiv> List.map_filter (\<lambda>r. r) xs"

text \<open>The list of live nodes when a place is emptied or filled.\<close>

lemma live_emptied:
  assumes "j < length xs" "xs ! j = Some k" "distinct (somes xs)"
  shows "somes (xs[j := None]) = filter (\<lambda>x. x \<noteq> k) (somes xs)"
proof -
  have xs: "xs = take j xs @ Some k # drop (Suc j) xs" using assms(1,2) id_take_nth_drop by metis
  have whole: "somes xs = somes (take j xs) @ k # somes (drop (Suc j) xs)"
    by (subst xs) (simp add: map_filter_append List.map_filter_simps)
  have "somes (xs[j := None]) = somes (take j xs) @ somes (drop (Suc j) xs)"
    using assms(1) by (simp add: upd_conv_take_nth_drop map_filter_append List.map_filter_simps)
  moreover have "k \<notin> set (somes (take j xs))" "k \<notin> set (somes (drop (Suc j) xs))" using assms(3) by (auto simp: whole)
  ultimately show ?thesis by (simp add: whole) (metis (mono_tags, lifting) filter_True)
qed

lemma live_filled:
  assumes "j < length xs" "xs ! j = None"
  shows "mset (somes (xs[j := Some k])) = add_mset k (mset (somes xs))"
proof -
  have xs: "xs = take j xs @ None # drop (Suc j) xs" using assms id_take_nth_drop by metis
  have "somes xs = somes (take j xs) @ somes (drop (Suc j) xs)"
    by (subst xs) (simp add: map_filter_append List.map_filter_simps)
  then show ?thesis
    using assms(1) by (simp add: upd_conv_take_nth_drop map_filter_append List.map_filter_simps)
qed


lemma added_ok:
  assumes "harness_ok h" "i \<notin> set (ids h)" "recs h' = recs h @ [r]" "h_id r = i" "h_url r = url_for i"
    and "h_registry h' = map_set (url_for i) (length (recs h)) (h_registry h)"
    and "mset (live h') = add_mset (length (recs h)) (mset (live h))"
  shows "harness_ok h' \<and> mset (ids h') = add_mset i (mset (ids h))"
proof -
  have old: "recs h' ! k = recs h ! k" if "k \<in> set (live h)" for k
    using that assms(1,3) by (simp add: harness_ok_def nth_append)
  have new: "recs h' ! length (recs h) = r" using assms(3) by simp
  have "mset (ids h') = image_mset (\<lambda>k. h_id (recs h' ! k)) (mset (live h'))" by (simp add: ids_def)
  also have "\<dots> = add_mset i (image_mset (\<lambda>k. h_id (recs h' ! k)) (mset (live h)))"
    using new assms(4) by (simp add: assms(7))
  also have "image_mset (\<lambda>k. h_id (recs h' ! k)) (mset (live h)) = mset (ids h)"
  proof -
    have "map (\<lambda>k. h_id (recs h' ! k)) (live h) = ids h" using old by (simp add: ids_def)
    then show ?thesis by (metis mset_map)
  qed
  finally have m: "mset (ids h') = add_mset i (mset (ids h))" .
  then have "mset (ids h') = mset (i # ids h)" by simp
  then have "distinct (ids h') = distinct (i # ids h)" by (rule mset_eq_imp_distinct_iff)
  then have d: "distinct (ids h')" using assms(1,2) by (simp add: harness_ok_def)
  have "k < length (recs h') \<and> h_url (recs h' ! k) = url_for (h_id (recs h' ! k)) \<and>
      map_get (h_registry h') (h_url (recs h' ! k)) = Some k" if "k \<in> set (live h')" for k
  proof (cases "k = length (recs h)")
    case True
    then show ?thesis using new assms by (simp add: update_conv)
  next
    case False
    have "set (live h') = insert (length (recs h)) (set (live h))"
      using arg_cong[OF assms(7), of set_mset] by simp
    with that False have k: "k \<in> set (live h)" by simp
    then have "h_id (recs h ! k) \<noteq> i" using assms(2) by (auto simp: ids_def)
    with harness_okD[OF assms(1) k] assms(3,6) old[OF k] show ?thesis by (simp add: update_conv)
  qed
  with d m show ?thesis unfolding harness_ok_def by blast
qed

text \<open>Starting a node again keeps the fleet in order and adds the node.\<close>

theorem restart_ok:
  assumes "harness_ok h" "i \<notin> set (ids h)"
  shows "harness_ok (fst (restartNode i t x h))
       \<and> mset (ids (fst (restartNode i t x h))) = add_mset i (mset (ids h))"
proof (rule added_ok[OF assms])
  show "mset (live (fst (restartNode i t x h))) = add_mset (length (recs h)) (mset (live h))"
    by (auto simp: restartNode_def spawn_def Let_def live_def index_of_None map_filter_append List.map_filter_simps
        split: option.split dest!: index_of_Some intro!: live_filled)
qed (auto simp: restartNode_def spawn_def Let_def split: option.split)


lemma restart_shape:
  "recs (fst (restartNode i t x h)) = recs h @ [recs (fst (restartNode i t x h)) ! length (recs h)]"
  "h_n (fst (restartNode i t x h)) = h_n h"
  by (auto simp: restartNode_def spawn_def Let_def split: option.split)

lemma live_started: "live (start_one t x is i h) = live h @ [length (recs h)]"
  by (simp add: start_one_def spawn_def Let_def live_def map_filter_append List.map_filter_simps)

lemma start_one_ok:
  assumes "harness_ok h" "i \<notin> set (ids h)"
  shows "harness_ok (start_one t x is i h)" "set (ids (start_one t x is i h)) = insert i (set (ids h))"
proof -
  have "harness_ok (start_one t x is i h) \<and> mset (ids (start_one t x is i h)) = add_mset i (mset (ids h))"
  proof (rule added_ok[OF assms])
    show "mset (live (start_one t x is i h)) = add_mset (length (recs h)) (mset (live h))" by (simp add: live_started)
  qed (auto simp: start_one_def spawn_def Let_def)
  then show "harness_ok (start_one t x is i h)" "set (ids (start_one t x is i h)) = insert i (set (ids h))"
    by (auto dest: mset_eq_setD[of _ "i # ids h", simplified])
qed

lemma starts_ok:
  "harness_ok h \<Longrightarrow> distinct js \<Longrightarrow> set js \<inter> set (ids h) = {} \<Longrightarrow>
   harness_ok (fold (start_one t x is) js h) \<and> set (ids (fold (start_one t x is) js h)) = set js \<union> set (ids h)"
proof (induction js arbitrary: h)
  case (Cons j js)
  then have "harness_ok (start_one t x is j h)" "set (ids (start_one t x is j h)) = insert j (set (ids h))"
    by (simp_all add: start_one_ok)
  with Cons show ?case by auto
qed simp

lemma node_name_eq [simp]: "node_name i = node_name j \<longleftrightarrow> i = j"
proof
  assume "node_name i = node_name j"
  then have "digits_value 10 0 (show_nat (i + 1)) = digits_value 10 0 (show_nat (j + 1))"
    by (simp add: node_name_def)
  then show "i = j" unfolding show_nat_value by simp
qed simp

theorem start_ok:
  assumes "h = new_harness n threshold raft"
  shows "harness_ok (harness_start t x h)" "set (ids (harness_start t x h)) = node_name ` {..<n}"
proof -
  have "harness_ok h" "ids h = []" by (simp_all add: assms new_harness_def harness_ok_def ids_def live_def List.map_filter_simps)
  then have "harness_ok (harness_start t x h) \<and> set (ids (harness_start t x h)) = set (map node_name [0 ..< h_n h]) \<union> set (ids h)"
    unfolding harness_start_def Let_def by (intro starts_ok) (simp_all add: distinct_map inj_on_def)
  then show "harness_ok (harness_start t x h)" "set (ids (harness_start t x h)) = node_name ` {..<n}"
    using \<open>ids h = []\<close> by (auto simp: assms new_harness_def atLeast0LessThan)
qed

text \<open>Killing a node takes it, and only it, out of the fleet.\<close>

lemma kill_live:
  assumes "harness_ok h"
  shows "live (killNode i h) = filter (\<lambda>k. h_id (recs h ! k) \<noteq> i) (live h)"
    and "\<forall>k \<in> set (live (killNode i h)). recs (killNode i h) ! k = recs h ! k"
proof -
  have "live (killNode i h) = filter (\<lambda>k. h_id (recs h ! k) \<noteq> i) (live h) \<and>
    (\<forall>k \<in> set (live (killNode i h)). recs (killNode i h) ! k = recs h ! k)"
  proof (cases "byId i h")
    case None
    then have "i \<notin> set (ids h)" by (simp add: byId_None)
    then have "filter (\<lambda>k. h_id (recs h ! k) \<noteq> i) (live h) = live h" by (auto simp: ids_def intro!: filter_True)
    with None show ?thesis by (simp add: killNode_def)
  next
    case (Some k)
    then have k: "k \<in> set (live h)" "h_id (recs h ! k) = i" by (simp_all add: byId_iff[OF assms])
    then obtain j where j: "index_of (Some k) (h_nodes h) = Some j"
      by (cases "index_of (Some k) (h_nodes h)") (simp_all add: index_of_None live_set)
    have d: "distinct (live h)" using assms by (simp add: harness_ok_def ids_distinct_live)
    have other: "h_id (recs h ! m) = i \<longleftrightarrow> m = k" if "m \<in> set (live h)" for m
      using that k byId_iff[OF assms, of i m] Some by auto
    have "live (killNode i h) = somes ((h_nodes h)[j := None])"
      using Some j by (simp add: killNode_def set_rec_def Let_def live_def)
    also have "\<dots> = filter (\<lambda>x. x \<noteq> k) (live h)"
      using live_emptied[of j "h_nodes h" k] index_of_Some[OF j] d by (simp add: live_def)
    finally have l: "live (killNode i h) = filter (\<lambda>x. x \<noteq> k) (live h)" .
    moreover have "recs (killNode i h) ! m = recs h ! m" if "m \<in> set (live (killNode i h))" for m
      using Some that l by (auto simp: killNode_def set_rec_def Let_def)
    moreover have "filter (\<lambda>x. x \<noteq> k) (live h) = filter (\<lambda>k. h_id (recs h ! k) \<noteq> i) (live h)"
      using other by (auto intro: filter_cong)
    ultimately show ?thesis by simp
  qed
  then show "live (killNode i h) = filter (\<lambda>k. h_id (recs h ! k) \<noteq> i) (live h)"
    "\<forall>k \<in> set (live (killNode i h)). recs (killNode i h) ! k = recs h ! k" by blast+
qed


lemma kill_registry:
  assumes "harness_ok h" "j \<noteq> i"
  shows "map_get (h_registry (killNode i h)) (url_for j) = map_get (h_registry h) (url_for j)"
proof (cases "byId i h")
  case (Some k)
  then have "h_url (recs h ! k) = url_for i" using harness_okD(2)[OF assms(1)] by (simp add: byId_iff[OF assms(1)])
  with Some assms(2) show ?thesis by (simp add: killNode_def set_rec_def Let_def delete_conv)
qed (simp add: killNode_def)

theorem kill_ok:
  assumes "harness_ok h"
  shows "harness_ok (killNode i h)" "ids (killNode i h) = filter (\<lambda>j. j \<noteq> i) (ids h)"
proof -
  note l = kill_live[OF assms, of i]
  have "ids (killNode i h) = map (\<lambda>k. h_id (recs h ! k)) (live (killNode i h))" using l(2) by (simp add: ids_def)
  also have "\<dots> = filter (\<lambda>j. j \<noteq> i) (ids h)" by (simp add: l(1) ids_def filter_map o_def)
  finally show i: "ids (killNode i h) = filter (\<lambda>j. j \<noteq> i) (ids h)" .
  have n: "length (recs (killNode i h)) = length (recs h)"
    by (auto simp: killNode_def set_rec_def Let_def split: option.split)
  show "harness_ok (killNode i h)"
    using assms l i n harness_okD[OF assms] kill_registry[OF assms, of _ i] by (simp add: harness_ok_def)
qed

subsection \<open>The list of live nodes\<close>

lemma find_map: "find P (map f xs) = map_option f (find (P \<circ> f) xs)"
  by (induction xs) simp_all

text \<open>The operations of the in-process driver, done on the fleet, are those of \<open>Bench\<close> on its live nodes.\<close>

theorem driver_kills_leader:
  assumes "harness_ok h"
  shows "members (fst (driver_killLeader h)) = fst (inprocess_killLeader (members h))"
    and "snd (driver_killLeader h) = snd (inprocess_killLeader (members h))"
proof -
  have leader: "currentLeader (members h) = map_option (\<lambda>k. \<lparr>m_id = h_id (recs h ! k), m_node = h_node (recs h ! k),
      m_transport = h_transport (recs h ! k)\<rparr>) (harness_leader h)"
    by (simp add: currentLeader_def members_def harness_leader_def find_map o_def)
  have "members (killNode i h) = filter (\<lambda>m. m_id m \<noteq> i) (members h)" for i
    using kill_live[OF assms, of i] by (simp add: members_def filter_map o_def)
  with leader show "members (fst (driver_killLeader h)) = fst (inprocess_killLeader (members h))"
    "snd (driver_killLeader h) = snd (inprocess_killLeader (members h))"
    by (simp_all add: driver_killLeader_def inprocess_killLeader_def split: option.split)
qed

lemma on_transport_recs:
  "live (on_transport k f h) = live h" "length (recs (on_transport k f h)) = length (recs h)"
  "h_registry (on_transport k f h) = h_registry h"
  "recs (on_transport k f h) ! j = (if j = k \<and> k < length (recs h)
     then (recs h ! k)\<lparr>h_transport := f (h_transport (recs h ! k))\<rparr> else recs h ! j)"
  by (auto simp: on_transport_def set_rec_def live_def nth_list_update list_update_beyond)

lemma fold_on_transport:
  "distinct ks \<Longrightarrow> \<forall>k \<in> set ks. k < length (recs h) \<Longrightarrow>
   live (fold (\<lambda>k. on_transport k f) ks h) = live h \<and>
   recs (fold (\<lambda>k. on_transport k f) ks h) ! j = (if j \<in> set ks
     then (recs h ! j)\<lparr>h_transport := f (h_transport (recs h ! j))\<rparr> else recs h ! j)"
  by (induction ks arbitrary: h) (auto simp: on_transport_recs)

theorem driver_faults:
  assumes "harness_ok h"
  shows "members (on_live f h) = on_transports f (members h)"
proof -
  have "distinct (live h)" "\<forall>k \<in> set (live h). k < length (recs h)"
    using assms by (simp_all add: harness_ok_def ids_distinct_live)
  then show ?thesis
    using fold_on_transport[of "live h" h f] by (simp add: members_def on_live_def on_transports_def)
qed


subsection \<open>Isolation\<close>

text \<open>What the rounds of \<open>isolate\<close> over the nodes \<open>ks\<close> leave.\<close>

definition cut_off :: "string \<Rightarrow> nat \<Rightarrow> nat set \<Rightarrow> harness \<Rightarrow> bool" where
  "cut_off i k os h \<longleftrightarrow>
     (\<forall>m \<in> os. m \<noteq> k \<longrightarrow> url_of h m \<in> set (partitionedPeers (h_transport (recs h ! k))) \<and>
        url_of h k \<in> set (partitionedPeers (h_transport (recs h ! m))))"

lemma isolate_from_keeps:
  "live (isolate_from i k m h) = live h" "length (recs (isolate_from i k m h)) = length (recs h)"
  "h_registry (isolate_from i k m h) = h_registry h"
  "h_id (recs (isolate_from i k m h) ! j) = h_id (recs h ! j)" "url_of (isolate_from i k m h) j = url_of h j"
  "h_node (recs (isolate_from i k m h) ! j) = h_node (recs h ! j)"
  "set (partitionedPeers (h_transport (recs h ! j))) \<subseteq> set (partitionedPeers (h_transport (recs (isolate_from i k m h) ! j)))"
  by (auto simp: isolate_from_def on_transport_recs url_of_def partitionPeer_def)

lemma isolate_from_cuts:
  assumes "cut_off i k os h" "k < length (recs h)" "m < length (recs h)" "h_id (recs h ! m) = i \<longleftrightarrow> m = k"
  shows "cut_off i k (insert m os) (isolate_from i k m h)"
proof -
  have "cut_off i k os (isolate_from i k m h)"
    using assms(1) isolate_from_keeps(7)[of h] unfolding cut_off_def isolate_from_keeps(5) by blast
  moreover have "m \<noteq> k \<Longrightarrow> cut_off i k {m} (isolate_from i k m h)"
    using assms(2-4) by (simp add: cut_off_def isolate_from_def on_transport_recs url_of_def partitionPeer_def)
  ultimately show ?thesis by (auto simp: cut_off_def)
qed

lemma isolate_rounds:
  "k < length (recs h) \<Longrightarrow> \<forall>m \<in> set ms. m < length (recs h) \<and> (h_id (recs h ! m) = i \<longleftrightarrow> m = k) \<Longrightarrow>
   cut_off i k os h \<Longrightarrow> cut_off i k (set ms \<union> os) (fold (isolate_from i k) ms h) \<and>
   h_registry (fold (isolate_from i k) ms h) = h_registry h \<and> (\<forall>j. url_of (fold (isolate_from i k) ms h) j = url_of h j) \<and>
   live (fold (isolate_from i k) ms h) = live h"
proof (induction ms arbitrary: h os)
  case (Cons m ms)
  from Cons.prems have "cut_off i k (insert m os) (isolate_from i k m h)" by (intro isolate_from_cuts) simp_all
  with Cons.prems show ?case
    using Cons.IH[of "isolate_from i k m h" "insert m os"] by (simp add: isolate_from_keeps)
qed simp

text \<open>
  After \<open>isolate\<close> no call passes between the node and any other live one, in either direction: a new call
  is refused where it is made, and one that was on its way is refused where it arrives and changes nothing.
\<close>

theorem isolated_node_hears_nothing:
  assumes "harness_ok h" "byId i h = Some k" "m \<in> set (live h)" "m \<noteq> k" "h' = isolate i h"
  shows "fake_begin (url_of h m) x (h_transport (recs h' ! k)) = PARTITIONED"
    and "fake_begin (url_of h k) x (h_transport (recs h' ! m)) = PARTITIONED"
    and "fake_arrive (url_of h k) (url_of h m) c h' = (h', PartitionedBack)"
    and "fake_arrive (url_of h m) (url_of h k) c h' = (h', PartitionedBack)"
proof -
  have k: "k \<in> set (live h)" "h_id (recs h ! k) = i" using assms(2) by (simp_all add: byId_iff[OF assms(1)])
  have "h_id (recs h ! j) = i \<longleftrightarrow> j = k" if "j \<in> set (live h)" for j
    using that k assms(2) byId_iff[OF assms(1), of i j] by auto
  then have r: "cut_off i k (set (live h) \<union> {}) h'" "h_registry h' = h_registry h" "url_of h' j = url_of h j" for j
    using isolate_rounds[of k h "live h" i "{}"] harness_okD(1)[OF assms(1)] k(1) assms(2)
    by (simp_all add: assms(5) isolate_def cut_off_def[of i k "{}" h])
  then have p: "url_of h m \<in> set (partitionedPeers (h_transport (recs h' ! k)))"
    "url_of h k \<in> set (partitionedPeers (h_transport (recs h' ! m)))"
    using assms(3,4) by (simp_all add: cut_off_def)
  have g: "map_get (h_registry h') (url_of h j) = Some j" if "j \<in> set (live h)" for j
    using harness_okD[OF assms(1) that] r(2) by (simp add: url_of_def)
  show "fake_begin (url_of h m) x (h_transport (recs h' ! k)) = PARTITIONED"
    "fake_begin (url_of h k) x (h_transport (recs h' ! m)) = PARTITIONED" using p by (simp_all add: fake_begin_def)
  show "fake_arrive (url_of h k) (url_of h m) c h' = (h', PartitionedBack)"
    "fake_arrive (url_of h m) (url_of h k) c h' = (h', PartitionedBack)"
    using p g[OF assms(3)] g[OF k(1)] by (simp_all add: fake_arrive_def)
qed


subsection \<open>Places\<close>

text \<open>
  \<open>restartNode\<close> takes the names of the nodes that are down from their places in the list. That is right
  while every node stands where \<open>start\<close> put it.
\<close>

definition placed :: "harness \<Rightarrow> bool" where
  "placed h \<longleftrightarrow> length (h_nodes h) = h_n h \<and>
     (\<forall>j < h_n h. case h_nodes h ! j of Some k \<Rightarrow> k < length (recs h) \<and> h_id (recs h ! k) = node_name j | None \<Rightarrow> True)"

lemma uniq_facts: "set (uniq xs) = set xs" "distinct (uniq xs)"
  by (simp_all add: uniq_def)

lemma named_gaps:
  "set (map (\<lambda>(j, r). f j) (filter (\<lambda>(j, r). r = None) (enumerate 0 xs))) = f ` {m. m < length xs \<and> xs ! m = None}"
  by (auto simp: in_set_enumerate_eq image_iff split: prod.splits)

text \<open>Then a node that is down gets every other node of the fleet as a peer, each once.\<close>

theorem restart_gets_all_peers:
  assumes "placed h" "j < h_n h" "h_nodes h ! j = None"
  shows "distinct (restart_peers (node_name j) h)"
    and "set (restart_peers (node_name j) h) = node_name ` ({..<h_n h} - {j})"
proof -
  show "distinct (restart_peers (node_name j) h)" by (simp add: restart_peers_def uniq_facts)
  have place: "h_id (recs h ! k) = node_name m" if "h_nodes h ! m = Some k" "m < h_n h" for k m
    using that assms(1) by (auto simp: placed_def split: option.splits)
  have n: "length (h_nodes h) = h_n h" using assms(1) by (simp add: placed_def)
  have up: "h_id (recs h ! k) \<in> node_name ` {..<h_n h}" if k: "k \<in> set (live h)" for k
  proof -
    from k obtain m where "m < h_n h" "h_nodes h ! m = Some k" unfolding live_set by (auto simp: in_set_conv_nth n)
    with place show ?thesis by auto
  qed
  have down: "node_name m \<in> (\<lambda>k. h_id (recs h ! k)) ` set (live h)" if "m < h_n h" "h_nodes h ! m \<noteq> None" for m
  proof -
    from that obtain k where k: "h_nodes h ! m = Some k" by auto
    then have "k \<in> set (live h)" using that(1) nth_mem[of m "h_nodes h"] by (simp add: live_set n)
    with place[OF k that(1)] show ?thesis by force
  qed
  let ?up = "(\<lambda>k. h_id (recs h ! k)) ` set (live h)" and ?down = "node_name ` {m. m < h_n h \<and> h_nodes h ! m = None}"
  have all: "set (restart_peers (node_name j) h) = (?up \<union> ?down) - {node_name j}"
    unfolding restart_peers_def uniq_facts set_append set_filter named_gaps n by auto
  have "?down \<subseteq> node_name ` {..<h_n h}" by auto
  moreover have "?up \<subseteq> node_name ` {..<h_n h}" using up by blast
  moreover have "node_name ` {..<h_n h} \<subseteq> ?up \<union> ?down" using down by blast
  ultimately have "?up \<union> ?down = node_name ` {..<h_n h}" by blast
  with all show "set (restart_peers (node_name j) h) = node_name ` ({..<h_n h} - {j})" by auto
qed

text \<open>What a restart looks at and what it leaves: the places, each with the identifier and the peers of its node.\<close>

definition places :: "harness \<Rightarrow> (string \<times> string list) option list" where
  "places h = map (map_option (\<lambda>k. (h_id (recs h ! k), peers (h_node (recs h ! k))))) (h_nodes h)"

definition peers_at :: "string \<Rightarrow> (string \<times> string list) option list \<Rightarrow> string list" where
  "peers_at i ps =
     uniq (filter (\<lambda>x. x \<noteq> i) (map fst (somes ps)) @
       filter (\<lambda>x. x \<noteq> i) (map (\<lambda>(j, r). node_name j) (filter (\<lambda>(j, r). r = None) (enumerate 0 ps))))"

definition fill :: "'a \<Rightarrow> 'a option list \<Rightarrow> 'a option list" where
  "fill v xs = (case index_of None xs of Some j \<Rightarrow> xs[j := Some v] | None \<Rightarrow> xs @ [Some v])"

lemma somes_map: "somes (map (map_option f) xs) = map f (somes xs)"
  by (induction xs) (auto simp: List.map_filter_simps split: option.split)

lemma empty_places: "map (\<lambda>(j, r). node_name j) (filter (\<lambda>(j, r). r = None) (enumerate m (map (map_option f) xs))) =
    map (\<lambda>(j, r). node_name j) (filter (\<lambda>(j, r). r = None) (enumerate m xs))"
  by (induction xs arbitrary: m) simp_all

lemma fill_map: "fill (f v) (map (map_option f) xs) = map (map_option f) (fill v xs)"
proof -
  have "index_of None (map (map_option f) xs) = index_of None xs" by (induction xs) auto
  then show ?thesis by (simp add: fill_def map_update split: option.split)
qed

lemma restart_peers_places: "restart_peers i h = peers_at i (places h)"
  by (simp add: restart_peers_def peers_at_def places_def somes_map empty_places live_def o_def)

definition bounded :: "harness \<Rightarrow> bool" where
  "bounded h \<longleftrightarrow> (\<forall>k \<in> set (live h). k < length (recs h))"

lemma start_peers: "peers (start n) = peers n"
  by (simp add: start_def becomeFollower_def resetElectionTimer_def clearElectionTimer_def clearHeartbeatTimer_def
      emit_def Let_def split: option.split)

lemma restart_places:
  assumes "bounded h"
  shows "places (fst (restartNode i t x h)) = fill (i, map url_for (peers_at i (places h))) (places h)"
    "bounded (fst (restartNode i t x h))"
proof -
  let ?h = "fst (restartNode i t x h)" and ?k = "length (recs h)"
  let ?f = "\<lambda>h k. (h_id (recs h ! k), peers (h_node (recs h ! k)))"
  have nodes: "h_nodes ?h = fill ?k (h_nodes h)"
    by (simp add: restartNode_def spawn_def Let_def fill_def split: option.split)
  have new: "?f ?h ?k = (i, map url_for (peers_at i (places h)))"
    by (simp add: restartNode_def spawn_def Let_def restart_peers_places start_peers new_node_def split: option.split)
  have old: "recs ?h ! k = recs h ! k" if "k < ?k" for k
    using that by (subst restart_shape(1)) (simp add: nth_append)
  have "places ?h = fill (?f ?h ?k) (map (map_option (?f ?h)) (h_nodes h))"
    using fill_map[of "?f ?h" ?k "h_nodes h"] by (simp add: places_def nodes)
  also have "map (map_option (?f ?h)) (h_nodes h) = places h"
    using assms old by (auto simp: places_def bounded_def live_set intro!: map_option_cong)
  finally show "places ?h = fill (i, map url_for (peers_at i (places h))) (places h)" unfolding new .
  have "length (recs ?h) = Suc ?k" by (subst restart_shape(1)) simp
  moreover have "set (fill ?k (h_nodes h)) \<subseteq> insert (Some ?k) (set (h_nodes h))"
    by (auto simp: fill_def split: option.splits dest: subsetD[OF set_update_subset_insert])
  ultimately show "bounded ?h"
    using assms unfolding bounded_def Ball_def live_set nodes by (auto simp: less_Suc_eq dest!: subsetD)
qed

definition killed :: "string list \<Rightarrow> harness \<Rightarrow> harness" where
  "killed is h = fold killNode is h"

definition restarted :: "string list \<Rightarrow> harness \<Rightarrow> harness" where
  "restarted is h = fold (\<lambda>i h. fst (restartNode i 0 0 h)) is h"

lemma killed_ok: "harness_ok h \<Longrightarrow> harness_ok (killed is h) \<and> ids (killed is h) = filter (\<lambda>j. j \<notin> set is) (ids h)
    \<and> length (h_nodes (killed is h)) = length (h_nodes h)"
proof (induction "is" arbitrary: h)
  case (Cons i "is")
  have "length (h_nodes (killNode i h)) = length (h_nodes h)"
    by (simp add: killNode_def set_rec_def Let_def split: option.split)
  with Cons.IH[OF kill_ok(1)[OF Cons.prems]] show ?case
    by (auto simp: killed_def kill_ok(2)[OF Cons.prems] intro!: filter_cong)
qed (simp add: killed_def)

lemma restarted_places:
  "bounded h \<Longrightarrow> places (restarted is h) = fold (\<lambda>i ps. fill (i, map url_for (peers_at i ps)) ps) is (places h)"
  by (induction "is" arbitrary: h) (simp_all add: restarted_def restart_places)

lemma all_killed:
  assumes "harness_ok h" "set (ids h) \<subseteq> set is"
  shows "places (killed is h) = replicate (length (h_nodes h)) None" "bounded (killed is h)"
proof -
  have k: "ids (killed is h) = []" "length (h_nodes (killed is h)) = length (h_nodes h)"
    using killed_ok[OF assms(1), of "is"] assms(2) by (auto simp: filter_empty_conv)
  then have l: "live (killed is h) = []" by (simp add: ids_def)
  then have "\<forall>r \<in> set (h_nodes (killed is h)). r = None"
    using live_set[of _ "killed is h"] by (metis empty_iff list.set(1) not_None_eq)
  then show "places (killed is h) = replicate (length (h_nodes h)) None"
    by (intro nth_equalityI) (simp_all add: places_def k)
  show "bounded (killed is h)" by (simp add: bounded_def l)
qed

definition fleet_of_five :: harness where
  "fleet_of_five = harness_start (\<lambda>_. 0) (\<lambda>_. 0) (new_harness 5 100 (\<lambda>c. c))"

definition five_names :: "string list" where
  "five_names = map node_name [0 ..< 5]"

definition majorities :: "harness \<Rightarrow> (string \<times> int) list" where
  "majorities h = map (\<lambda>k. (h_id (recs h ! k), majority (h_node (recs h ! k)))) (live h)"

lemma majorities_places: "majorities h = map (\<lambda>(i, ps). (i, (int (length ps) + 1) div 2 + 1)) (somes (places h))"
  by (simp add: majorities_def places_def somes_map live_def majority_def)

text \<open>
  A fleet of five that is taken down and started again in reverse order does not know its own size. The
  third node to start, n3, gets two of its four peers and takes two votes for a majority, while n1 and n5 take
  three: n3 with n4, and n1 with n2 and n5, are majorities without a common member, each enough for an election.
\<close>

theorem reverse_restart_splits_quorums:
  "places (restarted (rev five_names) (killed five_names fleet_of_five)) =
     [Some (''n5'', map url_for [''n1'', ''n2'', ''n3'', ''n4'']), Some (''n4'', map url_for [''n5'', ''n2'', ''n3'']),
      Some (''n3'', map url_for [''n5'', ''n4'']), Some (''n2'', map url_for [''n5'', ''n4'', ''n3'']),
      Some (''n1'', map url_for [''n5'', ''n4'', ''n3'', ''n2''])] \<and>
   majorities (restarted (rev five_names) (killed five_names fleet_of_five)) =
     [(''n5'', 3), (''n4'', 3), (''n3'', 2), (''n2'', 3), (''n1'', 3)]"
proof -
  have "harness_ok fleet_of_five" "set (ids fleet_of_five) \<subseteq> set five_names" "length (h_nodes fleet_of_five) = 5"
    using start_ok[where n = 5 and threshold = 100 and raft = "\<lambda>c. c", OF refl]
    by (simp_all add: fleet_of_five_def five_names_def atLeast0LessThan) code_simp
  note d = all_killed[OF this(1,2), unfolded this(3)]
  show ?thesis unfolding majorities_places restarted_places[OF d(2)] d(1) by code_simp
qed

end
