(* ===== verification/Logger.thy ===== *)
theory Logger imports Js_Json begin

text \<open>
  The logger of a replica (\<open>replicas/raft/logger.js\<close>): the line of a message. The time stamp, which is
  cut out of the ISO date, is an input; the context is what the node reports, with its defaults. A detail
  is a JSON value, \<open>undefined\<close> and \<open>null\<close> are \<open>JNull\<close>.
\<close>

datatype level = LogInfo | LogWarn | LogError | LogDebug

text \<open>\<open>new Date().toISOString().slice(11, 23)\<close>.\<close>

definition stamp :: "string \<Rightarrow> string" where
  "stamp date = take 12 (drop 11 date)"

fun role_name :: "role \<Rightarrow> string" where
  "role_name FOLLOWER = ''follower''"
| "role_name CANDIDATE = ''candidate''"
| "role_name LEADER = ''leader''"

definition header :: "string \<Rightarrow> string \<Rightarrow> int option \<Rightarrow> role option \<Rightarrow> string" where
  "header date replicaId trm rl =
     ''['' @ stamp date @ ''] ['' @ replicaId @ ''] [term:'' @
     show_int (case trm of Some t \<Rightarrow> t | None \<Rightarrow> 0) @ ''] ['' @
     to_upper (case rl of Some r \<Rightarrow> role_name r | None \<Rightarrow> ''follower'') @ ''] ''"

definition fmt :: "string \<Rightarrow> string \<Rightarrow> int option \<Rightarrow> role option \<Rightarrow> string \<Rightarrow> jval \<Rightarrow> string" where
  "fmt date replicaId trm rl msg detail =
     (let base = header date replicaId trm rl @ msg
      in case detail of
           JNull \<Rightarrow> base
         | JStr s \<Rightarrow> if s = [] then base else base @ '' | '' @ s
         | _ \<Rightarrow> base @ '' | '' @ json_text detail)"

text \<open>What is printed: a debug line only when \<open>RAFT_DEBUG\<close> is 1.\<close>

definition log_line ::
  "string option \<Rightarrow> level \<Rightarrow> string \<Rightarrow> string \<Rightarrow> int option \<Rightarrow> role option \<Rightarrow> string \<Rightarrow> jval \<Rightarrow> string option" where
  "log_line debug_env lv date replicaId trm rl msg detail =
     (if lv = LogDebug \<and> debug_env \<noteq> Some ''1'' then None else Some (fmt date replicaId trm rl msg detail))"

text \<open>
  One line per event. A line has no control character when the stamp, the name, the message and a detail
  that is a string have none: whatever an object or a list holds is escaped.
\<close>

lemma header_printable:
  assumes "\<forall>c \<in> set (date @ replicaId). printable c"
  shows "\<forall>c \<in> set (header date replicaId trm rl). printable c"
proof -
  have up: "\<forall>r. list_all printable (to_upper (case r of Some r \<Rightarrow> role_name r | None \<Rightarrow> ''follower''))"
  proof
    fix r show "list_all printable (to_upper (case r of Some r \<Rightarrow> role_name r | None \<Rightarrow> ''follower''))"
    proof (cases r)
      case None
      then show ?thesis by simp code_simp
    next
      case (Some x)
      then show ?thesis by (cases x) (simp, code_simp)+
    qed
  qed
  have "\<forall>c \<in> set (stamp date). printable c" using assms by (auto simp: stamp_def dest!: in_set_takeD in_set_dropD)
  with assms up[rule_format, of rl] show ?thesis
    by (auto simp: header_def list_all_iff printable_show_int split: option.splits)
qed

text \<open>
  A log entry is one line. The line of a message, at every level and with every object or list as its
  detail, has no line break or other control character when the name, the date and the message have
  none; only a detail that is itself a string is copied as it is.
\<close>

theorem log_entry_is_one_line:
  assumes "\<forall>c \<in> set (date @ replicaId @ msg). printable c" "\<forall>s. detail \<noteq> JStr s"
    and "log_line env lv date replicaId trm rl msg detail = Some line"
  shows "\<forall>c \<in> set line. printable c"
proof -
  have b: "\<forall>c \<in> set (header date replicaId trm rl @ msg). printable c"
    using header_printable[of date replicaId trm rl] assms(1) by auto
  have l: "line = fmt date replicaId trm rl msg detail" using assms(3) by (simp add: log_line_def split: if_splits)
  show ?thesis
  proof (cases "detail = JNull")
    case True
    with b show ?thesis by (simp add: l fmt_def Let_def)
  next
    case False
    with assms(2) have "line = (header date replicaId trm rl @ msg) @ '' | '' @ json_text detail"
      unfolding l fmt_def Let_def by (cases detail) simp_all
    with b json_one_line[of _ detail] show ?thesis by auto
  qed
qed

theorem log_entry_is_one_line_witness:
  "log_line None LogWarn ''2026-09-23T18:17:26.249Z'' ''replica1'' (Some 3) (Some LEADER) ''Partition INJECTED''
     (JObj [(''affected'', JArr [JStr [CHR 0x0A]])]) =
     Some (''[18:17:26.249] [replica1] [term:3] [LEADER] Partition INJECTED | '' @
       json_text (JObj [(''affected'', JArr [JStr [CHR 0x0A]])])) \<and>
   list_all printable (json_text (JObj [(''affected'', JArr [JStr [CHR 0x0A]])]))"
proof -
  let ?d = "JObj [(''affected'', JArr [JStr [CHR 0x0A]])]"
  let ?l = "''[18:17:26.249] [replica1] [term:3] [LEADER] Partition INJECTED | '' @ json_text ?d"
  have line: "log_line None LogWarn ''2026-09-23T18:17:26.249Z'' ''replica1'' (Some 3) (Some LEADER)
      ''Partition INJECTED'' ?d = Some ?l" by code_simp
  have "list_all printable (''2026-09-23T18:17:26.249Z'' @ ''replica1'' @ ''Partition INJECTED'')" by code_simp
  then have "\<forall>c \<in> set (''2026-09-23T18:17:26.249Z'' @ ''replica1'' @ ''Partition INJECTED''). printable c"
    by (simp add: list_all_iff)
  from log_entry_is_one_line[OF this _ line] have "\<forall>c \<in> set ?l. printable c" by simp
  then have "list_all printable (json_text ?d)" by (simp only: list_all_iff set_append Un_iff) blast
  with line show ?thesis by blast
qed

end
