(* ===== verification/Spec2Isabelle.thy ===== *)
theory Spec2Isabelle imports Convergence Client_Guarantees Stroke_Path Canvas_Page Dashboard Test_Harness Logger begin

text \<open>
  A verification development for raft-canvas: a drawing board replicated with Raft.

  The program.  Browsers (\<open>frontend/canvas.js\<close>) send each line segment as a stroke with an
  identity \<open>(clientId, seq)\<close> over a WebSocket to a gateway (\<open>gateway/gateway.js\<close>), which
  posts it to the replica it takes for the leader. A replica (\<open>replicas/replicaServer.js\<close>) is an
  HTTP shell around a Raft node (\<open>replicas/raft/RaftNode.js\<close>), which keeps its term, vote, log and
  snapshots in SQLite (\<open>Persistence.js\<close>), talks to its peers through a client with fault injection
  (\<open>Transport.js\<close>), and applies committed entries to a state machine (\<open>StateMachine.js\<close>) that
  drops retried strokes. The leader posts each applied stroke to the gateway, which sends it to all
  browsers; a page loads the history from \<open>GET /log\<close> (\<open>logHistory.js\<close>).

  The theories, from the bottom up.

  \<^item> \<open>Raft_Prelude\<close>: collections of simplification rules; JavaScript maps as association lists in
    insertion order; facts on sorted and distinct lists.
  \<^item> \<open>Raft_Types\<close>: JSON values, roles and entry types (\<open>types.js\<close>), log entries.
  \<^item> \<open>State_Machine\<close>: \<open>apply_entry\<close> (\<open>apply\<close>), \<open>touchDedupe\<close>, \<open>getDedupeIndex\<close>,
    \<open>getStrokesFrom\<close>, \<open>getSnapshot\<close>, \<open>restoreSnapshot\<close>. The table of clients is
    reached through the locale \<open>ordered_table\<close>, interpreted as \<open>js_table\<close>. Shown: the canvas has each
    fresh stroke once and in order, applying again changes nothing, and a snapshot with the rest of the
    log gives the same state as the whole log.
  \<^item> \<open>Persistence\<close>: the record \<open>db\<close> with one definition per method. The log table refines
    a finite map from indices to entries (locale \<open>indexed_log\<close>, interpreted as \<open>plog\<close>); files stay
    well formed; taking a snapshot and compacting keeps the position of the log.
  \<^item> \<open>Raft_State\<close>: the record \<open>node\<close> of class \<open>RaftNode\<close>, the records of the calls and
    answers, timers, \<open>start\<close>, \<open>stop\<close>, role changes, \<open>appendLocal\<close>, \<open>applyCommitted\<close>,
    \<open>maybeSnapshot\<close>, and frame facts on which fields each leaves alone.
  \<^item> \<open>Raft_Follower\<close>: \<open>handleRequestVote\<close>, \<open>handleAppendEntries\<close>,
    \<open>handleInstallSnapshot\<close>, on every branch.
  \<^item> \<open>Raft_Leader\<close>: elections, replication calls and their answers, the commit rule. Shown among
    others: a leader and a follower that exchange calls without loss agree on the whole log after at most
    \<open>nextIndex + 1\<close> rounds (\<open>sync_round\<close> is one call, its handling and its answer).
  \<^item> \<open>Raft_Client\<close>: \<open>submit\<close>, \<open>_awaitCommit\<close>, \<open>readIndex\<close>, \<open>getStatus\<close>.
  \<^item> \<open>Crash_Points\<close>: for each handler that writes more than once the files it leaves, write by write, and
    what a node started from one of them finds. Shown: the lists end in the file the handler leaves; a crash between
    snapshot and compaction does no harm; one while a snapshot is installed loses the log.
  \<^item> \<open>Cluster\<close>: any set of nodes and a network that may lose, repeat and reorder every call and
    answer, with restarts from the file and crashes at any write of a handler, as the relation \<open>step\<close> whose rules are the handlers; the
    invariants of the reachable states and the safety properties over them. That majorities meet and
    elect one leader is proved in the locale \<open>balloting\<close>, interpreted as \<open>ballots\<close> on the
    invariant of the model's cluster.
  \<^item> \<open>Log_Matching\<close>, \<open>Leader_Completeness\<close>, \<open>Commit_Safety\<close>: the safety argument of
    Raft on the model of \<open>Cluster\<close>. The ghost \<open>leader_logs\<close> keeps every log a leader has had;
    two logs with a common index and term agree below it; a log that a majority has acknowledged in the
    term of its last entry (\<open>chosen\<close>) is in every later leader's log; what is committed is the
    same on all nodes, is in every later leader's log, stays over restarts, and makes the canvases.
    \<open>step_if\<close> restricts which answers a leader takes.
  \<^item> \<open>Client_Guarantees\<close>: what those give a client. \<open>carries\<close> is what a state keeps of an earlier one
    of its run; an acknowledged submission is kept, a confirmed read sees every canvas that a leader
    had before it began, and \<open>GET /log\<close> returns the committed strokes.
  \<^item> \<open>Smoke_Test\<close>: \<open>smoketest.js\<close>, three nodes in one process whose transport calls the
    handlers directly. A turn of the event loop is one function: a timer or a call of the client, the calls
    it makes, and their answers. Each state of the test is a state of \<open>Cluster\<close>; its check for
    divergence never fails before a compaction; one quick schedule per node is run to the end.
    \<open>Convergence\<close>: over the same turns, heartbeats of a leader bring every node to its log.
  \<^item> \<open>Transport\<close>, \<open>Event_Log\<close>, \<open>Log_History\<close>, \<open>Js_Text\<close>: the RPC client's fault
    policy and counters, the bounded timeline (\<open>EventLog.js\<close>), the history query, and the string
    functions the servers use.
  \<^item> \<open>Js_Json\<close>, \<open>Logger\<close>: \<open>JSON.stringify\<close>, and the lines of \<open>logger.js\<close>.
  \<^item> \<open>Replica_Server\<close>: the configuration, routes and listeners of \<open>replicaServer.js\<close>;
    \<open>Admin_Api\<close>: its fault requests as the tools send them (\<open>admin_post\<close>, \<open>administer\<close>).
  \<^item> \<open>Gateway\<close>: leader discovery, forwarding with three attempts, broadcast and the routes.
  \<^item> \<open>Canvas\<close>: the page's identity, its queue of strokes without an echo, reconnection, replay of
    history and tools; \<open>Canvas_Page\<close>: pointer coordinates, status texts, the debug panel, the start.
  \<^item> \<open>Stroke_Path\<close>: page, gateway and cluster in one step relation \<open>path_step\<close>, from the pointer event
    to the board. A board shows a tab's strokes in drawing order and each at most once; a stroke that the
    gateway lets another overtake is acknowledged and never shown.
  \<^item> \<open>Dashboard\<close>: \<open>dashboard.js\<close> as the HTML it writes for what it has polled, and as the
    requests of its fault panel.
  \<^item> \<open>Bench_Stats\<close>, \<open>Bench\<close>: \<open>stats.js\<close>; the options, drivers, scenarios, plan and
    report of the benchmarks (\<open>bench.js\<close>, \<open>http.js\<close>, \<open>inprocess.js\<close>, \<open>scenarios.js\<close>,
    \<open>report.js\<close>).
  \<^item> \<open>Test_Harness\<close>: the fleet of nodes of \<open>tests/integration/cluster.js\<close>, which the in-process
    driver and the integration tests run: its transport, start, kill, restart and faults.

  How code becomes definitions. A class or the module state of a file is a record, an operation a function
  from the record to the record and its result. JavaScript runs one handler at a time, so a handler is one
  function; an \<open>async\<close> function is split at each \<open>await\<close> into a part before it, which makes
  the call, and a part after it, which takes the answer and what the closure has kept, and other handlers
  run in between. Clock and random values are inputs. Indices, terms and sequence numbers are unbounded
  integers, where the program has doubles that are exact below \<open>2^53\<close>. Rejections and error answers are
  values. All recursions are structural or on the length of a list, so no definition needs fuel; the loops
  of the code that wait for answers are runs over lists of answers, with a measure
  (\<open>forward_budget\<close>, at most 12) where they are shown to end.

  Groups of properties. Safety of the cluster over all reachable states (one leader per term, votes
  kept over restarts, an index and a term identify an entry, leaders do not rewrite their log, logs match,
  committed entries are never lost or different, under the conditions named below); that a stable leader brings all nodes to its log and
  commits it (\<open>heartbeats_converge\<close>); linearizable reads, acknowledged strokes that are kept, and the way
  of a stroke through all components; what each handler guarantees on every branch; refinement of the stored log to a map; exactly-once application and
  its agreement with snapshots; what clients are told, with the runs in which that is not what happened
  (an acknowledged submission that was overwritten, a submission never answered, an old answer counted for
  a commit, a replayed batch that drops the tail after compaction); the fault policy of the transport; the
  routes; the gateway's forwarding ends; the page neither forgets a stroke nor reuses an identity; what the
  dashboard shows and does; what the benchmarks measure, with the cases in which they measure something
  else; the test fleet, whose nodes that are started again know all the others while each stands in its own
  place (\<open>restart_gets_all_peers\<close>) and may split into two majorities otherwise
  (\<open>reverse_restart_splits_quorums\<close>).

  Bounds of the safety theorems. \<open>election_safety\<close>, \<open>votes_survive\<close> and
  \<open>leader_append_only\<close> hold of every reachable state and step. \<open>log_matching\<close> and the lemma
  \<open>acknowledged_in_later_leaders\<close> hold of every reachable state in which no node has taken a snapshot yet
  (\<open>quiet\<close>, the first hundred applied entries with the code's default). The theorems on commits
  (\<open>state_machine_safety\<close>, \<open>leader_completeness\<close>, \<open>committed_stays\<close>, \<open>replicas_agree\<close>),
  and with them \<open>Client_Guarantees\<close> and \<open>board_shows_tab_in_order\<close>, also ask that a leader takes
  an answer to a replication call only in the term of the call (\<open>timely\<close>). \<open>leader_completeness\<close>,
  \<open>committed_stays\<close> and those of \<open>Client_Guarantees\<close> on reads and submissions speak of whole runs
  (\<open>runs\<close>), in which nodes crash and start again with nothing committed.
  Both conditions are needed: beyond the first, \<open>compacted_redelivery_drops_tail\<close> has a node forget
  acknowledged entries (as has \<open>crash_while_installing_loses_log\<close>), and without the second
  \<open>stale_append_reply_commits\<close> has a leader commit what no majority holds. In the code the
  answer of an earlier term does not come as long as the RPC timeout is below the election timeout.

  \<open>heartbeats_converge\<close> asks for the same two conditions, for calls that all arrive, and for a
  leader with no node in a newer term; with next indices up to \<open>N\<close>, \<open>N + 2\<close> heartbeats suffice: at
  most \<open>N\<close> to go back, one to copy and commit, one to tell. Its turns are those of the smoke test,
  where no other handler runs between a call and its answer; the safety theorems have no such
  restriction.

  Not modelled. A crash inside a write of the store (a statement or transaction is one update, as SQLite
  promises); SQLite's pragmas; log lines; HTTP, express, WebSocket and DOM
  interfaces, whose outcomes are inputs; drawing, which is recorded as the list of segments; the rounding of
  doubles (coordinates, probabilities and the benchmarks' averages are rationals, so nothing is proved of an
  average); a session storage whose counter is not a number; comparisons of numbers with strings that hold a
  number; cross-origin headers; the temporary directories of the test fleet and the benchmarks' output files; of
  the smoke test the printed report, the exit code and what becomes of the closed node, which answers no
  call and is replaced; the suites under \<open>replicas/tests\<close>, whose cases are assertions on single
  inputs.
\<close>

end
